(* ===== verification/Go_Prelude.thy ===== *)
theory Go_Prelude
  imports Main "HOL-Library.Char_ord"
begin

text \<open>
  What every component shares: the byte-string type, the names of the control characters the
  sources mention, the collections of rewrite rules the component proofs draw on, and generic
  facts on lists and maps that no component owns.

  A Go \<^verbatim>\<open>string\<close> is a sequence of bytes; an Isabelle \<open>string\<close> is a list of
  8-bit characters, so the two coincide byte for byte and \<open>length\<close> is Go's \<^verbatim>\<open>len\<close>.
\<close>

named_theorems go_str "rewrite rules for the functions of Go's strings package"
named_theorems go_num "rewrite rules for decimal printing and scanning"
named_theorems ii_wf "introduction facts about well-formed messages, tags and records"

abbreviation NL :: char where "NL \<equiv> CHR 0x0A"
abbreviation CR :: char where "CR \<equiv> CHR 0x0D"
abbreviation TAB :: char where "TAB \<equiv> CHR 0x09"
abbreviation SP :: char where "SP \<equiv> CHR '' ''"
abbreviation DQ :: char where "DQ \<equiv> CHR 0x22"

text \<open>A Go map is a partial function; \<open>None\<close> for the whole map is Go's nil map.\<close>

type_synonym 'v gomap = "(string \<rightharpoonup> 'v) option"

text \<open>Reading a nil map finds nothing; only writing to it panics.\<close>

definition map_get :: "'v gomap \<Rightarrow> string \<Rightarrow> 'v option" where
  "map_get m k = (case m of None \<Rightarrow> None | Some h \<Rightarrow> h k)"

lemma map_get_simps [simp]:
  "map_get None k = None"
  "map_get (Some h) k = h k"
  by (simp_all add: map_get_def)

subsection \<open>Lists\<close>

lemma takeWhile_id_append:
  "(\<forall>x\<in>set xs. P x) \<Longrightarrow> takeWhile P (xs @ ys) = xs @ takeWhile P ys"
  by (induction xs) auto

lemma dropWhile_id_append:
  "(\<forall>x\<in>set xs. P x) \<Longrightarrow> dropWhile P (xs @ ys) = dropWhile P ys"
  by (induction xs) auto

lemma dropWhile_hd_False [simp]: "xs \<noteq> [] \<Longrightarrow> \<not> P (hd xs) \<Longrightarrow> dropWhile P xs = xs"
  by (cases xs) auto

lemma take_drop_append_eq:
  "length xs = n \<Longrightarrow> take n (xs @ ys) = xs \<and> drop n (xs @ ys) = ys"
  by auto

text \<open>The last value of a key in a list of pairs: what repeated map writes leave behind.\<close>

fun last_of :: "('k \<times> 'v) list \<Rightarrow> 'k \<Rightarrow> 'v option" where
  "last_of [] k = None"
| "last_of ((k', v) # ps) k =
     (case last_of ps k of Some w \<Rightarrow> Some w | None \<Rightarrow> if k' = k then Some v else None)"

lemma last_of_append:
  "last_of (ps @ qs) k = (case last_of qs k of Some w \<Rightarrow> Some w | None \<Rightarrow> last_of ps k)"
  by (induction ps k rule: last_of.induct) (auto split: option.splits)

lemma last_of_None_iff: "last_of ps k = None \<longleftrightarrow> k \<notin> fst ` set ps"
  by (induction ps k rule: last_of.induct) (auto split: option.splits)

lemma last_of_Some_set: "last_of ps k = Some v \<Longrightarrow> (k, v) \<in> set ps"
  by (induction ps k rule: last_of.induct) (auto split: option.splits if_splits)

lemma foldl_map_upd_last_of:
  "foldl (\<lambda>m p. m(fst p \<mapsto> snd p)) m ps k
     = (case last_of ps k of Some v \<Rightarrow> Some v | None \<Rightarrow> m k)"
  by (induction ps arbitrary: m) (auto split: option.splits)

text \<open>Distinct keys in the order of their first occurrence.\<close>

definition add_new :: "'a list \<Rightarrow> 'a \<Rightarrow> 'a list" where
  "add_new ys x = (if x \<in> set ys then ys else ys @ [x])"

definition first_occurrences :: "'a list \<Rightarrow> 'a list" where
  "first_occurrences xs = foldl add_new [] xs"

lemma set_foldl_add_new: "set (foldl add_new ys xs) = set ys \<union> set xs"
  by (induction xs arbitrary: ys) (auto simp: add_new_def)

lemma distinct_foldl_add_new: "distinct ys \<Longrightarrow> distinct (foldl add_new ys xs)"
  by (induction xs arbitrary: ys) (auto simp: add_new_def)

lemma set_first_occurrences [simp]: "set (first_occurrences xs) = set xs"
  by (simp add: first_occurrences_def set_foldl_add_new)

lemma distinct_first_occurrences [simp]: "distinct (first_occurrences xs)"
  by (simp add: first_occurrences_def distinct_foldl_add_new)

lemma first_occurrences_snoc:
  "first_occurrences (xs @ [x]) = add_new (first_occurrences xs) x"
  by (simp add: first_occurrences_def)

end
