(* ===== verification/Go_Strings.thy ===== *)
theory Go_Strings
  imports Go_Prelude
begin

text \<open>
  The functions of Go's \<^verbatim>\<open>strings\<close> package that the sources call, on byte strings:
  \<^verbatim>\<open>Split\<close> (one-byte separators), \<^verbatim>\<open>SplitN\<close>, \<^verbatim>\<open>Join\<close>, \<^verbatim>\<open>HasPrefix\<close>,
  \<^verbatim>\<open>HasSuffix\<close>, \<^verbatim>\<open>TrimPrefix\<close>, \<^verbatim>\<open>TrimSuffix\<close>, \<^verbatim>\<open>Index\<close>, \<^verbatim>\<open>Contains\<close>,
  \<^verbatim>\<open>Replace\<close> (one-byte pattern, all occurrences), \<^verbatim>\<open>Trim\<close>, \<^verbatim>\<open>TrimLeft\<close>,
  \<^verbatim>\<open>TrimRight\<close> (ASCII cut sets) and \<^verbatim>\<open>TrimSpace\<close>; and the laws that the
  component proofs use, collected in \<open>go_str\<close>.
\<close>

section \<open>Splitting and joining\<close>

fun Split :: "char \<Rightarrow> string \<Rightarrow> string list" where
  "Split c [] = [[]]"
| "Split c (x # xs) =
     (if x = c then [] # Split c xs
      else (case Split c xs of [] \<Rightarrow> [[x]] | w # ws \<Rightarrow> (x # w) # ws))"

fun Join :: "string \<Rightarrow> string list \<Rightarrow> string" where
  "Join sep [] = []"
| "Join sep [w] = w"
| "Join sep (w # v # ws) = w @ sep @ Join sep (v # ws)"

text \<open>\<^verbatim>\<open>strings.SplitN(s, c, n)\<close> for \<open>n > 0\<close>: at most \<open>n\<close> pieces, the last one unsplit.\<close>

fun SplitN :: "char \<Rightarrow> nat \<Rightarrow> string \<Rightarrow> string list" where
  "SplitN c 0 s = []"
| "SplitN c (Suc 0) s = [s]"
| "SplitN c (Suc (Suc n)) s =
     (if c \<in> set s
      then takeWhile (\<lambda>x. x \<noteq> c) s # SplitN c (Suc n) (tl (dropWhile (\<lambda>x. x \<noteq> c) s))
      else [s])"

lemma Split_nonempty [simp]: "Split c s \<noteq> []"
  by (induction c s rule: Split.induct) (auto split: list.splits)

lemma length_Split_pos [simp]: "0 < length (Split c s)"
  by simp

lemma Split_no_sep [go_str]: "c \<notin> set s \<Longrightarrow> Split c s = [s]"
  by (induction c s rule: Split.induct) auto

lemma Split_append [go_str]: "c \<notin> set w \<Longrightarrow> Split c (w @ c # s) = w # Split c s"
  by (induction w) (auto split: list.splits)

lemma Split_singleton_sep [simp]: "Split c [c] = [[], []]"
  by simp

lemma Join_Cons: "ws \<noteq> [] \<Longrightarrow> Join sep (w # ws) = w @ sep @ Join sep ws"
  by (cases ws) auto

lemma Join_Split: "Join [c] (Split c s) = s"
proof (induction c s rule: Split.induct)
  case (2 c x xs)
  then show ?case
    by (cases "Split c xs") (auto simp: Join_Cons split: list.splits, (case_tac list; simp)+)
qed simp

lemma set_Join: "set (Join sep ws) \<subseteq> \<Union> (set ` set ws) \<union> set sep"
  by (induction sep ws rule: Join.induct) auto

lemma Split_Join:
  "ws \<noteq> [] \<Longrightarrow> \<forall>w\<in>set ws. c \<notin> set w \<Longrightarrow> Split c (Join [c] ws) = ws"
proof (induction "[c]" ws rule: Join.induct)
  case (3 w v ws)
  then show ?case by (simp add: Split_append)
qed (auto simp: Split_no_sep)

lemma Split_pieces: "w \<in> set (Split c s) \<Longrightarrow> c \<notin> set w"
  by (induction c s arbitrary: w rule: Split.induct) (auto split: list.splits if_splits)

lemma Split_pieces_subset: "w \<in> set (Split c s) \<Longrightarrow> set w \<subseteq> set s"
proof (induction c s arbitrary: w rule: Split.induct)
  case (2 c x xs)
  then show ?case
    by (cases "Split c xs") (fastforce split: if_splits)+
qed simp

lemma Split_inject: "Split c s = Split c t \<longleftrightarrow> s = t"
  by (metis Join_Split)

lemma length_Split: "length (Split c s) = Suc (length (filter (\<lambda>x. x = c) s))"
proof (induction c s rule: Split.induct)
  case (2 c x xs)
  then show ?case by (cases "Split c xs") auto
qed simp

lemma length_Split_1_iff: "length (Split c s) = 1 \<longleftrightarrow> c \<notin> set s"
  by (auto simp: length_Split filter_empty_conv)

lemma Split_hd: "hd (Split c s) = takeWhile (\<lambda>x. x \<noteq> c) s"
  by (induction c s rule: Split.induct) (auto split: list.splits)

lemma Split_two: "Split c s = [a, b] \<Longrightarrow> s = a @ c # b \<and> c \<notin> set a \<and> c \<notin> set b"
  using Join_Split [of c s] Split_pieces [of _ c s] by auto

section \<open>Prefixes and suffixes\<close>

fun HasPrefix :: "string \<Rightarrow> string \<Rightarrow> bool" where
  "HasPrefix s [] = True"
| "HasPrefix [] (p # ps) = False"
| "HasPrefix (x # xs) (p # ps) = (x = p \<and> HasPrefix xs ps)"

definition HasSuffix :: "string \<Rightarrow> string \<Rightarrow> bool" where
  "HasSuffix s p = HasPrefix (rev s) (rev p)"

definition TrimPrefix :: "string \<Rightarrow> string \<Rightarrow> string" where
  "TrimPrefix s p = (if HasPrefix s p then drop (length p) s else s)"

definition TrimSuffix :: "string \<Rightarrow> string \<Rightarrow> string" where
  "TrimSuffix s p = (if HasSuffix s p then take (length s - length p) s else s)"

lemma HasPrefix_iff: "HasPrefix s p \<longleftrightarrow> (\<exists>t. s = p @ t)"
  by (induction s p rule: HasPrefix.induct) auto

lemma HasSuffix_iff: "HasSuffix s p \<longleftrightarrow> (\<exists>t. s = t @ p)"
proof -
  have "rev s = rev p @ t \<longleftrightarrow> s = rev t @ p" for t
    by (metis rev_append rev_rev_ident)
  then show ?thesis
    unfolding HasSuffix_def HasPrefix_iff by (metis rev_rev_ident)
qed

lemma HasPrefix_append [simp]: "HasPrefix (p @ s) p"
  by (auto simp: HasPrefix_iff)

lemma HasPrefix_Cons1: "HasPrefix s [c] \<longleftrightarrow> s \<noteq> [] \<and> hd s = c"
  by (cases s) auto

lemma HasSuffix_append [simp]: "HasSuffix (s @ p) p"
  by (auto simp: HasSuffix_iff)

lemma HasSuffix_1: "HasSuffix s [c] \<longleftrightarrow> s \<noteq> [] \<and> last s = c"
  by (auto simp: HasSuffix_iff) (metis append_butlast_last_id)

lemma TrimPrefix_append [go_str]: "TrimPrefix (p @ s) p = s"
  by (simp add: TrimPrefix_def)

lemma TrimSuffix_append [go_str]: "TrimSuffix (s @ p) p = s"
  by (simp add: TrimSuffix_def)

lemma TrimSuffix_1: "TrimSuffix s [c] = (if s \<noteq> [] \<and> last s = c then butlast s else s)"
  by (simp add: TrimSuffix_def HasSuffix_1 butlast_conv_take)

section \<open>Searching and replacing\<close>

fun Index :: "string \<Rightarrow> string \<Rightarrow> nat option" where
  "Index [] p = (if p = [] then Some 0 else None)"
| "Index (x # xs) p = (if HasPrefix (x # xs) p then Some 0 else map_option Suc (Index xs p))"

definition Contains :: "string \<Rightarrow> string \<Rightarrow> bool" where
  "Contains s p = (Index s p \<noteq> None)"

definition ContainsAny :: "string \<Rightarrow> string \<Rightarrow> bool" where
  "ContainsAny s cs = (\<exists>x\<in>set s. x \<in> set cs)"

definition Replace :: "char \<Rightarrow> string \<Rightarrow> string \<Rightarrow> string" where
  "Replace c r s = concat (map (\<lambda>x. if x = c then r else [x]) s)"

lemma Contains_char [simp]: "Contains s [c] \<longleftrightarrow> c \<in> set s"
proof (induction s)
  case (Cons x xs)
  then show ?case by (cases "x = c") (auto simp: Contains_def)
qed (simp add: Contains_def)

lemma Index_Some:
  "Index s p = Some n \<Longrightarrow> n + length p \<le> length s \<and> take (length p) (drop n s) = p"
  by (induction s p arbitrary: n rule: Index.induct)
     (auto split: if_splits simp: HasPrefix_iff Cons_eq_append_conv)

lemma Replace_Nil [simp]: "Replace c r [] = []"
  by (simp add: Replace_def)

lemma Replace_Cons: "Replace c r (x # xs) = (if x = c then r else [x]) @ Replace c r xs"
  by (simp add: Replace_def)

lemma Replace_append: "Replace c r (s @ t) = Replace c r s @ Replace c r t"
  by (simp add: Replace_def)

lemma Replace_id [go_str]: "c \<notin> set s \<Longrightarrow> Replace c r s = s"
  by (induction s) (auto simp: Replace_Cons)

lemma set_Replace: "set (Replace c r s) \<subseteq> (set s - {c}) \<union> set r"
  by (induction s) (auto simp: Replace_Cons split: if_splits)

lemma Replace_removes [go_str]: "c \<notin> set r \<Longrightarrow> c \<notin> set (Replace c r s)"
  using set_Replace [of c r s] by auto

lemma Replace_del_filter: "Replace c [] s = filter (\<lambda>x. x \<noteq> c) s"
  by (induction s) (auto simp: Replace_Cons)

section \<open>Trimming\<close>

definition TrimLeft :: "string \<Rightarrow> string \<Rightarrow> string" where
  "TrimLeft s cs = dropWhile (\<lambda>x. x \<in> set cs) s"

definition TrimRight :: "string \<Rightarrow> string \<Rightarrow> string" where
  "TrimRight s cs = rev (dropWhile (\<lambda>x. x \<in> set cs) (rev s))"

definition Trim :: "string \<Rightarrow> string \<Rightarrow> string" where
  "Trim s cs = TrimRight (TrimLeft s cs) cs"

lemma set_TrimLeft: "set (TrimLeft s cs) \<subseteq> set s"
  by (auto simp: TrimLeft_def dest: set_dropWhileD)

lemma set_TrimRight: "set (TrimRight s cs) \<subseteq> set s"
  by (auto simp: TrimRight_def dest: set_dropWhileD)

lemma set_Trim: "set (Trim s cs) \<subseteq> set s"
  using set_TrimLeft set_TrimRight by (fastforce simp: Trim_def)

lemma TrimLeft_id: "s = [] \<or> hd s \<notin> set cs \<Longrightarrow> TrimLeft s cs = s"
  by (cases s) (auto simp: TrimLeft_def)

lemma TrimRight_id: "s = [] \<or> last s \<notin> set cs \<Longrightarrow> TrimRight s cs = s"
  by (cases s rule: rev_cases) (auto simp: TrimRight_def)

lemma Trim_id: "s = [] \<or> hd s \<notin> set cs \<and> last s \<notin> set cs \<Longrightarrow> Trim s cs = s"
  by (auto simp: Trim_def TrimLeft_id TrimRight_id)

lemma hd_TrimLeft: "TrimLeft s cs \<noteq> [] \<Longrightarrow> hd (TrimLeft s cs) \<notin> set cs"
  using hd_dropWhile [of "\<lambda>x. x \<in> set cs" s] by (simp add: TrimLeft_def)

lemma last_TrimRight: "TrimRight s cs \<noteq> [] \<Longrightarrow> last (TrimRight s cs) \<notin> set cs"
  unfolding TrimRight_def
  using hd_dropWhile [of "\<lambda>x. x \<in> set cs" "rev s"] by (simp add: last_rev)

lemma TrimRight_prefix: "\<exists>t. s = TrimRight s cs @ t"
proof -
  let ?P = "\<lambda>x. x \<in> set cs"
  have "s = rev (takeWhile ?P (rev s) @ dropWhile ?P (rev s))" by simp
  then show ?thesis unfolding TrimRight_def rev_append by blast
qed

lemma Trim_ends:
  assumes "Trim s cs \<noteq> []"
  shows "hd (Trim s cs) \<notin> set cs \<and> last (Trim s cs) \<notin> set cs"
proof -
  obtain t where t: "TrimLeft s cs = Trim s cs @ t"
    using TrimRight_prefix unfolding Trim_def by blast
  then have "TrimLeft s cs \<noteq> []" using assms by auto
  then have "hd (TrimLeft s cs) \<notin> set cs" by (rule hd_TrimLeft)
  moreover have "hd (TrimLeft s cs) = hd (Trim s cs)"
    unfolding t using assms by (rule hd_append2)
  moreover have "last (Trim s cs) \<notin> set cs"
    using last_TrimRight assms unfolding Trim_def by blast
  ultimately show ?thesis by simp
qed

text \<open>
  \<^verbatim>\<open>strings.TrimSpace\<close> cuts the runes of \<^verbatim>\<open>unicode.IsSpace\<close> off both ends. The list
  holds the UTF-8 encoding of each of them; an encoding is the prefix (the suffix) of a string
  exactly if Go decodes its first (last) rune to that code point.
\<close>

definition space_runes :: "string list" where
  "space_runes =
     [[CHR 0x09], [CHR 0x0A], [CHR 0x0B], [CHR 0x0C], [CHR 0x0D], [CHR 0x20],
      [CHR 0xC2, CHR 0x85], [CHR 0xC2, CHR 0xA0], [CHR 0xE1, CHR 0x9A, CHR 0x80],
      [CHR 0xE2, CHR 0x80, CHR 0x80], [CHR 0xE2, CHR 0x80, CHR 0x81],
      [CHR 0xE2, CHR 0x80, CHR 0x82], [CHR 0xE2, CHR 0x80, CHR 0x83],
      [CHR 0xE2, CHR 0x80, CHR 0x84], [CHR 0xE2, CHR 0x80, CHR 0x85],
      [CHR 0xE2, CHR 0x80, CHR 0x86], [CHR 0xE2, CHR 0x80, CHR 0x87],
      [CHR 0xE2, CHR 0x80, CHR 0x88], [CHR 0xE2, CHR 0x80, CHR 0x89],
      [CHR 0xE2, CHR 0x80, CHR 0x8A], [CHR 0xE2, CHR 0x80, CHR 0xA8],
      [CHR 0xE2, CHR 0x80, CHR 0xA9], [CHR 0xE2, CHR 0x80, CHR 0xAF],
      [CHR 0xE2, CHR 0x81, CHR 0x9F], [CHR 0xE3, CHR 0x80, CHR 0x80]]"

text \<open>
  Each round drops one rune; the length of the string is fuel enough, since no rune is empty.
\<close>

fun drop_runes :: "string list \<Rightarrow> nat \<Rightarrow> string \<Rightarrow> string" where
  "drop_runes rs 0 s = s"
| "drop_runes rs (Suc n) s =
     (case find (HasPrefix s) rs of None \<Rightarrow> s | Some r \<Rightarrow> drop_runes rs n (drop (length r) s))"

definition TrimSpace :: "string \<Rightarrow> string" where
  "TrimSpace s =
     (let l = drop_runes space_runes (length s) s
      in rev (drop_runes (map rev space_runes) (length l) (rev l)))"

lemma set_drop_runes: "set (drop_runes rs n s) \<subseteq> set s"
  by (induction rs n s rule: drop_runes.induct)
     (auto split: option.splits dest: in_set_dropD)

lemma set_TrimSpace: "set (TrimSpace s) \<subseteq> set s"
proof -
  let ?l = "drop_runes space_runes (length s) s"
  have "set (TrimSpace s) \<subseteq> set (rev ?l)"
    unfolding TrimSpace_def Let_def
    using set_drop_runes [of "map rev space_runes" "length ?l" "rev ?l"] by simp
  then show ?thesis using set_drop_runes by fastforce
qed

text \<open>Enough fuel: with the length of the string no further rune can be cut.\<close>

lemma drop_runes_done:
  assumes "\<forall>r\<in>set rs. r \<noteq> []"
  shows "length s \<le> n \<Longrightarrow> find (HasPrefix (drop_runes rs n s)) rs = None"
  using assms
proof (induction rs n s rule: drop_runes.induct)
  case (1 rs s)
  then have "s = []" by simp
  then have "\<not> HasPrefix s r" if "r \<in> set rs" for r
    using 1 that by (cases r) auto
  then show ?case by (auto simp: find_None_iff)
next
  case (2 rs n s)
  show ?case
  proof (cases "find (HasPrefix s) rs")
    case None then show ?thesis by simp
  next
    case (Some r)
    then have r: "r \<in> set rs" "HasPrefix s r" by (auto simp: find_Some_iff)
    then have "r \<noteq> []" using 2 by auto
    then have "0 < length r" by simp
    then have "length (drop (length r) s) \<le> n"
      using 2(2) unfolding length_drop by linarith
    then show ?thesis using Some 2 by simp
  qed
qed

lemma TrimSpace_no_space_left:
  "r \<in> set space_runes \<Longrightarrow> \<not> HasSuffix (TrimSpace s) r"
proof -
  assume r: "r \<in> set space_runes"
  have ne: "\<forall>r\<in>set (map rev space_runes). r \<noteq> []"
    by (simp add: space_runes_def)
  let ?l = "drop_runes space_runes (length s) s"
  have "find (HasPrefix (drop_runes (map rev space_runes) (length ?l) (rev ?l)))
          (map rev space_runes) = None"
    using ne by (intro drop_runes_done) auto
  then show ?thesis
    using r by (simp add: TrimSpace_def HasSuffix_def find_None_iff Let_def)
qed

end
