(* ===== verification/Go_Numbers.thy ===== *)
theory Go_Numbers
  imports Go_Strings
begin

text \<open>
  Go's fixed-width signed integers as \<open>int\<close> with the range and the wrap-around written out,
  and the decimal conversions the sources use: printing with \<^verbatim>\<open>%d\<close>
  (\<open>itoa\<close>), scanning with \<^verbatim>\<open>fmt.Sscanf(s, "%d", &x)\<close> (\<open>sscan_d\<close>) and
  \<^verbatim>\<open>"%d:%d"\<close> (\<open>sscan_dd\<close>), and \<^verbatim>\<open>strconv.Atoi\<close> with its error dropped
  (\<open>Atoi_val\<close>). The main law is the round trip \<open>sscan_d_itoa\<close>.
\<close>

section \<open>Ranges and wrap-around\<close>

definition in_range :: "nat \<Rightarrow> int \<Rightarrow> bool" where
  "in_range w i = (- (2 ^ (w - 1)) \<le> i \<and> i < 2 ^ (w - 1))"

abbreviation in64 :: "int \<Rightarrow> bool" where "in64 \<equiv> in_range 64"
abbreviation in32 :: "int \<Rightarrow> bool" where "in32 \<equiv> in_range 32"

definition wrap :: "nat \<Rightarrow> int \<Rightarrow> int" where
  "wrap w i = (i + 2 ^ (w - 1)) mod 2 ^ w - 2 ^ (w - 1)"

abbreviation wrap64 :: "int \<Rightarrow> int" where "wrap64 \<equiv> wrap 64"
abbreviation wrap32 :: "int \<Rightarrow> int" where "wrap32 \<equiv> wrap 32"

lemma wrap64_id [go_num]: "in64 i \<Longrightarrow> wrap64 i = i"
  by (simp add: in_range_def wrap_def)

lemma wrap32_id [go_num]: "in32 i \<Longrightarrow> wrap32 i = i"
  by (simp add: in_range_def wrap_def)

lemma in64_wrap64 [simp]: "in64 (wrap64 i)"
proof -
  have "0 \<le> (i + 2 ^ 63) mod 2 ^ 64" "(i + 2 ^ 63) mod 2 ^ 64 < (2 ^ 64 :: int)"
    by simp_all
  then show ?thesis by (simp add: in_range_def wrap_def)
qed

section \<open>Printing\<close>

definition digit :: "nat \<Rightarrow> char" where
  "digit n = char_of (48 + n)"

definition is_digit :: "char \<Rightarrow> bool" where
  "is_digit c = (48 \<le> (of_char c :: nat) \<and> (of_char c :: nat) \<le> 57)"

definition digit_val :: "char \<Rightarrow> nat" where
  "digit_val c = of_char c - 48"

fun utoa :: "nat \<Rightarrow> string" where
  "utoa n = (if n < 10 then [digit n] else utoa (n div 10) @ [digit (n mod 10)])"

declare utoa.simps [simp del]

definition itoa :: "int \<Rightarrow> string" where
  "itoa i = (if i < 0 then CHR ''-'' # utoa (nat (- i)) else utoa (nat i))"

definition digits_val :: "string \<Rightarrow> nat" where
  "digits_val ds = foldl (\<lambda>a c. a * 10 + digit_val c) 0 ds"

lemma of_char_digit: "n < 10 \<Longrightarrow> of_char (digit n) = 48 + n"
  by (simp add: digit_def)

lemma is_digit_digit [go_num]: "n < 10 \<Longrightarrow> is_digit (digit n)"
  by (simp add: is_digit_def of_char_digit)

lemma digit_val_digit [go_num]: "n < 10 \<Longrightarrow> digit_val (digit n) = n"
  by (simp add: digit_val_def of_char_digit)

lemma utoa_digits [go_num]: "c \<in> set (utoa n) \<Longrightarrow> is_digit c"
proof (induction n arbitrary: c rule: utoa.induct)
  case (1 n)
  show ?case
  proof (cases "n < 10")
    case True
    then show ?thesis using 1 by (simp add: utoa.simps [of n] go_num)
  next
    case False
    then show ?thesis using 1 by (auto simp: utoa.simps [of n] go_num)
  qed
qed

lemma utoa_nonempty [simp]: "utoa n \<noteq> []"
  by (subst utoa.simps) simp

lemma digits_val_snoc: "digits_val (ds @ [c]) = digits_val ds * 10 + digit_val c"
  by (simp add: digits_val_def)

lemma digits_val_utoa [go_num]: "digits_val (utoa n) = n"
proof (induction n rule: utoa.induct)
  case (1 n)
  show ?case
  proof (cases "n < 10")
    case True
    then show ?thesis by (simp add: utoa.simps [of n] digits_val_def go_num)
  next
    case False
    then show ?thesis using 1 by (simp add: utoa.simps [of n] digits_val_snoc go_num)
  qed
qed

lemma itoa_chars: "c \<in> set (itoa i) \<Longrightarrow> is_digit c \<or> c = CHR ''-''"
  by (auto simp: itoa_def go_num split: if_splits)

lemma not_is_digit [simp]:
  "\<not> is_digit NL" "\<not> is_digit CR" "\<not> is_digit SP" "\<not> is_digit CHR '':''"
  "\<not> is_digit CHR ''/''" "\<not> is_digit CHR ''-''" "\<not> is_digit CHR ''+''" "\<not> is_digit CHR '',''"
  by (simp_all add: is_digit_def)

lemma itoa_clean [simp]:
  "NL \<notin> set (itoa i)" "CR \<notin> set (itoa i)" "CHR '':'' \<notin> set (itoa i)" "CHR ''/'' \<notin> set (itoa i)"
  "SP \<notin> set (itoa i)" "CHR '','' \<notin> set (itoa i)"
  using itoa_chars [of _ i] by fastforce+

lemma itoa_nonempty [simp]: "itoa i \<noteq> []"
  by (simp add: itoa_def)

lemma utoa_inject [simp]: "utoa m = utoa n \<longleftrightarrow> m = n"
  by (metis digits_val_utoa)

lemma itoa_inject: "itoa i = itoa j \<longleftrightarrow> i = j"
proof
  assume eq: "itoa i = itoa j"
  have sgn: "hd (itoa k) = CHR ''-'' \<longleftrightarrow> k < 0" for k
  proof (cases "k < 0")
    case False
    have "hd (utoa (nat k)) \<in> set (utoa (nat k))" by simp
    then have "is_digit (hd (utoa (nat k)))" by (rule utoa_digits)
    then have "hd (utoa (nat k)) \<noteq> CHR ''-''" by auto
    then show ?thesis using False by (simp add: itoa_def)
  qed (simp add: itoa_def)
  have "(i < 0) = (j < 0)" using sgn [of i] sgn [of j] eq by simp
  then show "i = j" using eq by (auto simp: itoa_def eq_nat_nat_iff split: if_splits)
qed simp

section \<open>Scanning\<close>

text \<open>
  The space characters of package \<^verbatim>\<open>fmt\<close> are those of \<open>space_runes\<close>. A newline in front of
  an operand is an error of \<^verbatim>\<open>Sscanf\<close> (\<^verbatim>\<open>nlIsSpace\<close> is false); a carriage return
  before a newline runs into the same error.
\<close>

fun skip_space :: "nat \<Rightarrow> string \<Rightarrow> string option" where
  "skip_space 0 s = Some s"
| "skip_space (Suc n) s =
     (if HasPrefix s [NL] then None
      else (case find (HasPrefix s) space_runes of
              None \<Rightarrow> Some s
            | Some r \<Rightarrow> skip_space n (drop (length r) s)))"

text \<open>
  \<^verbatim>\<open>%d\<close> into an integer of \<open>w\<close> bits: skip spaces, an optional sign, at least one digit,
  the value in range. The rest of the input is left for the next verb.
\<close>

definition sscan_d :: "nat \<Rightarrow> string \<Rightarrow> (int \<times> string) option" where
  "sscan_d w s =
     (case skip_space (length s) s of
        None \<Rightarrow> None
      | Some t \<Rightarrow>
          (let neg = HasPrefix t ''-'';
               u = (if neg \<or> HasPrefix t ''+'' then tl t else t);
               ds = takeWhile is_digit u;
               v = (if neg then - int (digits_val ds) else int (digits_val ds))
           in if ds = [] \<or> \<not> in_range w v then None
              else Some (v, dropWhile is_digit u)))"

text \<open>
  \<^verbatim>\<open>Sscanf(s, "%d:%d", &a, &b)\<close>: what was stored in \<open>a\<close> and in \<open>b\<close>, if anything. The
  call has no error exactly if both were.
\<close>

definition sscan_dd :: "string \<Rightarrow> int option \<times> int option" where
  "sscan_dd s =
     (case sscan_d 64 s of
        None \<Rightarrow> (None, None)
      | Some (a, r) \<Rightarrow>
          (if HasPrefix r '':'' then
             (case sscan_d 64 (tl r) of
                None \<Rightarrow> (Some a, None)
              | Some (b, _) \<Rightarrow> (Some a, Some b))
           else (Some a, None)))"

text \<open>
  \<^verbatim>\<open>n, _ = strconv.Atoi(s)\<close>: 0 on a syntax error, the nearest bound when out of range.
\<close>

definition Atoi_val :: "string \<Rightarrow> int" where
  "Atoi_val s =
     (let neg = HasPrefix s ''-'';
          u = (if neg \<or> HasPrefix s ''+'' then tl s else s);
          v = (if neg then - int (digits_val u) else int (digits_val u))
      in if u = [] \<or> \<not> list_all is_digit u then 0
         else max (- (2 ^ 63)) (min (2 ^ 63 - 1) v))"

lemma space_runes_not_digit: "r \<in> set space_runes \<Longrightarrow> \<not> is_digit (hd r) \<and> hd r \<noteq> CHR ''-'' \<and> r \<noteq> []"
  by (auto simp: space_runes_def is_digit_def)

lemma skip_space_number:
  assumes "s \<noteq> []" and "is_digit (hd s) \<or> hd s = CHR ''-''"
  shows "skip_space n s = Some s"
proof (cases n)
  case (Suc m)
  obtain x xs where s: "s = x # xs" using assms by (cases s) auto
  have x: "x \<noteq> NL" using assms s by auto
  have "\<not> HasPrefix s r" if "r \<in> set space_runes" for r
    using space_runes_not_digit [OF that] assms s by (cases r) auto
  then have "find (HasPrefix s) space_runes = None" by (auto simp: find_None_iff)
  then show ?thesis using Suc s x by simp
qed simp

lemma sscan_d_itoa:
  assumes "in_range w i" and "rest = [] \<or> \<not> is_digit (hd rest)"
  shows "sscan_d w (itoa i @ rest) = Some (i, rest)"
proof -
  let ?u = "utoa (nat \<bar>i\<bar>)"
  have digits: "\<forall>c\<in>set ?u. is_digit c" by (simp add: utoa_digits)
  have tw: "takeWhile is_digit (?u @ rest) = ?u" "dropWhile is_digit (?u @ rest) = rest"
    using assms(2) digits
    by (cases rest; simp add: takeWhile_id_append dropWhile_id_append)+
  have val: "digits_val ?u = nat \<bar>i\<bar>" by (rule digits_val_utoa)
  obtain x xs where u: "?u = x # xs" by (cases ?u) auto
  then have x: "is_digit x" using digits by simp
  then have xs: "x \<noteq> CHR ''-''" "x \<noteq> CHR ''+''" by auto
  have "skip_space (length (itoa i @ rest)) (itoa i @ rest) = Some (itoa i @ rest)"
    using x u by (intro skip_space_number) (auto simp: itoa_def split: if_splits)
  then show ?thesis
    using assms(1) tw val u xs by (auto simp: sscan_d_def itoa_def Let_def split: if_splits)
qed

lemma sscan_d_range: "sscan_d w s = Some (i, r) \<Longrightarrow> in_range w i"
  by (auto simp: sscan_d_def Let_def split: option.splits if_splits)

lemma skip_space_set: "skip_space n s = Some t \<Longrightarrow> set t \<subseteq> set s"
proof (induction n arbitrary: s)
  case (Suc n)
  show ?case
  proof (cases "find (HasPrefix s) space_runes")
    case (Some r)
    then have "set t \<subseteq> set (drop (length r) s)" using Suc by (auto split: if_splits)
    then show ?thesis using set_drop_subset [of "length r" s] by blast
  qed (use Suc.prems in \<open>auto split: if_splits\<close>)
qed simp

lemma sscan_d_rest:
  assumes "sscan_d w s = Some (v, r)"
  shows "set r \<subseteq> set s"
proof -
  obtain t where t: "skip_space (length s) s = Some t" using assms by (auto simp: sscan_d_def split: option.splits)
  have "set (tl t) \<subseteq> set t" by (cases t) auto
  then have "set r \<subseteq> set t"
    using assms set_dropWhileD [of _ is_digit t] set_dropWhileD [of _ is_digit "tl t"] t
    by (auto simp: sscan_d_def Let_def split: if_splits)
  then show ?thesis using skip_space_set [OF t] by blast
qed

lemma sscan_dd_no_colon:
  assumes "CHR '':'' \<notin> set s"
  shows "snd (sscan_dd s) = None"
proof -
  have "\<not> HasPrefix r '':''" if "sscan_d 64 s = Some (v, r)" for v r
    using sscan_d_rest [OF that] assms by (cases r) auto
  then show ?thesis by (auto simp: sscan_dd_def split: option.splits)
qed

lemma sscan_dd_pair: "in64 a \<Longrightarrow> in64 b \<Longrightarrow> sscan_dd (itoa a @ '':'' @ itoa b) = (Some a, Some b)"
  using sscan_d_itoa [of 64 a "'':'' @ itoa b"] sscan_d_itoa [of 64 b "[]"] by (simp add: sscan_dd_def)

lemma Atoi_val_itoa: "in64 i \<Longrightarrow> Atoi_val (itoa i) = i"
proof -
  assume r: "in64 i"
  let ?u = "utoa (nat \<bar>i\<bar>)"
  have all: "list_all is_digit ?u" by (auto simp: list_all_iff utoa_digits)
  obtain x xs where u: "?u = x # xs" by (cases ?u) auto
  then have "x \<noteq> CHR ''-''" "x \<noteq> CHR ''+''" using all by auto
  then show ?thesis
    using r all u digits_val_utoa [of "nat \<bar>i\<bar>"]
    by (auto simp: Atoi_val_def itoa_def Let_def in_range_def split: if_splits)
qed

end
