(* ===== verification/II_Tags.thy ===== *)
theory II_Tags
  imports Go_Numbers
begin

text \<open>
  The error values of the program, and the tags of a message or a user (\<^verbatim>\<open>ii/msg.go\<close>, type
  \<^verbatim>\<open>Tags\<close>): a map from tag names to values and the list of names in the order of their
  insertion, parsed from and printed to \<^verbatim>\<open>key1/value1/key2/value2\<close>. The central facts
  are that parsing establishes \<open>tags_ok\<close> and that printing and parsing again gives the same tags.
\<close>

section \<open>Errors\<close>

text \<open>
  One constructor for each error value the modelled functions return. \<open>EIO\<close> stands for any error of
  a file operation; \<open>EPanic\<close> marks an evaluation that stops with a Go run-time panic (an index out
  of range, a write to a nil map, a nil dereference), which is no error value of the code; \<open>PLoop\<close> marks
  a loop that has used up the fuel of the model.
\<close>

datatype panic = PIndex | PNilMap | PNilPointer | PDivide | PSlice | PHuge | PLoop

datatype ii_error =
    EMsgTooLong | EWrongMsgFormat | ENoBodyDelim | EWrongEcho | EWrongSubject
  | EWrongBundle | EWrongMsgId | EWrongRepto | EWrongTags string | EWrongTagsAdd
  | EBadBase64 | EBadNumber | EAlreadyExists | EIndexLine nat | EIndexOffset nat | EIO
  | EUserExists | EWrongUsername | EBadPassword | EWrongEmail | EMaxUsers | ENoSuchUser
  | EAccessDenied | ENotAccepted | EServer string | EPointRepto | ENoUserInfo | ENotVerified | ENoSuchMsg | EWrongRequest
  | EBadForm | EAvatarTooBig | EWrongXpm | ESavingAvatar | EWrongMethod | EPanic panic

section \<open>The type and its operations\<close>

record Tags =
  tg_Hash :: "string gomap"
  tg_List :: "string list"

definition nil_tags :: Tags where
  "nil_tags = \<lparr>tg_Hash = None, tg_List = []\<rparr>"

fun make_tags_loop :: "string list \<Rightarrow> (string \<rightharpoonup> string) \<Rightarrow> string list \<Rightarrow> Tags" where
  "make_tags_loop (k # v # r) h l = make_tags_loop r (h(k \<mapsto> v)) (l @ [k])"
| "make_tags_loop _ h l = \<lparr>tg_Hash = Some h, tg_List = l\<rparr>"

definition MakeTags :: "string \<Rightarrow> ii_error + Tags" where
  "MakeTags str =
     (let str = Trim str '' '' in
      if str = [] then Inr nil_tags
      else (let tags = Split (CHR ''/'') str in
            if odd (length tags) then Inl (EWrongTags str)
            else Inr (make_tags_loop tags Map.empty [])))"

definition NewTags :: "string \<Rightarrow> Tags" where
  "NewTags str = (case MakeTags str of Inl _ \<Rightarrow> nil_tags | Inr t \<Rightarrow> t)"

definition Tags_Get :: "Tags \<Rightarrow> string \<Rightarrow> string option" where
  "Tags_Get t n = map_get (tg_Hash t) n"

text \<open>\<^verbatim>\<open>v, _ := t.Get(n)\<close>: the value, or the empty string.\<close>

definition Tags_val :: "Tags \<Rightarrow> string \<Rightarrow> string" where
  "Tags_val t n = (case Tags_Get t n of None \<Rightarrow> [] | Some v \<Rightarrow> v)"

fun add_tags_loop :: "string list \<Rightarrow> (string \<rightharpoonup> string) \<Rightarrow> string list \<Rightarrow> Tags" where
  "add_tags_loop (k # v # r) h l =
     add_tags_loop r (h(k \<mapsto> v)) (if h k = None then l @ [k] else l)"
| "add_tags_loop _ h l = \<lparr>tg_Hash = Some h, tg_List = l\<rparr>"

definition Tags_Add :: "Tags \<Rightarrow> string \<Rightarrow> ii_error + Tags" where
  "Tags_Add t str =
     (let tags = Split (CHR ''/'') str in
      if odd (length tags) then Inl EWrongTagsAdd
      else Inr (add_tags_loop tags (case tg_Hash t of None \<Rightarrow> Map.empty | Some h \<Rightarrow> h) (tg_List t)))"

text \<open>The callers drop the error of \<^verbatim>\<open>Add\<close>: on an error the tags are as before.\<close>

definition add_tag :: "Tags \<Rightarrow> string \<Rightarrow> Tags" where
  "add_tag t str = (case Tags_Add t str of Inl _ \<Rightarrow> t | Inr t' \<Rightarrow> t')"

definition Tags_Del :: "Tags \<Rightarrow> string \<Rightarrow> Tags \<times> bool" where
  "Tags_Del t tag =
     (case tg_Hash t of
        None \<Rightarrow> (t, False)
      | Some h \<Rightarrow>
          (case h tag of
             None \<Rightarrow> (t, False)
           | Some _ \<Rightarrow> (\<lparr>tg_Hash = Some (h(tag := None)), tg_List = remove1 tag (tg_List t)\<rparr>,
                        tag \<in> set (tg_List t))))"

definition Tags_String :: "Tags \<Rightarrow> string" where
  "Tags_String t =
     (case tg_Hash t of
        None \<Rightarrow> []
      | Some h \<Rightarrow>
          TrimSuffix
            (concat (map (\<lambda>n. case h n of None \<Rightarrow> [] | Some v \<Rightarrow> n @ ''/'' @ v @ ''/'') (tg_List t)))
            ''/'')"

section \<open>Well-formed tags\<close>

definition no_lead :: "string \<Rightarrow> bool" where "no_lead w = (w = [] \<or> hd w \<noteq> SP)"
definition no_trail :: "string \<Rightarrow> bool" where "no_trail w = (w = [] \<or> last w \<noteq> SP)"

text \<open>
  Tags that print without loss: the list names exactly the keys (each at least once), names and
  values hold no slash, and no space stands at the outer ends of the printed text.
\<close>

definition tags_ok :: "Tags \<Rightarrow> bool" where
  "tags_ok t =
     (case tg_Hash t of
        None \<Rightarrow> tg_List t = []
      | Some h \<Rightarrow>
          tg_List t \<noteq> [] \<and> set (tg_List t) = dom h \<and>
          (\<forall>k v. h k = Some v \<longrightarrow> CHR ''/'' \<notin> set k \<and> CHR ''/'' \<notin> set v) \<and>
          no_lead (hd (tg_List t)) \<and> no_trail (the (h (last (tg_List t)))))"

lemma tags_ok_nil [simp, ii_wf]: "tags_ok nil_tags"
  by (simp add: tags_ok_def nil_tags_def)

definition flat :: "('a \<times> 'a) list \<Rightarrow> 'a list" where
  "flat ps = concat (map (\<lambda>(k, v). [k, v]) ps)"

lemma flat_simps [simp]: "flat [] = []" "flat ((k, v) # ps) = k # v # flat ps"
  by (simp_all add: flat_def)

lemma flat_Nil_iff [simp]: "flat ps = [] \<longleftrightarrow> ps = []"
  by (cases ps) auto

lemma flat_append [simp]: "flat (ps @ qs) = flat ps @ flat qs"
  by (simp add: flat_def)

lemma length_flat [simp]: "length (flat ps) = 2 * length ps"
  by (induction ps) auto

lemma even_flat:
  assumes "even (length ws)"
  obtains ps where "ws = flat ps"
proof -
  have "\<exists>ps. ws = flat ps"
    using assms
  proof (induction ws rule: induct_list012)
    case 1 show ?case by (intro exI [of _ "[]"]) simp
  next
    case (2 x) then show ?case by simp
  next
    case (3 k v ws)
    then obtain ps where "ws = flat ps" by auto
    then show ?case by (intro exI [of _ "(k, v) # ps"]) simp
  qed
  then show ?thesis using that by blast
qed

lemma make_tags_loop_flat:
  "make_tags_loop (flat ps) h l =
     \<lparr>tg_Hash = Some (foldl (\<lambda>m p. m(fst p \<mapsto> snd p)) h ps), tg_List = l @ map fst ps\<rparr>"
  by (induction ps arbitrary: h l) auto

lemma concat_entries:
  assumes "\<forall>n\<in>set l. h n \<noteq> None"
  shows "concat (map (\<lambda>n. case h n of None \<Rightarrow> [] | Some v \<Rightarrow> n @ ''/'' @ v @ ''/'') l)
           = concat (map (\<lambda>w. w @ ''/'') (flat (map (\<lambda>n. (n, the (h n))) l)))"
  using assms by (induction l) (auto split: option.splits)

lemma concat_sep_Join:
  "ws \<noteq> [] \<Longrightarrow> concat (map (\<lambda>w. w @ sep) ws) = Join sep ws @ sep"
  by (induction sep ws rule: Join.induct) auto

lemma Tags_String_Join:
  assumes "tg_Hash t = Some h" and "set (tg_List t) \<subseteq> dom h" and "tg_List t \<noteq> []"
  shows "Tags_String t = Join ''/'' (flat (map (\<lambda>n. (n, the (h n))) (tg_List t)))"
proof -
  have "\<forall>n\<in>set (tg_List t). h n \<noteq> None" using assms(2) by auto
  then show ?thesis
    using assms(1,3) by (simp add: Tags_String_def concat_entries concat_sep_Join TrimSuffix_append)
qed

lemma hd_Join: "hd (Join (c # cs) (w # v # ws)) = (if w = [] then c else hd w)"
  by simp

lemma Join_nonempty: "sep \<noteq> [] \<Longrightarrow> Join sep (w # v # ws) \<noteq> []"
  by simp

lemma last_Join:
  "ws \<noteq> [] \<Longrightarrow> last (Join [c] (ws @ [w])) = (if w = [] then c else last w)"
proof (induction ws)
  case (Cons x xs)
  then show ?case
  proof (cases "xs = []")
    case False
    have "Join [c] (xs @ [w]) \<noteq> []" using False
      by (cases xs; cases "tl xs"; auto)
    then show ?thesis using Cons False by (simp add: Join_Cons)
  qed auto
qed simp

lemma Trim_flat:
  assumes "ps \<noteq> []" and "no_lead (fst (hd ps))" and "no_trail (snd (last ps))"
  shows "Trim (Join ''/'' (flat ps)) '' '' = Join ''/'' (flat ps) \<and> Join ''/'' (flat ps) \<noteq> []"
proof -
  obtain k v qs where hd: "ps = (k, v) # qs" using assms(1) by (cases ps) auto
  obtain rs k' v' where lst: "ps = rs @ [(k', v')]" using assms(1) by (cases ps rule: rev_cases) auto
  have ne: "Join ''/'' (flat ps) \<noteq> []" by (simp add: hd)
  have h: "hd (Join ''/'' (flat ps)) \<noteq> SP"
    using assms(2) unfolding hd flat_simps hd_Join by (auto simp: no_lead_def)
  have "flat ps = (flat rs @ [k']) @ [v']" by (simp add: lst)
  then have "last (Join ''/'' (flat ps)) = (if v' = [] then CHR ''/'' else last v')"
    by (metis last_Join snoc_eq_iff_butlast)
  then have l: "last (Join ''/'' (flat ps)) \<noteq> SP"
    using assms(3) by (auto simp: lst no_trail_def)
  show ?thesis using ne h l by (simp add: Trim_id)
qed

section \<open>Printing and parsing\<close>

lemma foldl_upd_graph:
  "foldl (\<lambda>m p. m(fst p \<mapsto> snd p)) Map.empty (map (\<lambda>n. (n, the (h n))) l)
     = (\<lambda>k. if k \<in> set l then Some (the (h k)) else None)"
proof -
  have "foldl (\<lambda>m p. m(fst p \<mapsto> snd p)) m (map (\<lambda>n. (n, the (h n))) l)
     = (\<lambda>k. if k \<in> set l then Some (the (h k)) else m k)" for m
    by (induction l arbitrary: m) (auto simp: fun_eq_iff)
  then show ?thesis by simp
qed

lemma MakeTags_flat:
  assumes "ps \<noteq> []" and "\<forall>w\<in>set (flat ps). CHR ''/'' \<notin> set w"
    and "no_lead (fst (hd ps))" and "no_trail (snd (last ps))"
  shows "MakeTags (Join ''/'' (flat ps)) = Inr (make_tags_loop (flat ps) Map.empty [])"
  using Trim_flat [OF assms(1,3,4)] assms(1,2) by (simp add: MakeTags_def Split_Join)

lemma MakeTags_Tags_String:
  assumes "tags_ok t"
  shows "MakeTags (Tags_String t) = Inr t"
proof (cases "tg_Hash t")
  case None
  then have "t = nil_tags" using assms by (simp add: tags_ok_def nil_tags_def)
  then show ?thesis by (simp add: Tags_String_def MakeTags_def nil_tags_def Trim_def TrimLeft_def TrimRight_def)
next
  case (Some h)
  let ?ps = "map (\<lambda>n. (n, the (h n))) (tg_List t)"
  have ok: "tg_List t \<noteq> []" "set (tg_List t) = dom h"
      "\<forall>k v. h k = Some v \<longrightarrow> CHR ''/'' \<notin> set k \<and> CHR ''/'' \<notin> set v"
      "no_lead (hd (tg_List t))" "no_trail (the (h (last (tg_List t))))"
    using assms Some by (simp_all add: tags_ok_def)
  have "\<forall>w\<in>set (flat ?ps). CHR ''/'' \<notin> set w"
    using ok(2,3) by (fastforce simp: flat_def)
  then have "MakeTags (Join ''/'' (flat ?ps)) = Inr (make_tags_loop (flat ?ps) Map.empty [])"
    using ok by (intro MakeTags_flat) (simp_all add: hd_map last_map)
  moreover have "(\<lambda>k. if k \<in> set (tg_List t) then Some (the (h k)) else None) = h"
    using ok(2) by (auto simp: fun_eq_iff)
  ultimately show ?thesis
    using ok Some Tags_String_Join [OF Some]
    by (simp add: make_tags_loop_flat foldl_upd_graph comp_def)
qed

lemma no_lead_hd_Join: "no_lead (Join ''/'' (w # v # ws)) \<Longrightarrow> no_lead w"
  by (cases w) (auto simp: no_lead_def)

text \<open>Everything \<^verbatim>\<open>MakeTags\<close> accepts is well-formed.\<close>

lemma MakeTags_ok:
  assumes "MakeTags s = Inr t"
  shows "tags_ok t"
proof -
  let ?s = "Trim s '' ''"
  show ?thesis
  proof (cases "?s = []")
    case True
    then show ?thesis using assms by (simp add: MakeTags_def)
  next
    case False
    then have ev: "even (length (Split (CHR ''/'') ?s))"
      and t: "t = make_tags_loop (Split (CHR ''/'') ?s) Map.empty []"
      using assms by (auto simp: MakeTags_def Let_def split: if_splits)
    obtain ps where ps: "Split (CHR ''/'') ?s = flat ps" using even_flat [OF ev] .
    have ne: "ps \<noteq> []" using Split_nonempty [of "CHR ''/''" ?s] unfolding ps by simp
    have s: "?s = Join ''/'' (flat ps)" using Join_Split [of "CHR ''/''" ?s] unfolding ps by simp
    have ends: "hd ?s \<noteq> SP" "last ?s \<noteq> SP" using Trim_ends [OF False] by auto
    let ?h = "\<lambda>k. last_of ps k"
    have h: "tg_Hash t = Some ?h" and l: "tg_List t = map fst ps"
      using foldl_map_upd_last_of [of Map.empty ps]
      by (auto simp: t ps make_tags_loop_flat fun_eq_iff split: option.splits)
    have dom: "dom ?h = set (map fst ps)"
      using last_of_None_iff [of ps] by (auto simp: dom_def image_iff)
    have slash: "CHR ''/'' \<notin> set k \<and> CHR ''/'' \<notin> set v" if "?h k = Some v" for k v
    proof -
      have "(k, v) \<in> set ps" using last_of_Some_set [OF that] .
      then have "k \<in> set (flat ps) \<and> v \<in> set (flat ps)" by (force simp: flat_def)
      then show ?thesis using Split_pieces [of _ "CHR ''/''" ?s] unfolding ps by blast
    qed
    obtain k v qs where psc: "ps = (k, v) # qs" using ne by (cases ps) auto
    have lead: "no_lead (hd (map fst ps))"
      using ends(1) unfolding s psc by (cases k) (auto simp: no_lead_def)
    obtain rs k' v' where lst: "ps = rs @ [(k', v')]" using ne by (cases ps rule: rev_cases) auto
    have hv: "?h k' = Some v'" by (simp add: lst last_of_append)
    have "flat ps = (flat rs @ [k']) @ [v']" by (simp add: lst)
    then have "last ?s = (if v' = [] then CHR ''/'' else last v')"
      unfolding s by (metis last_Join snoc_eq_iff_butlast)
    then have "no_trail v'" using ends(2) by (auto simp: no_trail_def)
    then have trail: "no_trail (the (?h (last (map fst ps))))" using hv by (simp add: lst)
    show ?thesis
      unfolding tags_ok_def h l option.case
      using ne dom slash lead trail by (simp only: map_is_Nil_conv) blast
  qed
qed

section \<open>Adding and removing tags\<close>

lemma add_tags_loop_flat:
  "tg_Hash (add_tags_loop (flat ps) h l) = Some (foldl (\<lambda>m p. m(fst p \<mapsto> snd p)) h ps)"
  by (induction ps arbitrary: h l) auto

lemma Split_pair:
  "CHR ''/'' \<notin> set k \<Longrightarrow> CHR ''/'' \<notin> set v \<Longrightarrow> Split (CHR ''/'') (k @ ''/'' @ v) = [k, v]"
  by (simp add: Split_append Split_no_sep)

text \<open>Adding one pair: its value is found, every other value is as before.\<close>

lemma Tags_Add_pair:
  assumes "CHR ''/'' \<notin> set k" and "CHR ''/'' \<notin> set v"
  shows "\<exists>t'. Tags_Add t (k @ ''/'' @ v) = Inr t' \<and>
           Tags_Get t' k = Some v \<and> (\<forall>k'. k' \<noteq> k \<longrightarrow> Tags_Get t' k' = Tags_Get t k')"
  using assms Split_pair [OF assms]
  by (auto simp: Tags_Add_def Tags_Get_def split: option.splits)

lemma Tags_Add_Get:
  assumes "CHR ''/'' \<notin> set k" and "CHR ''/'' \<notin> set v"
  shows "Tags_Get (add_tag t (k @ ''/'' @ v)) k' = (if k' = k then Some v else Tags_Get t k')"
  using Tags_Add_pair [OF assms, of t] by (auto simp: add_tag_def)

lemma tags_ok_Add:
  assumes t: "tags_ok t" and kv: "CHR ''/'' \<notin> set k" "CHR ''/'' \<notin> set v"
    and sp: "no_lead k" "no_trail v"
  shows "tags_ok (add_tag t (k @ ''/'' @ v))"
proof (cases "tg_Hash t")
  case None
  then show ?thesis
    using assms Split_pair [OF kv] by (auto simp: add_tag_def Tags_Add_def tags_ok_def)
next
  case (Some h)
  then show ?thesis
    using assms Split_pair [OF kv]
    by (auto simp: add_tag_def Tags_Add_def tags_ok_def dom_def hd_append last_append)
qed

lemma Tags_Del_Get:
  "Tags_Get (fst (Tags_Del t tag)) k = (if k = tag then None else Tags_Get t k)"
  by (auto simp: Tags_Del_def Tags_Get_def split: option.splits)

end
