(* ===== verification/II_Files.thy ===== *)
theory II_Files
  imports II_Tags
begin

text \<open>
  The files the database layer works on (\<^verbatim>\<open>append_file\<close>, \<^verbatim>\<open>filesize\<close>,
  \<^verbatim>\<open>f_lines\<close> and \<^verbatim>\<open>FileLines\<close> of \<^verbatim>\<open>ii/db.go\<close>): a file is absent, cannot be
  opened, or holds bytes. Reading by lines passes on the lines that end in a newline and drops an
  unterminated rest, as the sources do. The locale \<open>line_log\<close> states what a log of lines promises;
  a file that \<^verbatim>\<open>append_file\<close> writes interprets it.
\<close>

datatype gofile = NoFile | Denied | File string

definition append_file :: "gofile \<Rightarrow> string \<Rightarrow> ii_error + gofile" where
  "append_file f text =
     (case f of
        Denied \<Rightarrow> Inl EIO
      | NoFile \<Rightarrow> Inr (File (text @ [NL]))
      | File s \<Rightarrow> Inr (File (s @ text @ [NL])))"

text \<open>The size, \<open>-1\<close> with an error; an absent file has size 0.\<close>

definition filesize :: "gofile \<Rightarrow> int" where
  "filesize f = (case f of NoFile \<Rightarrow> 0 | Denied \<Rightarrow> -1 | File s \<Rightarrow> int (length s))"

text \<open>
  The loop of \<^verbatim>\<open>f_lines\<close>: the callback works on a state and says whether to go on. What
  follows the last newline is cut off by the test for \<^verbatim>\<open>io.EOF\<close>.
\<close>

fun run_lines :: "(string \<Rightarrow> 's \<Rightarrow> 's \<times> bool) \<Rightarrow> string list \<Rightarrow> 's \<Rightarrow> 's" where
  "run_lines fn [] st = st"
| "run_lines fn (l # ls) st = (case fn l st of (st', go) \<Rightarrow> if go then run_lines fn ls st' else st')"

definition text_lines :: "string \<Rightarrow> string list" where
  "text_lines s = butlast (Split NL s)"

definition f_lines :: "(string \<Rightarrow> 's \<Rightarrow> 's \<times> bool) \<Rightarrow> string \<Rightarrow> 's \<Rightarrow> 's" where
  "f_lines fn s st = run_lines fn (text_lines s) st"

definition FileLines :: "gofile \<Rightarrow> (string \<Rightarrow> 's \<Rightarrow> 's \<times> bool) \<Rightarrow> 's \<Rightarrow> 's \<times> ii_error option" where
  "FileLines f fn st =
     (case f of NoFile \<Rightarrow> (st, None) | Denied \<Rightarrow> (st, Some EIO) | File s \<Rightarrow> (f_lines fn s st, None))"

text \<open>
  Writing from the start of a file opened without truncation (\<^verbatim>\<open>O_CREATE|O_WRONLY\<close>): the old
  bytes past the new ones stay.
\<close>

definition overwrite :: "string \<Rightarrow> string \<Rightarrow> string" where
  "overwrite old new = new @ drop (length new) old"

section \<open>Lines\<close>

definition unlines :: "string list \<Rightarrow> string" where
  "unlines ls = concat (map (\<lambda>l. l @ [NL]) ls)"

lemma unlines_simps [simp]:
  "unlines [] = []" "unlines (l # ls) = l @ NL # unlines ls" "unlines (ls @ ks) = unlines ls @ unlines ks"
  by (simp_all add: unlines_def)

lemma text_lines_Nil [simp]: "text_lines [] = []"
  by (simp add: text_lines_def)

lemma text_lines_Cons: "NL \<notin> set l \<Longrightarrow> text_lines (l @ NL # s) = l # text_lines s"
  by (simp add: text_lines_def Split_append)

lemma text_lines_unlines_append:
  "\<forall>l\<in>set ls. NL \<notin> set l \<Longrightarrow> text_lines (unlines ls @ s) = ls @ text_lines s"
  by (induction ls) (auto simp: text_lines_Cons)

lemma text_lines_unlines: "\<forall>l\<in>set ls. NL \<notin> set l \<Longrightarrow> text_lines (unlines ls) = ls"
  using text_lines_unlines_append [of ls "[]"] by simp

lemma text_lines_no_NL: "l \<in> set (text_lines s) \<Longrightarrow> NL \<notin> set l"
  unfolding text_lines_def by (metis Split_pieces in_set_butlastD)

lemma text_lines_partial: "NL \<notin> set s \<Longrightarrow> text_lines s = []"
  by (simp add: text_lines_def Split_no_sep)

definition complete_text :: "string \<Rightarrow> bool" where
  "complete_text s = (s = [] \<or> last s = NL)"

lemma complete_text_unlines: "complete_text s \<Longrightarrow> s = unlines (text_lines s)"
proof -
  assume c: "complete_text s"
  show ?thesis
  proof (cases s rule: rev_cases)
    case (snoc t x)
    then have x: "x = NL" using c by (simp add: complete_text_def)
    have "unlines (Split NL t) = s"
      using concat_sep_Join [of "Split NL t" "[NL]"] by (simp add: unlines_def Join_Split snoc x)
    moreover have "text_lines s = Split NL t"
      using text_lines_unlines [of "Split NL t"] Split_pieces \<open>unlines (Split NL t) = s\<close> by metis
    ultimately show ?thesis by simp
  qed simp
qed

lemma run_lines_all:
  "\<forall>l\<in>set ls. \<forall>s. snd (fn l s) \<Longrightarrow> run_lines fn ls st = foldl (\<lambda>s l. fst (fn l s)) st ls"
proof (induction ls arbitrary: st)
  case (Cons l ls)
  then have "snd (fn l st)" by simp
  then show ?case using Cons by (cases "fn l st") simp
qed simp

section \<open>The interface: a log of lines\<close>

locale line_log =
  fixes invar :: "'f \<Rightarrow> bool"
    and append :: "'f \<Rightarrow> string \<Rightarrow> ii_error + 'f"
    and lines :: "'f \<Rightarrow> string list"
  assumes append_total: "invar f \<Longrightarrow> \<exists>f'. append f l = Inr f'"
    and append_invar: "invar f \<Longrightarrow> append f l = Inr f' \<Longrightarrow> invar f'"
    and lines_append: "invar f \<Longrightarrow> NL \<notin> set l \<Longrightarrow> append f l = Inr f' \<Longrightarrow> lines f' = lines f @ [l]"
begin

text \<open>Appending several lines, stopping at the first error.\<close>

fun append_all :: "'f \<Rightarrow> string list \<Rightarrow> ii_error + 'f" where
  "append_all f [] = Inr f"
| "append_all f (l # ls) = (case append f l of Inl e \<Rightarrow> Inl e | Inr f' \<Rightarrow> append_all f' ls)"

lemma append_all_lines:
  "invar f \<Longrightarrow> \<forall>l\<in>set ls. NL \<notin> set l \<Longrightarrow>
   \<exists>f'. append_all f ls = Inr f' \<and> invar f' \<and> lines f' = lines f @ ls"
proof (induction ls arbitrary: f)
  case (Cons l ls)
  then obtain f1 where f1: "append f l = Inr f1" using append_total by blast
  then have "invar f1" "lines f1 = lines f @ [l]"
    using Cons.prems append_invar lines_append by auto
  then show ?case using Cons f1 by fastforce
qed simp

lemma append_keeps: "invar f \<Longrightarrow> NL \<notin> set l \<Longrightarrow> append f l = Inr f' \<Longrightarrow> set (lines f) \<subseteq> set (lines f')"
  by (auto simp: lines_append)

end

definition file_complete :: "gofile \<Rightarrow> bool" where
  "file_complete f = (case f of NoFile \<Rightarrow> True | Denied \<Rightarrow> False | File s \<Rightarrow> complete_text s)"

definition file_lines :: "gofile \<Rightarrow> string list" where
  "file_lines f = (case f of File s \<Rightarrow> text_lines s | _ \<Rightarrow> [])"

lemma text_lines_snoc:
  assumes "complete_text s" and "NL \<notin> set l"
  shows "text_lines (s @ l @ [NL]) = text_lines s @ [l]"
proof -
  have "text_lines (unlines (text_lines s) @ (l @ NL # [])) = text_lines s @ text_lines (l @ NL # [])"
    by (rule text_lines_unlines_append) (simp add: text_lines_no_NL)
  then show ?thesis
    using assms complete_text_unlines [OF assms(1)] by (simp add: text_lines_Cons)
qed

interpretation flog: line_log file_complete append_file file_lines
proof unfold_locales
  fix f l assume "file_complete f"
  then show "\<exists>f'. append_file f l = Inr f'"
    by (cases f) (auto simp: append_file_def file_complete_def)
next
  fix f l f' assume "file_complete f" "append_file f l = Inr f'"
  then show "file_complete f'"
    by (cases f) (auto simp: append_file_def file_complete_def complete_text_def)
next
  fix f l f' assume "file_complete f" "NL \<notin> set l" "append_file f l = Inr f'"
  then show "file_lines f' = file_lines f @ [l]"
    using text_lines_snoc [of "[]" l]
    by (cases f)
       (auto simp: append_file_def file_complete_def file_lines_def complete_text_def
         intro!: text_lines_snoc [simplified])
qed

text \<open>What a file that only ever was appended to holds.\<close>

lemma file_of_lines:
  "file_complete f \<Longrightarrow> file_lines f = ls \<Longrightarrow> ls \<noteq> [] \<Longrightarrow> f = File (unlines ls)"
  by (cases f) (auto simp: file_complete_def file_lines_def complete_text_unlines [symmetric])

text \<open>A nonempty list of lines written to a new file.\<close>

lemma append_all_new:
  "flog.append_all NoFile ls = Inr (if ls = [] then NoFile else File (unlines ls))"
proof -
  have step: "flog.append_all (File s) ls = Inr (File (s @ unlines ls))" for s ls
    by (induction ls arbitrary: s) (simp_all add: append_file_def)
  show ?thesis by (cases ls) (simp_all add: append_file_def step)
qed

section \<open>The interface: records printed one to a line\<close>

locale line_codec =
  fixes ok :: "'r \<Rightarrow> bool" and print :: "'r \<Rightarrow> string" and parse :: "string \<Rightarrow> 'r option"
  assumes parse_print: "ok r \<Longrightarrow> parse (print r) = Some r"
    and print_line: "ok r \<Longrightarrow> NL \<notin> set (print r)"
begin

lemma print_inject:
  assumes "ok r" "ok r'" "print r = print r'"
  shows "r = r'"
proof -
  have "Some r = parse (print r)" using assms(1) by (simp only: parse_print)
  also have "\<dots> = parse (print r')" by (simp only: assms(3))
  also have "\<dots> = Some r'" using assms(2) by (simp only: parse_print)
  finally show ?thesis by simp
qed

text \<open>A callback that puts every parsed record into its state reads back what was printed.\<close>

lemma read_back:
  assumes "\<forall>r\<in>set rs. ok r" and "\<And>r st. ok r \<Longrightarrow> fn (print r) st = (put st r, True)"
  shows "f_lines fn (unlines (map print rs)) st = foldl put st rs"
proof -
  have "text_lines (unlines (map print rs)) = map print rs"
    using assms(1) print_line by (intro text_lines_unlines) auto
  moreover have "run_lines fn (map print rs) st = foldl put st rs"
    using assms by (induction rs arbitrary: st) auto
  ultimately show ?thesis by (simp add: f_lines_def)
qed

end

section \<open>The paths of a base\<close>

text \<open>The lock is a directory in that of temporary files, \<open>tmp\<close>, named after the path as it was given.\<close>

definition IndexPath :: "string \<Rightarrow> string" where
  "IndexPath path = path @ ''.idx''"

definition BundlePath :: "string \<Rightarrow> string" where
  "BundlePath path = path"

definition LockPath :: "string \<Rightarrow> string \<Rightarrow> string" where
  "LockPath tmp path = tmp @ ''/'' @ Replace (CHR ''/'') ''_'' path @ ''-bundle.lock''"

text \<open>
  Two paths share a lock just when they agree up to slashes and underscores. So two bases can block each
  other, and the two names \<^verbatim>\<open>db\<close> and \<^verbatim>\<open>./db\<close> of one base have different locks.
\<close>

lemma LockPath_same:
  "LockPath tmp p = LockPath tmp q \<longleftrightarrow> Replace (CHR ''/'') ''_'' p = Replace (CHR ''/'') ''_'' q"
  by (simp add: LockPath_def)

lemma LockPath_examples:
  "LockPath tmp ''a/b'' = LockPath tmp ''a_b''" "LockPath tmp ''db'' \<noteq> LockPath tmp ''./db''"
  by (simp_all add: LockPath_same Replace_Cons)

lemma LockPath_in_tmp: "\<exists>n. LockPath tmp path = tmp @ ''/'' @ n \<and> CHR ''/'' \<notin> set n"
proof -
  have "CHR ''/'' \<notin> set (Replace (CHR ''/'') ''_'' path)" by (rule Replace_removes) simp
  then show ?thesis by (intro exI [of _ "Replace (CHR ''/'') ''_'' path @ ''-bundle.lock''"]) (simp add: LockPath_def)
qed

end
