(* ===== verification/Base64.thy ===== *)
theory Base64
  imports Go_Strings
begin

text \<open>
  Go's \<^verbatim>\<open>encoding/base64\<close>: \<^verbatim>\<open>StdEncoding\<close>, \<^verbatim>\<open>URLEncoding\<close> and
  \<^verbatim>\<open>RawStdEncoding\<close>. Decoding ignores carriage returns and newlines anywhere, needs the
  padding (or, for the raw form, refuses it), takes nothing after it and does not look at the
  unused low bits of the last sextet, as the package does in its default, non-strict mode.

  The interface of a byte codec is the locale \<open>byte_codec\<close>; the framing of a codec word into a
  \<^verbatim>\<open>key:word\<close> line is proved from its laws once, and both alphabets interpret it.
\<close>

section \<open>The codec\<close>

definition b64_std :: string where
  "b64_std = ''ABCDEFGHIJKLMNOPQRSTUVWXYZabcdefghijklmnopqrstuvwxyz0123456789+/''"

definition b64_url :: string where
  "b64_url = ''ABCDEFGHIJKLMNOPQRSTUVWXYZabcdefghijklmnopqrstuvwxyz0123456789-_''"

definition byte :: "char \<Rightarrow> nat" where "byte c = of_char c"
definition chr :: "nat \<Rightarrow> char" where "chr n = char_of n"

fun index_of :: "char \<Rightarrow> string \<Rightarrow> nat option" where
  "index_of c [] = None"
| "index_of c (x # xs) = (if x = c then Some 0 else map_option Suc (index_of c xs))"

fun b64_enc :: "string \<Rightarrow> string \<Rightarrow> string" where
  "b64_enc tb [] = []"
| "b64_enc tb [a] =
     [tb ! (byte a div 4), tb ! (byte a mod 4 * 16), CHR ''='', CHR ''='']"
| "b64_enc tb [a, b] =
     [tb ! (byte a div 4), tb ! (byte a mod 4 * 16 + byte b div 16),
      tb ! (byte b mod 16 * 4), CHR ''='']"
| "b64_enc tb (a # b # c # s) =
     [tb ! (byte a div 4), tb ! (byte a mod 4 * 16 + byte b div 16),
      tb ! (byte b mod 16 * 4 + byte c div 64), tb ! (byte c mod 64)] @ b64_enc tb s"

definition quad1 :: "nat \<Rightarrow> nat \<Rightarrow> char" where "quad1 i j = chr (i * 4 + j div 16)"
definition quad2 :: "nat \<Rightarrow> nat \<Rightarrow> char" where "quad2 j k = chr (j mod 16 * 16 + k div 4)"
definition quad3 :: "nat \<Rightarrow> nat \<Rightarrow> char" where "quad3 k l = chr (k mod 4 * 64 + l)"

fun b64_dec :: "string \<Rightarrow> bool \<Rightarrow> string \<Rightarrow> string option" where
  "b64_dec tb pad [] = Some []"
| "b64_dec tb pad [a] = None"
| "b64_dec tb pad [a, b] =
     (if pad then None
      else (case (index_of a tb, index_of b tb) of
              (Some i, Some j) \<Rightarrow> Some [quad1 i j] | _ \<Rightarrow> None))"
| "b64_dec tb pad [a, b, c] =
     (if pad then None
      else (case (index_of a tb, index_of b tb, index_of c tb) of
              (Some i, Some j, Some k) \<Rightarrow> Some [quad1 i j, quad2 j k] | _ \<Rightarrow> None))"
| "b64_dec tb pad (a # b # c # d # s) =
     (case (index_of a tb, index_of b tb) of
        (Some i, Some j) \<Rightarrow>
          (case (index_of c tb, index_of d tb) of
             (Some k, Some l) \<Rightarrow>
               (case b64_dec tb pad s of
                  Some t \<Rightarrow> Some (quad1 i j # quad2 j k # quad3 k l # t) | None \<Rightarrow> None)
           | (Some k, None) \<Rightarrow>
               (if pad \<and> d = CHR ''='' \<and> s = [] then Some [quad1 i j, quad2 j k] else None)
           | (None, _) \<Rightarrow>
               (if pad \<and> c = CHR ''='' \<and> d = CHR ''='' \<and> s = [] then Some [quad1 i j] else None))
      | _ \<Rightarrow> None)"

definition strip_crlf :: "string \<Rightarrow> string" where
  "strip_crlf s = filter (\<lambda>x. x \<noteq> CR \<and> x \<noteq> NL) s"

definition StdEncode :: "string \<Rightarrow> string" where "StdEncode s = b64_enc b64_std s"
definition StdDecode :: "string \<Rightarrow> string option" where
  "StdDecode s = b64_dec b64_std True (strip_crlf s)"
definition URLEncode :: "string \<Rightarrow> string" where "URLEncode s = b64_enc b64_url s"
definition URLDecode :: "string \<Rightarrow> string option" where
  "URLDecode s = b64_dec b64_url True (strip_crlf s)"
definition RawStdDecode :: "string \<Rightarrow> string option" where
  "RawStdDecode s = b64_dec b64_std False (strip_crlf s)"

section \<open>Decoding undoes encoding\<close>

lemma byte_bound [simp]: "byte c < 256"
  by (simp add: byte_def)

lemma chr_byte [simp]: "chr (byte c) = c"
  by (simp add: byte_def chr_def)

lemma index_of_nth: "distinct tb \<Longrightarrow> n < length tb \<Longrightarrow> index_of (tb ! n) tb = Some n"
proof (induction tb arbitrary: n)
  case (Cons x xs)
  then show ?case by (cases n) auto
qed simp

lemma index_of_None: "c \<notin> set tb \<Longrightarrow> index_of c tb = None"
  by (induction tb) auto

lemma index_of_Some: "index_of c tb = Some n \<Longrightarrow> n < length tb \<and> tb ! n = c"
  by (induction tb arbitrary: n) (auto split: if_splits)

lemma glue_div: "r < n \<Longrightarrow> (m * n + r) div n = (m :: nat)"
  by simp

lemma glue_mod: "r < n \<Longrightarrow> (m * n + r) mod n = (r :: nat)"
  by simp

lemma byte_div:
  "byte c div 4 < 64" "byte c div 16 < 16" "byte c div 64 < 4"
  by (simp_all add: less_mult_imp_div_less)

lemma quads [simp]:
  "quad1 (byte a div 4) (byte a mod 4 * 16 + byte b div 16) = a"
  "quad1 (byte a div 4) (byte a mod 4 * 16) = a"
  "quad2 (byte a mod 4 * 16 + byte b div 16) (byte b mod 16 * 4 + byte c div 64) = b"
  "quad2 (byte a mod 4 * 16 + byte b div 16) (byte b mod 16 * 4) = b"
  "quad3 (byte b mod 16 * 4 + byte c div 64) (byte c mod 64) = c"
  by (simp_all add: quad1_def quad2_def quad3_def glue_div glue_mod byte_div)

lemma glue_bound: "m < k \<Longrightarrow> r < n \<Longrightarrow> m * n + r < k * (n :: nat)"
  by (metis add.commute div_less_iff_less_mult glue_div le_less_trans mult.commute not_less0
        not_gr_zero)

lemma sextets:
  "byte a div 4 < 64" "byte a mod 4 * 16 < 64" "byte a mod 4 * 16 + byte b div 16 < 64"
  "byte b mod 16 * 4 < 64" "byte b mod 16 * 4 + byte c div 64 < 64" "byte c mod 64 < 64"
  using glue_bound [of "byte a mod 4" 4 "byte b div 16" 16]
    glue_bound [of "byte b mod 16" 16 "byte c div 64" 4]
    glue_bound [of "byte a mod 4" 4 0 16] glue_bound [of "byte b mod 16" 16 0 4]
  by (simp_all add: byte_div)

lemma b64_dec_enc:
  assumes "distinct tb" and "length tb = 64" and "CHR ''='' \<notin> set tb"
  shows "b64_dec tb True (b64_enc tb s) = Some s"
  using assms
  by (induction tb s rule: b64_enc.induct)
     (simp_all add: index_of_nth index_of_None sextets)

lemma b64_enc_chars:
  assumes "length tb = 64"
  shows "set (b64_enc tb s) \<subseteq> set tb \<union> {CHR ''=''}"
  using assms by (induction tb s rule: b64_enc.induct) (auto simp: sextets)

lemma length_b64_enc: "length (b64_enc tb s) = 4 * ((length s + 2) div 3)"
proof (induction tb s rule: b64_enc.induct)
  case (4 tb a b c s)
  have "(length (a # b # c # s) + 2) div 3 = Suc ((length s + 2) div 3)"
    using div_add_self2 [of 3 "length s + 2"] by (simp add: add.commute)
  then show ?case using 4 by simp
qed auto

lemma strip_crlf_id: "CR \<notin> set s \<Longrightarrow> NL \<notin> set s \<Longrightarrow> strip_crlf s = s"
  unfolding strip_crlf_def by (rule filter_True) auto

lemma b64_tables:
  "distinct b64_std" "length b64_std = 64" "CHR ''='' \<notin> set b64_std"
  "distinct b64_url" "length b64_url = 64" "CHR ''='' \<notin> set b64_url"
  by (simp_all add: b64_std_def b64_url_def)

section \<open>The interface: a byte codec for one-line words\<close>

text \<open>
  What the bundle format and the point protocol rely on: decoding undoes encoding, and an
  encoded word has none of the bytes that frame it (\<open>:\<close> before it, a newline after it,
  a \<open>/\<close>-free URL path segment is not promised).
\<close>

locale byte_codec =
  fixes enc :: "string \<Rightarrow> string"
    and dec :: "string \<Rightarrow> string option"
  assumes dec_enc: "dec (enc s) = Some s"
    and enc_no_colon: "CHR '':'' \<notin> set (enc s)"
    and enc_no_newline: "NL \<notin> set (enc s)"
begin

lemma enc_inject: "enc s = enc t \<longleftrightarrow> s = t"
  by (metis dec_enc option.inject)

lemma framed_split:
  "CHR '':'' \<notin> set key \<Longrightarrow> Split (CHR '':'') (key @ CHR '':'' # enc s) = [key, enc s]"
  by (simp add: Split_append Split_no_sep enc_no_colon)

lemma framed_inject:
  assumes "CHR '':'' \<notin> set k" and "CHR '':'' \<notin> set k'"
    and "k @ CHR '':'' # enc s = k' @ CHR '':'' # enc t"
  shows "k = k' \<and> s = t"
  using framed_split [OF assms(1), of s] framed_split [OF assms(2), of t]
  unfolding assms(3) by (simp add: enc_inject)

lemma framed_one_line: "NL \<notin> set key \<Longrightarrow> NL \<notin> set (key @ CHR '':'' # enc s)"
  by (simp add: enc_no_newline)

end

lemma StdEncode_chars: "c \<in> set (StdEncode s) \<Longrightarrow> c \<in> set b64_std \<or> c = CHR ''=''"
  using b64_enc_chars [of b64_std s] by (auto simp: StdEncode_def b64_tables)

lemma URLEncode_chars: "c \<in> set (URLEncode s) \<Longrightarrow> c \<in> set b64_url \<or> c = CHR ''=''"
  using b64_enc_chars [of b64_url s] by (auto simp: URLEncode_def b64_tables)

lemma b64_tables_clean:
  "CHR '':'' \<notin> set b64_std" "NL \<notin> set b64_std" "CR \<notin> set b64_std"
  "CHR ''-'' \<notin> set b64_std" "CHR ''_'' \<notin> set b64_std" "CHR ''.'' \<notin> set b64_std"
  "CHR '':'' \<notin> set b64_url" "NL \<notin> set b64_url" "CR \<notin> set b64_url" "CHR ''/'' \<notin> set b64_url"
  by (simp_all add: b64_std_def b64_url_def)

lemma StdEncode_avoids: "c \<notin> set b64_std \<Longrightarrow> c \<noteq> CHR ''='' \<Longrightarrow> c \<notin> set (StdEncode s)"
  using StdEncode_chars by blast

lemma URLEncode_avoids: "c \<notin> set b64_url \<Longrightarrow> c \<noteq> CHR ''='' \<Longrightarrow> c \<notin> set (URLEncode s)"
  using URLEncode_chars by blast

lemma StdEncode_clean:
  "CHR '':'' \<notin> set (StdEncode s)" "NL \<notin> set (StdEncode s)" "CR \<notin> set (StdEncode s)"
  "CHR ''-'' \<notin> set (StdEncode s)" "CHR ''_'' \<notin> set (StdEncode s)" "CHR ''.'' \<notin> set (StdEncode s)"
  by (rule StdEncode_avoids; simp add: b64_tables_clean)+

lemma URLEncode_clean:
  "CHR '':'' \<notin> set (URLEncode s)" "NL \<notin> set (URLEncode s)" "CR \<notin> set (URLEncode s)"
  "CHR ''/'' \<notin> set (URLEncode s)"
  by (rule URLEncode_avoids; simp add: b64_tables_clean)+

lemma StdDecode_StdEncode: "StdDecode (StdEncode s) = Some s"
  unfolding StdDecode_def strip_crlf_id [OF StdEncode_clean(3,2)]
  by (simp add: StdEncode_def b64_dec_enc b64_tables)

lemma URLDecode_URLEncode: "URLDecode (URLEncode s) = Some s"
  unfolding URLDecode_def strip_crlf_id [OF URLEncode_clean(3,2)]
  by (simp add: URLEncode_def b64_dec_enc b64_tables)

interpretation std: byte_codec StdEncode StdDecode
  by unfold_locales (rule StdDecode_StdEncode StdEncode_clean)+

interpretation url: byte_codec URLEncode URLDecode
  by unfold_locales (rule URLDecode_URLEncode URLEncode_clean)+

text \<open>
  The two alphabets: a text in the second one is not read with the first, unless it is the same text
  in both.
\<close>

lemma index_of_mem: "index_of c tb = Some n \<Longrightarrow> c \<in> set tb"
  using index_of_Some nth_mem by metis

lemma b64_dec_chars:
  "b64_dec tb True s = Some t \<Longrightarrow> set s \<subseteq> insert (CHR ''='') (set tb)"
proof (induction "length s" arbitrary: s t rule: less_induct)
  case less
  show ?case
  proof (cases "(tb, True, s)" rule: b64_dec.cases)
    case (5 tb' pad a b c d u)
    then have eq: "s = a # b # c # d # u" by simp
    show ?thesis
    proof (cases "b64_dec tb True u")
      case None
      then show ?thesis using less.prems unfolding eq
        by (auto dest: index_of_mem split: option.splits if_splits)
    next
      case (Some v)
      then have "set u \<subseteq> insert (CHR ''='') (set tb)" using less.hyps [of u v] eq by simp
      then show ?thesis using less.prems unfolding eq
        by (auto dest: index_of_mem split: option.splits if_splits)
    qed
  qed (use less.prems in auto)
qed

lemma b64_dec_foreign:
  "c \<in> set s \<Longrightarrow> c \<notin> set tb \<Longrightarrow> c \<noteq> CHR ''='' \<Longrightarrow> b64_dec tb True s = None"
  using b64_dec_chars [of tb s] by (cases "b64_dec tb True s") auto

definition to_url :: "char \<Rightarrow> char" where
  "to_url c = (if c = CHR ''+'' then CHR ''-'' else if c = CHR ''/'' then CHR ''_'' else c)"

lemma b64_url_to_url: "b64_url = map to_url b64_std"
  by (simp add: b64_url_def b64_std_def to_url_def)

lemma URLEncode_map: "URLEncode s = map to_url (StdEncode s)"
proof -
  have "b64_enc (map to_url tb) s = map to_url (b64_enc tb s)" if "length tb = 64" for tb
    using that by (induction tb s rule: b64_enc.induct) (simp_all add: sextets to_url_def)
  then show ?thesis by (simp add: URLEncode_def StdEncode_def b64_url_to_url b64_tables)
qed

lemma StdDecode_URLEncode: "StdDecode (URLEncode s) = None \<or> URLEncode s = StdEncode s"
proof (cases "CHR ''-'' \<in> set (URLEncode s) \<or> CHR ''_'' \<in> set (URLEncode s)")
  case True
  then obtain c where "c \<in> set (URLEncode s)" "c \<notin> set b64_std" "c \<noteq> CHR ''=''"
    using b64_tables_clean by blast
  then have "b64_dec b64_std True (URLEncode s) = None" by (rule b64_dec_foreign)
  then show ?thesis by (simp add: StdDecode_def strip_crlf_id [OF URLEncode_clean(3,2)])
next
  case False
  then have "\<forall>c\<in>set (StdEncode s). to_url c = c"
    unfolding URLEncode_map by (auto simp: to_url_def image_iff split: if_splits)
  then show ?thesis unfolding URLEncode_map by (simp add: map_idI)
qed

text \<open>Trying the standard alphabet first and then the other reads both.\<close>

lemma URL_or_Std: "(case StdDecode (URLEncode s) of None \<Rightarrow> URLDecode (URLEncode s) | Some d \<Rightarrow> Some d) = Some s"
  using StdDecode_URLEncode [of s] by (auto simp: URLDecode_URLEncode StdDecode_StdEncode)

end
