(* ===== verification/Sha256.thy ===== *)
theory Sha256
  imports Base64 "HOL-Library.Word"
begin

unbundle bit_operations_syntax

text \<open>
  Go's \<^verbatim>\<open>crypto/sha256.Sum256\<close> on byte strings, over 32-bit words whose addition wraps.
  The sources hash a message text into a message id and a name and password into a secret; of
  the digest they rely on its length (\<open>length_Sum256\<close>) and on its being a function of the text.
\<close>

type_synonym u32 = "32 word"

definition rotr :: "nat \<Rightarrow> u32 \<Rightarrow> u32" where
  "rotr n x = (drop_bit n x) OR (push_bit (32 - n) x)"

text \<open>The round constants and the initial digest, in decimal.\<close>

definition sha_K :: "u32 list" where
  "sha_K =
    [1116352408, 1899447441, 3049323471, 3921009573, 961987163, 1508970993, 2453635748, 2870763221,
     3624381080, 310598401, 607225278, 1426881987, 1925078388, 2162078206, 2614888103, 3248222580,
     3835390401, 4022224774, 264347078, 604807628, 770255983, 1249150122, 1555081692, 1996064986,
     2554220882, 2821834349, 2952996808, 3210313671, 3336571891, 3584528711, 113926993, 338241895,
     666307205, 773529912, 1294757372, 1396182291, 1695183700, 1986661051, 2177026350, 2456956037,
     2730485921, 2820302411, 3259730800, 3345764771, 3516065817, 3600352804, 4094571909, 275423344,
     430227734, 506948616, 659060556, 883997877, 958139571, 1322822218, 1537002063, 1747873779,
     1955562222, 2024104815, 2227730452, 2361852424, 2428436474, 2756734187, 3204031479, 3329325298]"

definition sha_H0 :: "u32 list" where
  "sha_H0 = [1779033703, 3144134277, 1013904242, 2773480762, 1359893119, 2600822924, 528734635, 1541459225]"

text \<open>The message, a one bit, zeros, and the bit length as 64 bits big-endian.\<close>

definition be_bytes :: "nat \<Rightarrow> nat \<Rightarrow> nat list" where
  "be_bytes k n = map (\<lambda>i. n div 256 ^ i mod 256) (rev [0..<k])"

definition sha_pad :: "string \<Rightarrow> nat list" where
  "sha_pad s =
     map byte s @ [128] @ replicate ((119 - length s mod 64) mod 64) 0 @ be_bytes 8 (8 * length s)"

fun be_words :: "nat list \<Rightarrow> u32 list" where
  "be_words (a # b # c # d # s) =
     word_of_nat (a * 2 ^ 24 + b * 2 ^ 16 + c * 2 ^ 8 + d) # be_words s"
| "be_words _ = []"

fun sha_blocks :: "nat \<Rightarrow> u32 list \<Rightarrow> u32 list list" where
  "sha_blocks 0 ws = []"
| "sha_blocks (Suc n) ws = take 16 ws # sha_blocks n (drop 16 ws)"

text \<open>The schedule, newest word first.\<close>

fun sha_expand :: "nat \<Rightarrow> u32 list \<Rightarrow> u32 list" where
  "sha_expand 0 ws = ws"
| "sha_expand (Suc n) ws =
     (let w15 = ws ! 14; w2 = ws ! 1;
          s0 = rotr 7 w15 XOR rotr 18 w15 XOR drop_bit 3 w15;
          s1 = rotr 17 w2 XOR rotr 19 w2 XOR drop_bit 10 w2
      in sha_expand n ((ws ! 15 + s0 + ws ! 6 + s1) # ws))"

fun sha_round :: "u32 list \<Rightarrow> u32 \<times> u32 \<Rightarrow> u32 list" where
  "sha_round [a, b, c, d, e, f, g, h] (k, w) =
     (let S1 = rotr 6 e XOR rotr 11 e XOR rotr 25 e;
          ch = (e AND f) XOR (NOT e AND g);
          t1 = h + S1 + ch + k + w;
          S0 = rotr 2 a XOR rotr 13 a XOR rotr 22 a;
          maj = (a AND b) XOR (a AND c) XOR (b AND c);
          t2 = S0 + maj
      in [t1 + t2, a, b, c, d + t1, e, f, g])"
| "sha_round st _ = st"

definition sha_block :: "u32 list \<Rightarrow> u32 list \<Rightarrow> u32 list" where
  "sha_block st blk =
     map2 (+) st (foldl sha_round st (zip sha_K (rev (sha_expand 48 (rev blk)))))"

definition sha_bytes :: "u32 \<Rightarrow> string" where
  "sha_bytes w = map chr (be_bytes 4 (unat w))"

definition Sum256 :: "string \<Rightarrow> string" where
  "Sum256 s =
     (let ws = be_words (sha_pad s)
      in concat (map sha_bytes (foldl sha_block sha_H0 (sha_blocks (length ws div 16) ws))))"

lemma length_sha_round: "length st = 8 \<Longrightarrow> length (sha_round st kw) = 8"
  by (induction st kw rule: sha_round.induct) (auto simp: Let_def)

lemma length_sha_rounds: "length st = 8 \<Longrightarrow> length (foldl sha_round st kws) = 8"
  by (induction kws arbitrary: st) (auto simp: length_sha_round)

lemma length_sha_fold: "length st = 8 \<Longrightarrow> length (foldl sha_block st bs) = 8"
  by (induction bs arbitrary: st) (auto simp: sha_block_def length_sha_rounds)

lemma length_sha_bytes [simp]: "length (sha_bytes w) = 4"
  by (simp add: sha_bytes_def be_bytes_def)

lemma length_concat_sha: "length (concat (map sha_bytes ws)) = 4 * length ws"
  by (induction ws) auto

lemma length_Sum256 [simp]: "length (Sum256 s) = 32"
  by (simp add: Sum256_def Let_def length_concat_sha length_sha_fold sha_H0_def)

end
