(* ===== verification/II_Msg.thy ===== *)
theory II_Msg
  imports II_Tags Sha256
begin

text \<open>
  Messages (\<^verbatim>\<open>ii/msg.go\<close>): the decoded message, the validity checks on names and ids, the
  decoding of a message a point sends (\<^verbatim>\<open>DecodeMsgline\<close>), and the bundle format in which
  nodes store and exchange messages (\<^verbatim>\<open>DecodeBundle\<close>, \<^verbatim>\<open>String\<close>, \<^verbatim>\<open>Encode\<close>).
  A function that reads the clock takes the Unix time as an argument. \<open>bundle_ok\<close> is the invariant
  of messages that survive the format unchanged; everything the node decodes satisfies it.
\<close>

section \<open>Identifiers and validity checks\<close>

definition MsgId :: "string \<Rightarrow> string" where
  "MsgId msg =
     (let mid = StdEncode (Sum256 msg);
          mid = Replace (CHR ''+'') ''A'' mid;
          mid = Replace (CHR ''/'') ''Z'' mid
      in take 20 mid)"

definition IsMsgId :: "string \<Rightarrow> bool" where
  "IsMsgId mid = (length mid = 20 \<and> \<not> Contains mid ''.'')"

definition IsPrivate :: "string \<Rightarrow> bool" where
  "IsPrivate e = HasPrefix e ''.''"

definition IsEcho :: "string \<Rightarrow> bool" where
  "IsEcho e =
     (let l = length e
      in l \<ge> 3 \<and> l \<le> 120 \<and> Contains e ''.'' \<and> \<not> Contains e '':'')"

definition IsSubject :: "string \<Rightarrow> bool" where
  "IsSubject s = True"

definition IsEmptySubject :: "string \<Rightarrow> bool" where
  "IsEmptySubject s = (length (TrimSpace s) > 0)"

section \<open>The decoded message\<close>

record Msg =
  m_MsgId :: string
  m_Tags :: Tags
  m_Echo :: string
  m_Date :: int
  m_From :: string
  m_Addr :: string
  m_To :: string
  m_Subj :: string
  m_Text :: string

definition nil_msg :: Msg where
  "nil_msg = \<lparr>m_MsgId = [], m_Tags = nil_tags, m_Echo = [], m_Date = 0, m_From = [], m_Addr = [],
     m_To = [], m_Subj = [], m_Text = []\<rparr>"

definition Msg_Tag :: "Msg \<Rightarrow> string \<Rightarrow> string option" where
  "Msg_Tag m n = Tags_Get (m_Tags m) n"

text \<open>\<^verbatim>\<open>v, _ := m.Tag(n)\<close>\<close>

definition Msg_tag_val :: "Msg \<Rightarrow> string \<Rightarrow> string" where
  "Msg_tag_val m n = Tags_val (m_Tags m) n"

text \<open>The body: every line with a newline, the last newline taken off again.\<close>

definition body_text :: "string list \<Rightarrow> string" where
  "body_text ls = TrimSuffix (concat (map (\<lambda>l. l @ [NL]) ls)) [NL]"

definition msgline_data :: "string \<Rightarrow> bool \<Rightarrow> string option" where
  "msgline_data msg enc =
     (if enc then (case StdDecode msg of None \<Rightarrow> URLDecode msg | Some d \<Rightarrow> Some d)
      else Some msg)"

definition DecodeMsgline :: "int \<Rightarrow> string \<Rightarrow> bool \<Rightarrow> ii_error + Msg" where
  "DecodeMsgline now msg enc =
     (if length msg > 65536 then Inl EMsgTooLong
      else case msgline_data msg enc of
        None \<Rightarrow> Inl EBadBase64
      | Some data \<Rightarrow>
          let text = Split NL data in
          if length text < 5 then Inl EWrongMsgFormat
          else if text ! 3 \<noteq> [] then Inl ENoBodyDelim
          else let echo = TrimSpace (text ! 0) in
          if \<not> IsEcho echo then Inl EWrongEcho
          else let to = TrimSpace (text ! 1);
                   to = (if length to = 0 then ''All'' else to);
                   subj = TrimSpace (text ! 2) in
          if \<not> IsEmptySubject subj then Inl EWrongSubject
          else let repto = text ! 4;
                   tags = NewTags ''ii/ok'' in
          let (start, tags) =
                (if HasPrefix repto ''@repto:''
                 then (5, add_tag tags (''repto/'' @ Trim (Split (CHR '':'') repto ! 1) '' ''))
                 else (4, tags)) in
          Inr \<lparr>m_MsgId = [], m_Tags = tags, m_Echo = echo, m_Date = now, m_From = [], m_Addr = [],
               m_To = to, m_Subj = subj, m_Text = body_text (drop start text)\<rparr>)"

text \<open>\<^verbatim>\<open>func (m *Msg) String()\<close>\<close>

definition Msg_String :: "Msg \<Rightarrow> string" where
  "Msg_String m =
     Join [NL] [Tags_String (m_Tags m), m_Echo m, itoa (m_Date m), m_From m, m_Addr m, m_To m,
                m_Subj m, [], m_Text m]"

text \<open>
  \<^verbatim>\<open>Encode\<close> also fills the date and the id of the message it is called on, so it returns the
  message as it leaves it together with the bundle line.
\<close>

definition Encode :: "int \<Rightarrow> Msg \<Rightarrow> Msg \<times> string" where
  "Encode now m =
     (if m_Echo m = [] then (m, [])
      else let m = (if m_Date m = 0 then m\<lparr>m_Date := now\<rparr> else m);
               text = Msg_String m;
               m = (if m_MsgId m = [] then m\<lparr>m_MsgId := MsgId text\<rparr> else m)
           in (m, m_MsgId m @ '':'' @ StdEncode text))"

text \<open>The id prefix of a bundle line, if there is one, and the base64 word.\<close>

definition bundle_split :: "string \<Rightarrow> ii_error + string \<times> string" where
  "bundle_split msg =
     (if Contains msg '':'' then
        (let spl = Split (CHR '':'') msg in
         if length spl \<noteq> 2 then Inl EWrongBundle
         else if \<not> IsMsgId (spl ! 0) then Inl EWrongMsgId
         else Inr (spl ! 0, spl ! 1))
      else Inr ([], msg))"

definition bundle_fields :: "string \<Rightarrow> string \<Rightarrow> ii_error + Msg" where
  "bundle_fields mid data_str =
     (let mid = (if mid = [] then MsgId data_str else mid);
          text = Split NL data_str in
      if length text \<le> 8 then Inl EWrongMsgFormat
      else case MakeTags (text ! 0) of
        Inl e \<Rightarrow> Inl e
      | Inr tags \<Rightarrow>
          if (case Tags_Get tags ''repto'' of Some r \<Rightarrow> \<not> IsMsgId r | None \<Rightarrow> False) then Inl EWrongRepto
          else if \<not> IsEcho (text ! 1) then Inl EWrongEcho
          else (case sscan_d 64 (text ! 2) of
            None \<Rightarrow> Inl EBadNumber
          | Some (date, _) \<Rightarrow>
              if \<not> IsSubject (text ! 6) then Inl EWrongSubject
              else Inr \<lparr>m_MsgId = mid, m_Tags = tags, m_Echo = text ! 1, m_Date = date,
                        m_From = text ! 3, m_Addr = text ! 4, m_To = text ! 5, m_Subj = text ! 6,
                        m_Text = body_text (drop 8 text)\<rparr>))"

definition DecodeBundle :: "string \<Rightarrow> ii_error + Msg" where
  "DecodeBundle msg =
     (case bundle_split msg of
        Inl e \<Rightarrow> Inl e
      | Inr (mid, msg) \<Rightarrow>
          let msg = Replace (CHR ''-'') ''+'' msg;
              msg = Replace (CHR ''_'') ''/'' msg in
          (case StdDecode msg of
             None \<Rightarrow> Inl EBadBase64
           | Some data \<Rightarrow> bundle_fields mid (Replace CR [] data)))"

section \<open>Ids\<close>

lemma MsgId_chars: "c \<in> set (MsgId t) \<Longrightarrow> c \<in> set b64_std \<or> c = CHR ''=''"
proof -
  assume "c \<in> set (MsgId t)"
  then have "c \<in> set (Replace (CHR ''/'') ''Z'' (Replace (CHR ''+'') ''A'' (StdEncode (Sum256 t))))"
    unfolding MsgId_def Let_def by (rule in_set_takeD)
  then have "c \<in> set (StdEncode (Sum256 t)) \<or> c = CHR ''A'' \<or> c = CHR ''Z''"
    using set_Replace [of "CHR ''/''" "''Z''"] set_Replace [of "CHR ''+''" "''A''"] by fastforce
  moreover have "CHR ''A'' \<in> set b64_std" "CHR ''Z'' \<in> set b64_std" by (simp_all add: b64_std_def)
  ultimately show ?thesis using StdEncode_chars by blast
qed

lemma length_Replace1 [simp]: "length (Replace c [d] s) = length s"
  by (induction s) (auto simp: Replace_Cons)

lemma length_MsgId [simp]: "length (MsgId t) = 20"
proof -
  have "length (StdEncode (Sum256 t)) = 44" by (simp add: StdEncode_def length_b64_enc)
  then show ?thesis by (simp add: MsgId_def Let_def)
qed

lemma MsgId_nonempty [simp]: "MsgId t \<noteq> []"
  using length_MsgId [of t] by fastforce

lemma IsMsgId_MsgId [simp, ii_wf]: "IsMsgId (MsgId t)"
proof -
  have "CHR ''.'' \<notin> set (MsgId t)"
    using MsgId_chars [of "CHR ''.''" t] by (auto simp: b64_tables_clean)
  then show ?thesis by (simp add: IsMsgId_def)
qed

lemma MsgId_clean [simp]: "CHR '':'' \<notin> set (MsgId t)" "NL \<notin> set (MsgId t)"
  using MsgId_chars [of "CHR '':''" t] MsgId_chars [of NL t] by (auto simp: b64_tables_clean)

lemma IsEcho_nonempty: "IsEcho e \<Longrightarrow> e \<noteq> []"
  by (auto simp: IsEcho_def)

lemma IsMsgId_nonempty: "IsMsgId i \<Longrightarrow> i \<noteq> []"
  by (auto simp: IsMsgId_def)

section \<open>The bundle round trip\<close>

definition line_ok :: "string \<Rightarrow> bool" where
  "line_ok s = (NL \<notin> set s \<and> CR \<notin> set s)"

definition bundle_ok :: "Msg \<Rightarrow> bool" where
  "bundle_ok m =
     ((m_MsgId m = [] \<or> IsMsgId (m_MsgId m) \<and> CHR '':'' \<notin> set (m_MsgId m)) \<and>
      tags_ok (m_Tags m) \<and> line_ok (Tags_String (m_Tags m)) \<and>
      (case Msg_Tag m ''repto'' of None \<Rightarrow> True | Some r \<Rightarrow> IsMsgId r) \<and>
      IsEcho (m_Echo m) \<and> line_ok (m_Echo m) \<and> in64 (m_Date m) \<and>
      line_ok (m_From m) \<and> line_ok (m_Addr m) \<and> line_ok (m_To m) \<and> line_ok (m_Subj m) \<and>
      CR \<notin> set (m_Text m))"

lemma body_text_Join: "ls \<noteq> [] \<Longrightarrow> body_text ls = Join [NL] ls"
  unfolding body_text_def using concat_sep_Join [of ls "[NL]"] by (simp add: TrimSuffix_append)

lemma body_text_Split [simp]: "body_text (Split NL s) = s"
  by (simp add: body_text_Join Join_Split)

lemma Split_Join_last:
  "\<forall>w\<in>set hs. c \<notin> set w \<Longrightarrow> Split c (Join [c] (hs @ [t])) = hs @ Split c t"
proof (induction hs)
  case (Cons w hs)
  then show ?case by (simp add: Join_Cons Split_append)
qed simp

lemma Split_Msg_String:
  assumes "\<forall>w\<in>{Tags_String (m_Tags m), m_Echo m, m_From m, m_Addr m, m_To m, m_Subj m}. line_ok w"
  shows "Split NL (Msg_String m) =
    [Tags_String (m_Tags m), m_Echo m, itoa (m_Date m), m_From m, m_Addr m, m_To m, m_Subj m, []]
      @ Split NL (m_Text m)"
  using Split_Join_last [of "[Tags_String (m_Tags m), m_Echo m, itoa (m_Date m), m_From m, m_Addr m,
      m_To m, m_Subj m, []]" NL "m_Text m"] assms
  by (simp add: Msg_String_def line_ok_def)

lemma Msg_String_no_CR: "bundle_ok m \<Longrightarrow> CR \<notin> set (Msg_String m)"
  using set_Join [of "[NL]" "[Tags_String (m_Tags m), m_Echo m, itoa (m_Date m), m_From m, m_Addr m,
      m_To m, m_Subj m, [], m_Text m]"]
  by (auto simp: bundle_ok_def line_ok_def Msg_String_def)

lemma bundle_fields_String:
  assumes "bundle_ok m"
  shows "bundle_fields mid (Msg_String m)
           = Inr (m\<lparr>m_MsgId := if mid = [] then MsgId (Msg_String m) else mid\<rparr>)"
proof -
  have ok: "\<forall>w\<in>{Tags_String (m_Tags m), m_Echo m, m_From m, m_Addr m, m_To m, m_Subj m}. line_ok w"
      "tags_ok (m_Tags m)" "IsEcho (m_Echo m)" "in64 (m_Date m)"
      "case Tags_Get (m_Tags m) ''repto'' of None \<Rightarrow> True | Some r \<Rightarrow> IsMsgId r"
    using assms by (auto simp: bundle_ok_def Msg_Tag_def)
  have date: "sscan_d 64 (itoa (m_Date m)) = Some (m_Date m, [])"
    using sscan_d_itoa [of 64 "m_Date m" "[]"] ok(4) by simp
  have "8 < length (Split NL (Msg_String m))"
    unfolding Split_Msg_String [OF ok(1)] by (simp add: numeral_eq_Suc)
  then show ?thesis
    using ok(3,5) MakeTags_Tags_String [OF ok(2)] date
    unfolding bundle_fields_def Split_Msg_String [OF ok(1)]
    by (auto simp: Let_def IsSubject_def split: option.splits)
qed

lemma bundle_split_framed:
  assumes "IsMsgId mid" and "CHR '':'' \<notin> set mid"
  shows "bundle_split (mid @ '':'' @ StdEncode t) = Inr (mid, StdEncode t)"
  using assms std.framed_split [OF assms(2), of t] by (simp add: bundle_split_def)

lemma DecodeBundle_framed:
  assumes "IsMsgId mid" and "CHR '':'' \<notin> set mid"
  shows "DecodeBundle (mid @ '':'' @ StdEncode t) = bundle_fields mid (Replace CR [] t)"
  using bundle_split_framed [OF assms, of t]
  by (simp add: DecodeBundle_def Replace_id StdEncode_clean StdDecode_StdEncode)

lemma DecodeBundle_bare:
  "DecodeBundle (StdEncode t) = bundle_fields [] (Replace CR [] t)"
  by (simp add: DecodeBundle_def bundle_split_def Replace_id StdEncode_clean StdDecode_StdEncode)

text \<open>What \<^verbatim>\<open>Encode\<close> leaves in the message: the date and the id filled in.\<close>

definition stamped :: "int \<Rightarrow> Msg \<Rightarrow> Msg" where
  "stamped now m = (if m_Date m = 0 then m\<lparr>m_Date := now\<rparr> else m)"

definition filled :: "int \<Rightarrow> Msg \<Rightarrow> Msg" where
  "filled now m =
     (let m = stamped now m
      in if m_MsgId m = [] then m\<lparr>m_MsgId := MsgId (Msg_String m)\<rparr> else m)"

lemma Encode_filled:
  "m_Echo m \<noteq> [] \<Longrightarrow>
   Encode now m = (filled now m, m_MsgId (filled now m) @ '':'' @ StdEncode (Msg_String (stamped now m)))"
  by (simp add: Encode_def filled_def stamped_def Let_def)

lemma Msg_String_MsgId [simp]: "Msg_String (m\<lparr>m_MsgId := i\<rparr>) = Msg_String m"
  by (simp add: Msg_String_def)

lemma bundle_ok_stamped: "bundle_ok m \<Longrightarrow> in64 now \<Longrightarrow> bundle_ok (stamped now m)"
  by (simp add: bundle_ok_def stamped_def Msg_Tag_def)

lemma bundle_ok_filled: "bundle_ok m \<Longrightarrow> in64 now \<Longrightarrow> bundle_ok (filled now m)"
  by (auto simp: bundle_ok_def filled_def stamped_def Msg_Tag_def Let_def)

lemma filled_MsgId:
  "bundle_ok m \<Longrightarrow> IsMsgId (m_MsgId (filled now m)) \<and> CHR '':'' \<notin> set (m_MsgId (filled now m))"
  by (auto simp: bundle_ok_def filled_def stamped_def Let_def)

lemma filled_id: "m_Date m \<noteq> 0 \<Longrightarrow> m_MsgId m \<noteq> [] \<Longrightarrow> filled now m = m"
  by (simp add: filled_def stamped_def)

theorem DecodeBundle_Encode:
  assumes "bundle_ok m" and "in64 now"
  shows "DecodeBundle (snd (Encode now m)) = Inr (fst (Encode now m))"
proof -
  let ?m = "stamped now m" and ?f = "filled now m"
  have echo: "m_Echo m \<noteq> []" using assms(1) IsEcho_nonempty by (auto simp: bundle_ok_def)
  have ok: "bundle_ok ?m" using assms by (rule bundle_ok_stamped)
  have mid: "IsMsgId (m_MsgId ?f)" "CHR '':'' \<notin> set (m_MsgId ?f)" using filled_MsgId [OF assms(1)] by auto
  have "DecodeBundle (snd (Encode now m)) = bundle_fields (m_MsgId ?f) (Msg_String ?m)"
    using DecodeBundle_framed [OF mid] Msg_String_no_CR [OF ok]
    by (simp add: Encode_filled [OF echo] Replace_id)
  also have "\<dots> = Inr (?m\<lparr>m_MsgId := m_MsgId ?f\<rparr>)"
    using bundle_fields_String [OF ok] mid(1) IsMsgId_nonempty by auto
  also have "?m\<lparr>m_MsgId := m_MsgId ?f\<rparr> = ?f"
    by (simp add: filled_def Let_def)
  finally show ?thesis by (simp add: Encode_filled [OF echo])
qed

section \<open>What decoding guarantees\<close>

lemma bundle_split_Inr:
  assumes "bundle_split s = Inr (mid, w)"
  shows "mid = [] \<or> IsMsgId mid \<and> CHR '':'' \<notin> set mid"
proof (cases "Contains s '':''")
  case True
  let ?spl = "Split (CHR '':'') s"
  have "length ?spl = 2" "IsMsgId (?spl ! 0)" "mid = ?spl ! 0"
    using assms True by (auto simp: bundle_split_def Let_def split: if_splits)
  moreover from this have "CHR '':'' \<notin> set (?spl ! 0)"
    by (intro Split_pieces [of _ _ s] nth_mem) simp
  ultimately show ?thesis by simp
qed (use assms in \<open>simp add: bundle_split_def\<close>)

lemma Split_line_ok:
  assumes "CR \<notin> set d" and "w \<in> set (Split NL d)"
  shows "line_ok w"
  using assms Split_pieces [of w NL d] Split_pieces_subset [of w NL d] by (auto simp: line_ok_def)

lemma line_ok_subset: "line_ok s \<Longrightarrow> set t \<subseteq> set s \<Longrightarrow> line_ok t"
  by (auto simp: line_ok_def)

lemma set_Tags_String:
  assumes "MakeTags s = Inr t"
  shows "set (Tags_String t) \<subseteq> set s"
proof (cases "Trim s '' '' = []")
  case True
  then show ?thesis using assms by (auto simp: MakeTags_def Tags_String_def nil_tags_def)
next
  case False
  let ?ws = "Split (CHR ''/'') (Trim s '' '')"
  have ev: "even (length ?ws)" and t: "t = make_tags_loop ?ws Map.empty []"
    using assms False by (auto simp: MakeTags_def Let_def split: if_splits)
  obtain ps where ps: "?ws = flat ps" using even_flat [OF ev] .
  have ne: "ps \<noteq> []" using Split_nonempty [of "CHR ''/''" "Trim s '' ''"] unfolding ps by simp
  have trim: "Trim s '' '' = Join ''/'' (flat ps)"
    using Join_Split [of "CHR ''/''" "Trim s '' ''"] unfolding ps by simp
  have h: "tg_Hash t = Some (last_of ps)" and l: "tg_List t = map fst ps"
    using foldl_map_upd_last_of [of Map.empty ps]
    by (auto simp: t ps make_tags_loop_flat fun_eq_iff split: option.splits)
  have dom: "set (map fst ps) = dom (last_of ps)"
    using last_of_None_iff [of ps] by (auto simp: dom_def image_iff)
  have pieces: "set w \<subseteq> set s" if "w \<in> set (flat ps)" for w
    using that Split_pieces_subset [of w "CHR ''/''" "Trim s '' ''"] set_Trim [of s "'' ''"]
    unfolding ps by blast
  have slash: "CHR ''/'' \<in> set s"
  proof -
    have "CHR ''/'' \<in> set (Trim s '' '')"
    proof (rule ccontr)
      assume "CHR ''/'' \<notin> set (Trim s '' '')"
      then have "length ?ws = 1" using length_Split_1_iff by blast
      then show False using ev by simp
    qed
    then show ?thesis using set_Trim by fastforce
  qed
  have "Tags_String t = Join ''/'' (flat (map (\<lambda>n. (n, the (last_of ps n))) (map fst ps)))"
    using Tags_String_Join [OF h] l ne dom by auto
  moreover have "w \<in> set (flat ps)" if "w \<in> set (flat (map (\<lambda>n. (n, the (last_of ps n))) (map fst ps)))" for w
  proof -
    from that obtain p where p: "p \<in> set ps" "w = fst p \<or> w = the (last_of ps (fst p))"
      by (auto simp: flat_def)
    then obtain v where v: "last_of ps (fst p) = Some v" using dom by fastforce
    then have "(fst p, v) \<in> set ps" by (rule last_of_Some_set)
    then show ?thesis using p v by (force simp: flat_def)
  qed
  ultimately show ?thesis
    using set_Join [of "''/''"] pieces slash by fastforce
qed

lemma bundle_fields_ok:
  assumes "bundle_fields mid d = Inr m" and "CR \<notin> set d"
    and "mid = [] \<or> IsMsgId mid \<and> CHR '':'' \<notin> set mid"
  shows "bundle_ok m \<and> m_MsgId m \<noteq> []"
proof -
  let ?t = "Split NL d"
  obtain tags date r where len: "8 < length ?t" and tags: "MakeTags (?t ! 0) = Inr tags"
    and rep: "case Tags_Get tags ''repto'' of None \<Rightarrow> True | Some r \<Rightarrow> IsMsgId r"
    and echo: "IsEcho (?t ! 1)" and date: "sscan_d 64 (?t ! 2) = Some (date, r)"
    and m: "m = \<lparr>m_MsgId = (if mid = [] then MsgId d else mid), m_Tags = tags, m_Echo = ?t ! 1,
        m_Date = date, m_From = ?t ! 3, m_Addr = ?t ! 4, m_To = ?t ! 5, m_Subj = ?t ! 6,
        m_Text = body_text (drop 8 ?t)\<rparr>"
    using assms(1)
    by (auto simp: bundle_fields_def Let_def split: if_splits sum.splits option.splits)
  have line: "line_ok (?t ! i)" if "i < 9" for i
    using len that by (intro Split_line_ok [OF assms(2)] nth_mem) simp
  have "line_ok (Tags_String tags)"
    using line_ok_subset [OF line set_Tags_String [OF tags]] by simp
  moreover have "CR \<notin> set (body_text (drop 8 ?t))"
  proof -
    have "drop 8 ?t \<noteq> []" using len by simp
    then have "set (body_text (drop 8 ?t)) \<subseteq> \<Union> (set ` set ?t) \<union> {NL}"
      using set_Join [of "[NL]" "drop 8 ?t"] by (fastforce simp: body_text_Join dest: in_set_dropD)
    also have "\<dots> \<subseteq> set d \<union> {NL}" using Split_pieces_subset [of _ NL d] by blast
    finally show ?thesis using assms(2) by auto
  qed
  ultimately show ?thesis
    using assms(3) echo rep line MakeTags_ok [OF tags] sscan_d_range [OF date] IsMsgId_nonempty
    by (auto simp: bundle_ok_def m Msg_Tag_def split: option.splits)
qed

theorem DecodeBundle_ok:
  assumes "DecodeBundle s = Inr m"
  shows "bundle_ok m \<and> m_MsgId m \<noteq> []"
proof -
  obtain mid w d where "bundle_split s = Inr (mid, w)" "bundle_fields mid (Replace CR [] d) = Inr m"
    using assms by (auto simp: DecodeBundle_def Let_def split: sum.splits option.splits)
  then show ?thesis
    using bundle_fields_ok [of mid "Replace CR [] d" m] bundle_split_Inr
    by (auto simp: Replace_removes)
qed

end
