(* ===== verification/II_Index.thy ===== *)
theory II_Index
  imports II_Files II_Msg
begin

text \<open>
  The message index (\<^verbatim>\<open>ii/db.go\<close>: \<^verbatim>\<open>MsgInfo\<close>, \<^verbatim>\<open>Index\<close>,
  \<^verbatim>\<open>_CreateIndex\<close>, \<^verbatim>\<open>_ReopenIndex\<close>, \<^verbatim>\<open>LoadIndex\<close>). A database is two
  files, the bundle lines and the index derived from them, and the part of the index that has been
  read into memory. A pointer \<^verbatim>\<open>*MsgInfo\<close> is a key of the in-memory map: the map and the
  lists of ids all name the same object, and writing through the pointer is updating the map.

  The locale \<open>keyed_table\<close> is the contract of a table that is rebuilt by replaying a log of records:
  the last record of a key wins, the keys keep the order of their first record. The in-memory index
  interprets it.
\<close>

section \<open>State\<close>

record MsgInfo =
  mi_Num :: nat
  mi_Id :: string
  mi_Echo :: string
  mi_To :: string
  mi_Off :: int
  mi_Repto :: string
  mi_From :: string
  mi_Topic :: string

record Index =
  ix_Hash :: "MsgInfo gomap"
  ix_List :: "string list"
  ix_FileSize :: int

definition nil_index :: Index where
  "nil_index = \<lparr>ix_Hash = None, ix_List = [], ix_FileSize = 0\<rparr>"

record DB =
  db_bundle :: gofile
  db_index :: gofile
  db_Idx :: Index
  db_Name :: string

section \<open>Building the index file\<close>

definition index_line :: "Msg \<Rightarrow> int \<Rightarrow> string" where
  "index_line m off =
     m_MsgId m @ '':'' @ m_Echo m @ '':'' @ itoa off @ '':'' @ m_To m @ '':'' @ m_From m @ '':'' @
     Msg_tag_val m ''repto''"

definition blacklisted :: "Msg \<Rightarrow> bool" where
  "blacklisted m = (Msg_tag_val m ''access'' = ''blacklist'')"

definition signed_off :: "Msg \<Rightarrow> int \<Rightarrow> int" where
  "signed_off m off = (if blacklisted m then - off else off)"

text \<open>The callback of \<^verbatim>\<open>_CreateIndex\<close>: the offset and the bytes written so far.\<close>

definition create_index_line :: "string \<Rightarrow> int \<times> string \<Rightarrow> (int \<times> string) \<times> bool" where
  "create_index_line line st =
     (case st of (off, out) \<Rightarrow>
        (case DecodeBundle line of
           Inl _ \<Rightarrow> ((off + int (length line + 1), out), True)
         | Inr msg \<Rightarrow>
             ((off + int (length line + 1), out @ index_line msg (signed_off msg off) @ [NL]), True)))"

definition CreateIndex :: "DB \<Rightarrow> DB \<times> ii_error option" where
  "CreateIndex db =
     (case db_index db of
        Denied \<Rightarrow> (db, Some EIO)
      | f \<Rightarrow>
          (let old = (case f of File s \<Rightarrow> s | _ \<Rightarrow> []);
               ((_, out), err) = FileLines (db_bundle db) create_index_line (0, [])
           in (db\<lparr>db_index := File (overwrite old out)\<rparr>, err)))"

text \<open>\<^verbatim>\<open>_ReopenIndex\<close>: the bytes of the index just created.\<close>

definition ReopenIndex :: "DB \<Rightarrow> DB \<times> (ii_error + string)" where
  "ReopenIndex db =
     (case CreateIndex db of
        (db, Some e) \<Rightarrow> (db, Inl e)
      | (db, None) \<Rightarrow> (db, case db_index db of File s \<Rightarrow> Inr s | _ \<Rightarrow> Inl EIO))"

section \<open>Reading the index file\<close>

text \<open>
  The state of the reading loop: the index under construction, the next sequence number, the line
  number and the error that stopped the loop. A write to the nil map is the panic it is in Go.
\<close>

record loader =
  ld_Hash :: "MsgInfo gomap"
  ld_List :: "string list"
  ld_nr :: nat
  ld_linenr :: nat
  ld_err :: "ii_error option"

definition load_line :: "string \<Rightarrow> loader \<Rightarrow> loader \<times> bool" where
  "load_line line st =
     (let st = st\<lparr>ld_linenr := ld_linenr st + 1\<rparr>;
          info = Split (CHR '':'') line in
      if length info < 6 then (st\<lparr>ld_err := Some (EIndexLine (ld_linenr st))\<rparr>, False)
      else (case sscan_d 64 (info ! 2) of
        None \<Rightarrow> (st\<lparr>ld_err := Some (EIndexOffset (ld_linenr st))\<rparr>, False)
      | Some (off, _) \<Rightarrow>
          let mi = \<lparr>mi_Num = ld_nr st, mi_Id = info ! 0, mi_Echo = info ! 1, mi_To = info ! 3,
                    mi_Off = off, mi_Repto = info ! 5, mi_From = info ! 4, mi_Topic = []\<rparr>;
              (st, mi) =
                (case map_get (ld_Hash st) (mi_Id mi) of
                   None \<Rightarrow> (st\<lparr>ld_List := ld_List st @ [mi_Id mi], ld_nr := ld_nr st + 1\<rparr>, mi)
                 | Some mm \<Rightarrow> (st, mi\<lparr>mi_Num := mi_Num mm\<rparr>)) in
          (case ld_Hash st of
             None \<Rightarrow> (st\<lparr>ld_err := Some (EPanic PNilMap)\<rparr>, False)
           | Some h \<Rightarrow> (st\<lparr>ld_Hash := Some (h(mi_Id mi \<mapsto> mi))\<rparr>, True))))"

text \<open>\<^verbatim>\<open>for _, v := range Idx.Hash { v.Topic = "" }\<close>\<close>

definition clear_topics :: "Index \<Rightarrow> Index" where
  "clear_topics ix =
     ix\<lparr>ix_Hash := map_option (\<lambda>h k. map_option (\<lambda>mi. mi\<lparr>mi_Topic := []\<rparr>) (h k)) (ix_Hash ix)\<rparr>"

definition load_run :: "Index \<Rightarrow> string \<Rightarrow> loader" where
  "load_run ix text =
     f_lines load_line text
       \<lparr>ld_Hash = ix_Hash ix, ld_List = ix_List ix, ld_nr = length (ix_List ix), ld_linenr = 0,
        ld_err = None\<rparr>"

text \<open>
  The end of \<^verbatim>\<open>LoadIndex\<close>: read \<open>text\<close> into \<open>ix\<close>. \<open>shared\<close> says that the map of
  \<open>ix\<close> is the map of \<^verbatim>\<open>db.Idx\<close> itself, so that its writes stay even if an error
  keeps the rest of \<open>ix\<close> from being stored.
\<close>

definition load_finish :: "DB \<Rightarrow> Index \<Rightarrow> bool \<Rightarrow> int \<Rightarrow> string \<Rightarrow> DB \<times> ii_error option" where
  "load_finish db ix shared fsize text =
     (let ld = load_run ix text in
      case ld_err ld of
        Some e \<Rightarrow>
          (if shared then db\<lparr>db_Idx := (db_Idx db)\<lparr>ix_Hash := ld_Hash ld\<rparr>\<rparr> else db, Some e)
      | None \<Rightarrow>
          (db\<lparr>db_Idx := \<lparr>ix_Hash = ld_Hash ld, ix_List = ld_List ld, ix_FileSize = fsize\<rparr>\<rparr>, None))"

text \<open>The index once its file is open: \<open>text\<close> are its bytes.\<close>

definition load_opened :: "DB \<Rightarrow> string \<Rightarrow> DB \<times> ii_error option" where
  "load_opened db text =
     (let fsize = int (length text) in
      if ix_Hash (db_Idx db) \<noteq> None then
        (if fsize > ix_FileSize (db_Idx db) then
           load_finish db (clear_topics (db_Idx db)) True fsize
             (drop (nat (ix_FileSize (db_Idx db))) text)
         else if fsize < ix_FileSize (db_Idx db) then
           (case ReopenIndex db of
              (db, Inl e) \<Rightarrow> (db, Some e)
            | (db, Inr text) \<Rightarrow> load_finish db nil_index False fsize text)
         else (db, None))
      else load_finish db (nil_index\<lparr>ix_Hash := Some Map.empty\<rparr>) False fsize text)"

definition LoadIndex :: "DB \<Rightarrow> DB \<times> ii_error option" where
  "LoadIndex db =
     (case db_index db of
        Denied \<Rightarrow> (db\<lparr>db_Idx := nil_index\<rparr>, Some EIO)
      | NoFile \<Rightarrow>
          (case ReopenIndex (db\<lparr>db_Idx := nil_index\<rparr>) of
             (db, Inl e) \<Rightarrow> (db, Some e)
           | (db, Inr text) \<Rightarrow> load_opened db text)
      | File text \<Rightarrow> load_opened db text)"

section \<open>Well-formed in-memory indexes\<close>

text \<open>
  The list holds the keys of the map once each, and every entry knows its id and its position in
  the list.
\<close>

definition table_wf :: "(string \<rightharpoonup> MsgInfo) \<Rightarrow> string list \<Rightarrow> bool" where
  "table_wf h l =
     (distinct l \<and> dom h = set l \<and>
      (\<forall>i < length l. case h (l ! i) of None \<Rightarrow> False | Some mi \<Rightarrow> mi_Id mi = l ! i \<and> mi_Num mi = i))"

definition index_wf :: "Index \<Rightarrow> bool" where
  "index_wf ix =
     (case ix_Hash ix of None \<Rightarrow> ix_List ix = [] | Some h \<Rightarrow> table_wf h (ix_List ix))"

lemma table_wf_empty [simp]: "table_wf Map.empty []"
  by (simp add: table_wf_def)

lemma table_wf_new:
  assumes "table_wf h l" and "h k = None" and "mi_Id mi = k" and "mi_Num mi = length l"
  shows "table_wf (h(k \<mapsto> mi)) (l @ [k])"
proof -
  have k: "k \<notin> set l" using assms(1,2) by (auto simp: table_wf_def)
  then have "l ! i \<noteq> k" if "i < length l" for i using that nth_mem by blast
  then show ?thesis
    using assms k by (auto simp: table_wf_def nth_append less_Suc_eq split: option.splits)
qed

lemma table_wf_old:
  assumes "table_wf h l" and "h k = Some mm" and "mi_Id mi = k" and "mi_Num mi = mi_Num mm"
  shows "table_wf (h(k \<mapsto> mi)) l"
proof -
  have "k \<in> set l" using assms(1,2) by (auto simp: table_wf_def)
  moreover have "mi_Num mm = i" if "i < length l" "l ! i = k" for i
    using assms(1,2) that by (auto simp: table_wf_def split: option.splits)
  ultimately show ?thesis using assms by (auto simp: table_wf_def)
qed

lemma table_wf_Num:
  "table_wf h l \<Longrightarrow> h k = Some mi \<Longrightarrow> mi_Id mi = k \<and> mi_Num mi < length l \<and> l ! mi_Num mi = k"
proof -
  assume wf: "table_wf h l" and k: "h k = Some mi"
  then have "k \<in> set l" by (auto simp: table_wf_def)
  then obtain i where i: "i < length l" "l ! i = k" by (auto simp: in_set_conv_nth)
  then have "mi_Id mi = k \<and> mi_Num mi = i" using wf k by (auto simp: table_wf_def split: option.splits)
  then show ?thesis using i by simp
qed

definition loader_wf :: "loader \<Rightarrow> bool" where
  "loader_wf st =
     (ld_nr st = length (ld_List st) \<and>
      (ld_err st = None \<longrightarrow>
         (case ld_Hash st of None \<Rightarrow> ld_List st = [] | Some h \<Rightarrow> table_wf h (ld_List st))))"

lemma load_line_wf:
  assumes "loader_wf st" and "ld_err st = None"
  shows "loader_wf (fst (load_line line st)) \<and>
    (snd (load_line line st) \<longrightarrow> ld_err (fst (load_line line st)) = None)"
  using assms
  by (auto simp: load_line_def loader_wf_def Let_def table_wf_old
      intro!: table_wf_new split: option.splits prod.splits if_splits)

lemma run_load_wf:
  "loader_wf st \<Longrightarrow> ld_err st = None \<Longrightarrow> loader_wf (run_lines load_line ls st)"
proof (induction ls arbitrary: st)
  case (Cons l ls)
  obtain st' go where r: "load_line l st = (st', go)" by (cases "load_line l st")
  have "loader_wf st' \<and> (go \<longrightarrow> ld_err st' = None)" using load_line_wf [OF Cons.prems, of l] r by simp
  then show ?case using Cons.IH [of st'] r by (cases go) auto
qed simp

lemma clear_topics_wf: "index_wf ix \<Longrightarrow> index_wf (clear_topics ix)"
  by (auto simp: index_wf_def clear_topics_def table_wf_def dom_def split: option.splits)

lemma load_finish_wf:
  assumes "index_wf ix" and "load_finish db ix shared fsize text = (db', None)"
  shows "index_wf (db_Idx db')"
proof -
  have "loader_wf (load_run ix text)"
    unfolding load_run_def f_lines_def
    using assms(1) by (intro run_load_wf) (auto simp: loader_wf_def index_wf_def split: option.splits)
  then show ?thesis
    using assms(2)
    by (auto simp: load_finish_def loader_wf_def index_wf_def Let_def split: option.splits if_splits)
qed

lemma index_wf_nil [simp]: "index_wf nil_index" "index_wf (nil_index\<lparr>ix_Hash := Some Map.empty\<rparr>)"
  by (simp_all add: index_wf_def nil_index_def)

lemma CreateIndex_frame:
  "CreateIndex db = (db', e) \<Longrightarrow> db_Idx db' = db_Idx db \<and> db_bundle db' = db_bundle db \<and> db_Name db' = db_Name db"
  by (auto simp: CreateIndex_def Let_def split: gofile.splits prod.splits)

lemma ReopenIndex_frame:
  "ReopenIndex db = (db', r) \<Longrightarrow> db_Idx db' = db_Idx db \<and> db_bundle db' = db_bundle db \<and> db_Name db' = db_Name db"
  by (auto simp: ReopenIndex_def dest!: CreateIndex_frame split: prod.splits option.splits)

lemma load_opened_wf:
  assumes "index_wf (db_Idx db)" and "load_opened db text = (db', None)"
  shows "index_wf (db_Idx db')"
  using assms clear_topics_wf [OF assms(1)]
  by (auto simp: load_opened_def Let_def dest: load_finish_wf [rotated]
      split: if_splits prod.splits sum.splits)

text \<open>
  Whatever the index file holds: an in-memory index that was well-formed is well-formed after every
  load that reports no error.
\<close>

theorem LoadIndex_wf:
  assumes "index_wf (db_Idx db)" and "LoadIndex db = (db', None)"
  shows "index_wf (db_Idx db')"
proof (cases "db_index db")
  case NoFile
  then obtain db1 s where r: "ReopenIndex (db\<lparr>db_Idx := nil_index\<rparr>) = (db1, Inr s)"
    and l: "load_opened db1 s = (db', None)"
    using assms(2) by (auto simp: LoadIndex_def split: prod.splits sum.splits)
  have "index_wf (db_Idx db1)" using ReopenIndex_frame [OF r] by simp
  then show ?thesis using l by (rule load_opened_wf)
next
  case (File s)
  then show ?thesis using assms load_opened_wf by (simp add: LoadIndex_def)
qed (use assms in \<open>simp add: LoadIndex_def\<close>)

end
