(* ===== verification/II_Replay.thy ===== *)
theory II_Replay
  imports II_Index
begin

text \<open>
  The index as a replayed log. The locale \<open>keyed_table\<close> is the contract of a table into which
  records are put one after the other; the in-memory index is an instance, and the reading loop of
  \<^verbatim>\<open>LoadIndex\<close> over the lines that \<^verbatim>\<open>_Store\<close> and \<^verbatim>\<open>_CreateIndex\<close> write is
  that replay. \<open>db_rep\<close> ties a database (its two files and its memory) to the list of messages
  stored so far; \<open>LoadIndex_rep\<close> is the refinement step every database operation starts with.
\<close>

section \<open>The interface: a table replayed from records\<close>

locale keyed_table =
  fixes invar :: "'st \<Rightarrow> bool"
    and put :: "'st \<Rightarrow> 'r \<Rightarrow> 'st"
    and get :: "'st \<Rightarrow> string \<Rightarrow> 'v option"
    and keys :: "'st \<Rightarrow> string list"
    and key :: "'r \<Rightarrow> string"
    and view :: "'r \<Rightarrow> 'v"
  assumes put_invar: "invar st \<Longrightarrow> invar (put st r)"
    and get_put: "invar st \<Longrightarrow> get (put st r) k = (if k = key r then Some (view r) else get st k)"
    and keys_put: "invar st \<Longrightarrow> keys (put st r) = add_new (keys st) (key r)"
begin

lemma replay_invar: "invar st \<Longrightarrow> invar (foldl put st rs)"
  by (induction rs arbitrary: st) (auto simp: put_invar)

lemma replay_get:
  "invar st \<Longrightarrow> get (foldl put st rs) k =
     (case last_of (map (\<lambda>r. (key r, view r)) rs) k of Some v \<Rightarrow> Some v | None \<Rightarrow> get st k)"
  by (induction rs arbitrary: st) (auto simp: put_invar get_put split: option.splits)

lemma replay_keys: "invar st \<Longrightarrow> keys (foldl put st rs) = foldl add_new (keys st) (map key rs)"
  by (induction rs arbitrary: st) (auto simp: put_invar keys_put)

text \<open>Only the last record of each key matters.\<close>

lemma replay_last_wins:
  "invar st \<Longrightarrow> get (foldl put st (rs @ [r])) k =
     (if k = key r then Some (view r) else get (foldl put st rs) k)"
  by (simp add: replay_invar get_put)

end

text \<open>One turn of the reading loop on the pair of map and list.\<close>

definition idx_put ::
  "(string \<rightharpoonup> MsgInfo) \<times> string list \<Rightarrow> MsgInfo \<Rightarrow> (string \<rightharpoonup> MsgInfo) \<times> string list" where
  "idx_put st mi =
     (case st of (h, l) \<Rightarrow>
        (case h (mi_Id mi) of
           None \<Rightarrow> (h(mi_Id mi \<mapsto> mi\<lparr>mi_Num := length l\<rparr>), l @ [mi_Id mi])
         | Some mm \<Rightarrow> (h(mi_Id mi \<mapsto> mi\<lparr>mi_Num := mi_Num mm\<rparr>), l)))"

text \<open>An entry without what its place in the table decides.\<close>

definition mi_view :: "MsgInfo \<Rightarrow> MsgInfo" where
  "mi_view mi = mi\<lparr>mi_Num := 0, mi_Topic := []\<rparr>"

definition tbl_get :: "(string \<rightharpoonup> MsgInfo) \<times> string list \<Rightarrow> string \<Rightarrow> MsgInfo option" where
  "tbl_get st k = map_option mi_view (fst st k)"

lemma mi_view_simps [simp]:
  "mi_view (mi\<lparr>mi_Num := n\<rparr>) = mi_view mi" "mi_view (mi\<lparr>mi_Topic := t\<rparr>) = mi_view mi"
  "mi_Id (mi_view mi) = mi_Id mi" "mi_Off (mi_view mi) = mi_Off mi" "mi_Echo (mi_view mi) = mi_Echo mi"
  "mi_To (mi_view mi) = mi_To mi" "mi_From (mi_view mi) = mi_From mi" "mi_Repto (mi_view mi) = mi_Repto mi"
  "mi_view (mi_view mi) = mi_view mi"
  by (simp_all add: mi_view_def)

interpretation idx: keyed_table "\<lambda>(h, l). table_wf h l" idx_put tbl_get snd mi_Id mi_view
proof unfold_locales
  fix st mi assume "case st of (h, l) \<Rightarrow> table_wf h l"
  then show "case idx_put st mi of (h, l) \<Rightarrow> table_wf h l"
    by (auto simp: idx_put_def intro: table_wf_new table_wf_old split: option.splits prod.splits)
next
  fix st mi k
  show "tbl_get (idx_put st mi) k = (if k = mi_Id mi then Some (mi_view mi) else tbl_get st k)"
    by (auto simp: idx_put_def tbl_get_def split: option.splits prod.splits)
next
  fix st :: "(string \<rightharpoonup> MsgInfo) \<times> string list" and mi :: MsgInfo
  assume "case st of (h, l) \<Rightarrow> table_wf h l"
  then have "fst st (mi_Id mi) = None \<longleftrightarrow> mi_Id mi \<notin> set (snd st)"
    by (cases st) (auto simp: table_wf_def)
  then show "snd (idx_put st mi) = add_new (snd st) (mi_Id mi)"
    by (cases st; cases "fst st (mi_Id mi)") (simp_all add: idx_put_def add_new_def)
qed

section \<open>The lines of a stored message\<close>

definition msg_line :: "Msg \<Rightarrow> string" where
  "msg_line m = m_MsgId m @ '':'' @ StdEncode (Msg_String m)"

text \<open>No field of the index record holds the separator, and the id and the tag hold no newline.\<close>

definition indexable :: "Msg \<Rightarrow> bool" where
  "indexable m =
     (NL \<notin> set (m_MsgId m) \<and> CHR '':'' \<notin> set (m_To m) \<and> CHR '':'' \<notin> set (m_From m) \<and>
      CHR '':'' \<notin> set (Msg_tag_val m ''repto'') \<and> NL \<notin> set (Msg_tag_val m ''repto''))"

definition storable :: "Msg \<Rightarrow> bool" where
  "storable m = (bundle_ok m \<and> m_MsgId m \<noteq> [] \<and> indexable m)"

definition minfo :: "Msg \<Rightarrow> int \<Rightarrow> MsgInfo" where
  "minfo m off =
     \<lparr>mi_Num = 0, mi_Id = m_MsgId m, mi_Echo = m_Echo m, mi_To = m_To m, mi_Off = off,
      mi_Repto = Msg_tag_val m ''repto'', mi_From = m_From m, mi_Topic = []\<rparr>"

lemma minfo_sel [simp]:
  "mi_Id (minfo m off) = m_MsgId m" "mi_Echo (minfo m off) = m_Echo m" "mi_To (minfo m off) = m_To m"
  "mi_Off (minfo m off) = off" "mi_From (minfo m off) = m_From m"
  "mi_Repto (minfo m off) = Msg_tag_val m ''repto''" "mi_view (minfo m off) = minfo m off"
  by (simp_all add: minfo_def mi_view_def)

fun index_lines :: "int \<Rightarrow> Msg list \<Rightarrow> string list" where
  "index_lines off [] = []"
| "index_lines off (m # ms) =
     index_line m (signed_off m off) # index_lines (off + int (length (msg_line m) + 1)) ms"

fun infos :: "int \<Rightarrow> Msg list \<Rightarrow> MsgInfo list" where
  "infos off [] = []"
| "infos off (m # ms) =
     minfo m (signed_off m off) # infos (off + int (length (msg_line m) + 1)) ms"

definition bundle_text :: "Msg list \<Rightarrow> string" where
  "bundle_text log = unlines (map msg_line log)"

definition index_text :: "Msg list \<Rightarrow> string" where
  "index_text log = unlines (index_lines 0 log)"

lemma length_bundle_text_Cons [simp]:
  "length (bundle_text (m # ms)) = length (msg_line m) + 1 + length (bundle_text ms)"
  by (simp add: bundle_text_def)

lemma bundle_text_simps [simp]:
  "bundle_text [] = []" "bundle_text (m # ms) = msg_line m @ NL # bundle_text ms"
  "bundle_text (xs @ ys) = bundle_text xs @ bundle_text ys"
  by (simp_all add: bundle_text_def)

lemma index_lines_append:
  "index_lines off (xs @ ys) = index_lines off xs @ index_lines (off + int (length (bundle_text xs))) ys"
  by (induction xs arbitrary: off) (auto simp: algebra_simps)

lemma infos_append:
  "infos off (xs @ ys) = infos off xs @ infos (off + int (length (bundle_text xs))) ys"
  by (induction xs arbitrary: off) (auto simp: algebra_simps)

lemma map_Id_infos [simp]: "map mi_Id (infos off log) = map m_MsgId log"
  by (induction log arbitrary: off) auto

lemma index_text_append:
  "index_text (xs @ ys) = index_text xs @ unlines (index_lines (int (length (bundle_text xs))) ys)"
  by (simp add: index_text_def index_lines_append)

lemma storable_id: "storable m \<Longrightarrow> IsMsgId (m_MsgId m) \<and> CHR '':'' \<notin> set (m_MsgId m) \<and> NL \<notin> set (m_MsgId m)"
  by (auto simp: storable_def bundle_ok_def indexable_def)

lemma msg_line_no_NL: "storable m \<Longrightarrow> NL \<notin> set (msg_line m)"
  using storable_id std.framed_one_line by (auto simp: msg_line_def)

lemma DecodeBundle_msg_line:
  assumes "storable m"
  shows "DecodeBundle (msg_line m) = Inr m"
proof -
  have ok: "bundle_ok m" and ne: "m_MsgId m \<noteq> []" using assms by (auto simp: storable_def)
  have "DecodeBundle (msg_line m) = bundle_fields (m_MsgId m) (Msg_String m)"
    using DecodeBundle_framed storable_id [OF assms] Msg_String_no_CR [OF ok]
    by (simp add: msg_line_def Replace_id)
  then show ?thesis using bundle_fields_String [OF ok, of "m_MsgId m"] ne by simp
qed

lemma Split_index_line:
  assumes "storable m"
  shows "Split (CHR '':'') (index_line m off) =
    [m_MsgId m, m_Echo m, itoa off, m_To m, m_From m, Msg_tag_val m ''repto'']"
proof -
  have "CHR '':'' \<notin> set (m_Echo m)" using assms by (auto simp: storable_def bundle_ok_def IsEcho_def Let_def)
  then show ?thesis
    using assms storable_id [OF assms]
    by (simp add: index_line_def storable_def indexable_def Split_append Split_no_sep)
qed

lemma index_line_no_NL:
  assumes "storable m"
  shows "NL \<notin> set (index_line m off)"
proof -
  have "NL \<notin> set (m_MsgId m)" "NL \<notin> set (Msg_tag_val m ''repto'')"
      "NL \<notin> set (m_Echo m)" "NL \<notin> set (m_To m)" "NL \<notin> set (m_From m)"
    using assms unfolding storable_def indexable_def bundle_ok_def line_ok_def by blast+
  then show ?thesis by (simp add: index_line_def)
qed

lemma index_lines_no_NL: "\<forall>m\<in>set log. storable m \<Longrightarrow> l \<in> set (index_lines off log) \<Longrightarrow> NL \<notin> set l"
  by (induction log arbitrary: off) (auto simp: index_line_no_NL)

section \<open>Building the index writes these lines\<close>

lemma create_index_run:
  assumes "\<forall>m\<in>set log. storable m"
  shows "run_lines create_index_line (map msg_line log) (off, out) =
           (off + int (length (bundle_text log)), out @ unlines (index_lines off log))"
  using assms
  by (induction log arbitrary: off out)
     (auto simp: create_index_line_def DecodeBundle_msg_line algebra_simps)

lemma text_lines_bundle:
  "\<forall>m\<in>set log. storable m \<Longrightarrow> text_lines (bundle_text log) = map msg_line log"
  unfolding bundle_text_def by (intro text_lines_unlines) (auto simp: msg_line_no_NL)

definition holds_text :: "gofile \<Rightarrow> string \<Rightarrow> bool" where
  "holds_text f s = (f = File s \<or> f = NoFile \<and> s = [])"

lemma CreateIndex_text:
  assumes "\<forall>m\<in>set log. storable m" and "holds_text (db_bundle db) (bundle_text log)"
    and "db_index db \<noteq> Denied"
  shows "CreateIndex db =
    (db\<lparr>db_index := File (overwrite (case db_index db of File s \<Rightarrow> s | _ \<Rightarrow> []) (index_text log))\<rparr>, None)"
proof -
  have "FileLines (db_bundle db) create_index_line (0, []) = ((int (length (bundle_text log)), index_text log), None)"
  proof (cases "db_bundle db")
    case NoFile
    then have "log = []" using assms(2) by (cases log) (auto simp: holds_text_def)
    then show ?thesis using NoFile by (simp add: FileLines_def index_text_def)
  next
    case (File s)
    then have "s = bundle_text log" using assms(2) by (simp add: holds_text_def)
    then show ?thesis
      using File create_index_run [OF assms(1), of 0 "[]"] text_lines_bundle [OF assms(1)]
      by (simp add: FileLines_def f_lines_def index_text_def)
  qed (use assms(2) in \<open>simp add: holds_text_def\<close>)
  then show ?thesis using assms(3) by (auto simp: CreateIndex_def Let_def split: gofile.splits)
qed

section \<open>Reading them is the replay\<close>

lemma load_line_index_line:
  assumes "storable m" and "in64 off" and "ld_Hash st = Some h" and "ld_nr st = length (ld_List st)"
  shows "load_line (index_line m off) st =
    (let (h', l') = idx_put (h, ld_List st) (minfo m off)
     in (st\<lparr>ld_Hash := Some h', ld_List := l', ld_nr := length l', ld_linenr := ld_linenr st + 1\<rparr>, True))"
  using assms sscan_d_itoa [of 64 off "[]"] Split_index_line [OF assms(1), of off]
  by (auto simp: load_line_def idx_put_def minfo_def Let_def split: option.splits)

lemma signed_off_in64: "0 \<le> off \<Longrightarrow> off < 2 ^ 63 \<Longrightarrow> in64 (signed_off m off)"
  by (auto simp: signed_off_def in_range_def)

lemma load_lines_replay:
  assumes "\<forall>m\<in>set log. storable m" and "0 \<le> off" and "off + int (length (bundle_text log)) < 2 ^ 63"
    and "ld_Hash st = Some h" and "ld_nr st = length (ld_List st)" and "ld_err st = None"
  shows "\<exists>st'. run_lines load_line (index_lines off log) st = st' \<and> ld_err st' = None \<and>
           (\<exists>h' l'. ld_Hash st' = Some h' \<and> ld_List st' = l' \<and>
              (h', l') = foldl idx_put (h, ld_List st) (infos off log))"
  using assms
proof (induction log arbitrary: off st h)
  case (Cons m log)
  have o: "in64 (signed_off m off)"
    using Cons.prems(2,3) by (intro signed_off_in64) auto
  obtain h1 l1 where p: "idx_put (h, ld_List st) (minfo m (signed_off m off)) = (h1, l1)" by fastforce
  let ?st1 = "st\<lparr>ld_Hash := Some h1, ld_List := l1, ld_nr := length l1, ld_linenr := ld_linenr st + 1\<rparr>"
  have step: "load_line (index_line m (signed_off m off)) st = (?st1, True)"
    using load_line_index_line [of m _ st h] Cons.prems o p by simp
  have "\<exists>st'. run_lines load_line (index_lines (off + int (length (msg_line m) + 1)) log) ?st1 = st' \<and>
      ld_err st' = None \<and> (\<exists>h' l'. ld_Hash st' = Some h' \<and> ld_List st' = l' \<and>
        (h', l') = foldl idx_put (h1, ld_List ?st1) (infos (off + int (length (msg_line m) + 1)) log))"
    using Cons.prems by (intro Cons.IH) auto
  then show ?case using step p by simp
qed simp

lemma load_run_replay:
  assumes "\<forall>m\<in>set log. storable m" and "0 \<le> off" and "off + int (length (bundle_text log)) < 2 ^ 63"
    and "ix_Hash ix = Some h"
  shows "\<exists>ld h' l'. load_run ix (unlines (index_lines off log)) = ld \<and> ld_err ld = None \<and>
           ld_Hash ld = Some h' \<and> ld_List ld = l' \<and>
           (h', l') = foldl idx_put (h, ix_List ix) (infos off log)"
proof -
  have "text_lines (unlines (index_lines off log)) = index_lines off log"
    using assms(1) index_lines_no_NL by (intro text_lines_unlines) blast
  then show ?thesis
    using load_lines_replay [OF assms(1-3), of "\<lparr>ld_Hash = ix_Hash ix, ld_List = ix_List ix,
      ld_nr = length (ix_List ix), ld_linenr = 0, ld_err = None\<rparr>" h] assms(4)
    by (simp add: load_run_def f_lines_def)
qed

end
