(* ===== verification/II_DB.thy ===== *)
theory II_DB
  imports II_Replay
begin

text \<open>
  The database operations (\<^verbatim>\<open>ii/db.go\<close>, from \<^verbatim>\<open>_Lookup\<close> to
  \<^verbatim>\<open>OpenDB\<close>): looking messages up, reading their bundles, storing, editing and
  blacklisting. Every operation takes the database and returns it, since each of them may read the
  index first. The abstract specification is the list of messages stored so far; \<open>spec_get\<close> is what
  a reader may see of it, and \<open>db_rep\<close> relates the files and the memory of a database to the list.
\<close>

section \<open>Operations\<close>

text \<open>\<^verbatim>\<open>_Lookup(Id, bl, idx)\<close>\<close>

definition DB_Lookup :: "DB \<Rightarrow> string \<Rightarrow> bool \<Rightarrow> bool \<Rightarrow> DB \<times> MsgInfo option" where
  "DB_Lookup db mid bl idx =
     (let (db, err) = (if idx then LoadIndex db else (db, None)) in
      if err \<noteq> None then (db, None)
      else (case map_get (ix_Hash (db_Idx db)) mid of
              None \<Rightarrow> (db, None)
            | Some info \<Rightarrow> (db, if \<not> bl \<and> mi_Off info < 0 then None else Some info)))"

definition LookupFast :: "DB \<Rightarrow> string \<Rightarrow> bool \<Rightarrow> MsgInfo option" where
  "LookupFast db mid bl = (if mid = [] then None else snd (DB_Lookup db mid bl False))"

definition Lookup :: "DB \<Rightarrow> string \<Rightarrow> DB \<times> MsgInfo option" where
  "Lookup db mid = DB_Lookup db mid False True"

definition Exists :: "DB \<Rightarrow> string \<Rightarrow> DB \<times> MsgInfo option" where
  "Exists db mid = DB_Lookup db mid True True"

fun LookupIDS :: "DB \<Rightarrow> string list \<Rightarrow> DB \<times> MsgInfo list" where
  "LookupIDS db [] = (db, [])"
| "LookupIDS db (mid # ids) =
     (let (db, i) = DB_Lookup db mid False True;
          (db, info) = LookupIDS db ids
      in (db, case i of None \<Rightarrow> info | Some mi \<Rightarrow> mi # info))"

text \<open>The first full line at an offset, the empty string if there is none.\<close>

definition line_at :: "string \<Rightarrow> int \<Rightarrow> string" where
  "line_at s off = f_lines (\<lambda>line _. (line, False)) (drop (nat off) s) []"

definition DB_GetBundle :: "DB \<Rightarrow> string \<Rightarrow> bool \<Rightarrow> bool \<Rightarrow> DB \<times> string \<times> MsgInfo option" where
  "DB_GetBundle db mid idx bl =
     (case DB_Lookup db mid bl idx of
        (db, None) \<Rightarrow> (db, [], None)
      | (db, Some info) \<Rightarrow>
          (case db_bundle db of
             File s \<Rightarrow>
               (let off = (if mi_Off info < 0 then - mi_Off info else mi_Off info)
                in (db, line_at s off, Some info))
           | _ \<Rightarrow> (db, [], None)))"

definition GetBundle :: "DB \<Rightarrow> string \<Rightarrow> DB \<times> string" where
  "GetBundle db mid = (case DB_GetBundle db mid True False of (db, b, _) \<Rightarrow> (db, b))"

definition GetBundleAll :: "DB \<Rightarrow> string \<Rightarrow> DB \<times> string" where
  "GetBundleAll db mid = (case DB_GetBundle db mid True True of (db, b, _) \<Rightarrow> (db, b))"

definition GetBundleInfo :: "DB \<Rightarrow> string \<Rightarrow> DB \<times> string \<times> MsgInfo option" where
  "GetBundleInfo db mid = DB_GetBundle db mid True False"

definition decode_found :: "string \<Rightarrow> Msg option" where
  "decode_found bundle =
     (if bundle = [] then None
      else (case DecodeBundle bundle of Inl _ \<Rightarrow> None | Inr m \<Rightarrow> Some m))"

definition Get :: "DB \<Rightarrow> string \<Rightarrow> DB \<times> Msg option" where
  "Get db mid = (case GetBundle db mid of (db, b) \<Rightarrow> (db, decode_found b))"

definition GetFast :: "DB \<Rightarrow> string \<Rightarrow> Msg option" where
  "GetFast db mid = (case DB_GetBundle db mid False False of (_, b, _) \<Rightarrow> decode_found b)"

text \<open>
  \<^verbatim>\<open>_Store\<close>: the caller's message is filled in by \<^verbatim>\<open>Encode\<close>, so it is returned too.
\<close>

definition DB_Store :: "int \<Rightarrow> DB \<Rightarrow> Msg \<Rightarrow> bool \<Rightarrow> DB \<times> Msg \<times> ii_error option" where
  "DB_Store now db m edit =
     (case LoadIndex db of
        (db, Some e) \<Rightarrow> (db, m, Some e)
      | (db, None) \<Rightarrow>
          if map_get (ix_Hash (db_Idx db)) (m_MsgId m) \<noteq> None \<and> \<not> edit
          then (db, m, Some EAlreadyExists)
          else let off = (case db_bundle db of File s \<Rightarrow> int (length s) | _ \<Rightarrow> 0);
                   off = signed_off m off;
                   (m, line) = Encode now m in
          (case append_file (db_bundle db) line of
             Inl e \<Rightarrow> (db, m, Some e)
           | Inr f \<Rightarrow>
               let db = db\<lparr>db_bundle := f\<rparr> in
               (case append_file (db_index db) (index_line m off) of
                  Inl e \<Rightarrow> (db, m, Some e)
                | Inr f \<Rightarrow> (db\<lparr>db_index := f\<rparr>, m, None))))"

definition Store :: "int \<Rightarrow> DB \<Rightarrow> Msg \<Rightarrow> DB \<times> Msg \<times> ii_error option" where
  "Store now db m = DB_Store now db m False"

definition Edit :: "int \<Rightarrow> DB \<Rightarrow> Msg \<Rightarrow> DB \<times> Msg \<times> ii_error option" where
  "Edit now db m = DB_Store now db m True"

definition Blacklist :: "int \<Rightarrow> DB \<Rightarrow> Msg \<Rightarrow> DB \<times> Msg \<times> ii_error option" where
  "Blacklist now db m =
     Edit now db (m\<lparr>m_Tags := add_tag (m_Tags m) ''access/blacklist''\<rparr>)"

text \<open>\<^verbatim>\<open>OpenDB\<close>: \<open>dir\<close> says that the directory of the path exists.\<close>

definition OpenDB :: "bool \<Rightarrow> gofile \<Rightarrow> gofile \<Rightarrow> DB option" where
  "OpenDB dir bundle index =
     (if \<not> dir then None
      else Some \<lparr>db_bundle = bundle, db_index = index, db_Idx = nil_index, db_Name = ''node''\<rparr>)"

section \<open>The abstract log\<close>

text \<open>The newest version of a message with its position in the log.\<close>

definition newest :: "Msg list \<Rightarrow> string \<Rightarrow> (nat \<times> Msg) option" where
  "newest log mid = last_of (map (\<lambda>(i, m). (m_MsgId m, (i, m))) (enumerate 0 log)) mid"

text \<open>
  A message is hidden if its newest version carries the blacklist tag and is not the first record of
  the database: the offset of the first record is 0, and \<open>-0\<close> is no mark.
\<close>

definition hidden :: "nat \<Rightarrow> Msg \<Rightarrow> bool" where
  "hidden i m = (blacklisted m \<and> 0 < i)"

definition spec_get :: "Msg list \<Rightarrow> string \<Rightarrow> Msg option" where
  "spec_get log mid =
     (case newest log mid of None \<Rightarrow> None | Some (i, m) \<Rightarrow> if hidden i m then None else Some m)"

definition spec_exists :: "Msg list \<Rightarrow> string \<Rightarrow> bool" where
  "spec_exists log mid = (mid \<in> set (map m_MsgId log))"

lemma newest_Nil [simp]: "newest [] mid = None"
  by (simp add: newest_def)

lemma newest_snoc:
  "newest (log @ [m]) mid = (if m_MsgId m = mid then Some (length log, m) else newest log mid)"
  by (simp add: newest_def enumerate_append_eq last_of_append)

lemma newest_Some:
  "newest log mid = Some (i, m) \<Longrightarrow> i < length log \<and> log ! i = m \<and> m_MsgId m = mid"
proof (induction log rule: rev_induct)
  case (snoc x log)
  then show ?case by (auto simp: newest_snoc nth_append split: if_splits)
qed simp

lemma newest_None_iff: "newest log mid = None \<longleftrightarrow> \<not> spec_exists log mid"
  by (induction log rule: rev_induct) (auto simp: newest_snoc spec_exists_def)

lemma spec_get_snoc:
  "spec_get (log @ [m]) mid =
     (if m_MsgId m = mid then (if hidden (length log) m then None else Some m) else spec_get log mid)"
  by (simp add: spec_get_def newest_snoc)

section \<open>Representation\<close>

definition mem_loaded :: "Index \<Rightarrow> Msg list \<Rightarrow> bool" where
  "mem_loaded ix log =
     (\<exists>h. ix_Hash ix = Some h \<and> ix_FileSize ix = int (length (index_text log)) \<and>
          table_wf h (ix_List ix) \<and>
          ix_List ix = snd (foldl idx_put (Map.empty, []) (infos 0 log)) \<and>
          tbl_get (h, ix_List ix) = tbl_get (foldl idx_put (Map.empty, []) (infos 0 log)))"

definition mem_rep :: "Index \<Rightarrow> Msg list \<Rightarrow> bool" where
  "mem_rep ix log = (ix_Hash ix = None \<and> ix_List ix = [] \<or> (\<exists>k \<le> length log. mem_loaded ix (take k log)))"

definition db_rep :: "DB \<Rightarrow> Msg list \<Rightarrow> bool" where
  "db_rep db log =
     ((\<forall>m\<in>set log. storable m) \<and> int (length (bundle_text log)) < 2 ^ 63 \<and>
      holds_text (db_bundle db) (bundle_text log) \<and>
      (db_index db = NoFile \<or> db_index db = File (index_text log)) \<and>
      mem_rep (db_Idx db) log)"

text \<open>The same after a load: the whole index file is in memory.\<close>

definition db_loaded :: "DB \<Rightarrow> Msg list \<Rightarrow> bool" where
  "db_loaded db log =
     ((\<forall>m\<in>set log. storable m) \<and> int (length (bundle_text log)) < 2 ^ 63 \<and>
      holds_text (db_bundle db) (bundle_text log) \<and> db_index db = File (index_text log) \<and>
      mem_loaded (db_Idx db) log)"

lemma db_loaded_rep: "db_loaded db log \<Longrightarrow> db_rep db log"
  unfolding db_loaded_def db_rep_def mem_rep_def by (metis order_refl take_all)

lemma wf_empty_table: "case (Map.empty, []) of (h, l) \<Rightarrow> table_wf h l"
  by simp

lemma idx_get_put: "tbl_get (idx_put st mi) k = (if k = mi_Id mi then Some (mi_view mi) else tbl_get st k)"
  by (auto simp: idx_put_def tbl_get_def split: option.splits prod.splits)

lemma tbl_get_None: "tbl_get (h, l) k = None \<longleftrightarrow> h k = None"
  by (simp add: tbl_get_def)

text \<open>Two tables that agree up to topics and list the same keys stay so under further records.\<close>

lemma replay_cong:
  assumes "table_wf h l" "table_wf h' l'" "l = l'" "tbl_get (h, l) = tbl_get (h', l')"
  shows "let (h1, l1) = foldl idx_put (h, l) mis; (h2, l2) = foldl idx_put (h', l') mis
         in table_wf h1 l1 \<and> table_wf h2 l2 \<and> l1 = l2 \<and> tbl_get (h1, l1) = tbl_get (h2, l2)"
proof -
  have w1: "case foldl idx_put (h, l) mis of (h, l) \<Rightarrow> table_wf h l"
    using assms(1) by (intro idx.replay_invar) simp
  have w2: "case foldl idx_put (h', l') mis of (h, l) \<Rightarrow> table_wf h l"
    using assms(2) by (intro idx.replay_invar) simp
  have "snd (foldl idx_put (h, l) mis) = snd (foldl idx_put (h', l') mis)"
    using assms by (simp add: idx.replay_keys)
  moreover have "tbl_get (foldl idx_put (h, l) mis) = tbl_get (foldl idx_put (h', l') mis)"
    using assms by (intro ext) (simp add: idx.replay_get split: option.splits)
  ultimately show ?thesis using w1 w2 by (auto split: prod.splits)
qed

lemma load_finish_replay:
  assumes st: "\<forall>m\<in>set (xs @ ys). storable m" "int (length (bundle_text (xs @ ys))) < 2 ^ 63"
    and ix: "ix_Hash ix = Some h" "table_wf h (ix_List ix)"
      "ix_List ix = snd (foldl idx_put (Map.empty, []) (infos 0 xs))"
      "tbl_get (h, ix_List ix) = tbl_get (foldl idx_put (Map.empty, []) (infos 0 xs))"
    and fs: "fsize = int (length (index_text (xs @ ys)))"
  shows "\<exists>ix'. load_finish db ix shared fsize (unlines (index_lines (int (length (bundle_text xs))) ys))
            = (db\<lparr>db_Idx := ix'\<rparr>, None) \<and> mem_loaded ix' (xs @ ys)"
proof -
  let ?off = "int (length (bundle_text xs))"
  obtain ld h' l' where ld: "load_run ix (unlines (index_lines ?off ys)) = ld" "ld_err ld = None"
      "ld_Hash ld = Some h'" "ld_List ld = l'" "(h', l') = foldl idx_put (h, ix_List ix) (infos ?off ys)"
    using load_run_replay [of ys ?off ix h] st ix(1) by auto
  obtain h0 l0 where h0: "foldl idx_put (Map.empty, []) (infos 0 xs) = (h0, l0)" by fastforce
  have "table_wf h0 l0" using idx.replay_invar [OF wf_empty_table, of "infos 0 xs"] h0 by simp
  then have "table_wf h' l' \<and> l' = snd (foldl idx_put (h0, l0) (infos ?off ys)) \<and>
      tbl_get (h', l') = tbl_get (foldl idx_put (h0, l0) (infos ?off ys))"
    using replay_cong [of h "ix_List ix" h0 l0 "infos ?off ys"] ix h0 ld(5)
    by (auto simp: Let_def split: prod.splits)
  moreover have "foldl idx_put (Map.empty, []) (infos 0 (xs @ ys)) = foldl idx_put (h0, l0) (infos ?off ys)"
    by (simp add: infos_append h0)
  ultimately show ?thesis
    using ld fs by (auto simp: load_finish_def mem_loaded_def)
qed

lemma mem_loaded_empty_start:
  assumes "\<forall>m\<in>set log. storable m" "int (length (bundle_text log)) < 2 ^ 63"
  shows "\<exists>ix'. load_finish db (nil_index\<lparr>ix_Hash := Some Map.empty\<rparr>) shared
            (int (length (index_text log))) (index_text log) = (db\<lparr>db_Idx := ix'\<rparr>, None) \<and> mem_loaded ix' log"
  using load_finish_replay [of "[]" log "nil_index\<lparr>ix_Hash := Some Map.empty\<rparr>" Map.empty
      "int (length (index_text log))" db shared] assms
  by (simp add: nil_index_def index_text_def)

lemma table_wf_clear:
  "table_wf h l \<Longrightarrow> table_wf (\<lambda>k. map_option (\<lambda>mi. mi\<lparr>mi_Topic := []\<rparr>) (h k)) l"
  by (auto simp: table_wf_def dom_def split: option.splits)

lemma mem_loaded_clear:
  assumes "mem_loaded ix log"
  shows "mem_loaded (clear_topics ix) log"
proof -
  obtain h where h: "ix_Hash ix = Some h" "table_wf h (ix_List ix)"
      "tbl_get (h, ix_List ix) = tbl_get (foldl idx_put (Map.empty, []) (infos 0 log))"
    using assms by (auto simp: mem_loaded_def)
  let ?h = "\<lambda>k. map_option (\<lambda>mi. mi\<lparr>mi_Topic := []\<rparr>) (h k)"
  have "tbl_get (?h, ix_List ix) = tbl_get (h, ix_List ix)"
    by (auto simp: tbl_get_def fun_eq_iff option.map_comp comp_def)
  then show ?thesis
    using assms h table_wf_clear [OF h(2)]
    by (simp add: mem_loaded_def clear_topics_def)
qed

lemma index_lines_Nil_text: "index_text (xs @ ys) = index_text xs \<Longrightarrow> ys = []"
  by (cases ys) (auto simp: index_text_append)

text \<open>The refinement step: a load brings the whole log into memory and changes nothing else.\<close>

lemma load_opened_rep:
  assumes rep: "db_rep db log" and idx: "db_index db = File (index_text log)"
  shows "\<exists>ix'. load_opened db (index_text log) = (db\<lparr>db_Idx := ix'\<rparr>, None) \<and> mem_loaded ix' log"
proof -
  have st: "\<forall>m\<in>set log. storable m" "int (length (bundle_text log)) < 2 ^ 63"
    using rep by (auto simp: db_rep_def)
  show ?thesis
  proof (cases "ix_Hash (db_Idx db)")
    case None
    then show ?thesis using mem_loaded_empty_start [OF st] by (simp add: load_opened_def)
  next
    case (Some h)
    then obtain k where k: "k \<le> length log" "mem_loaded (db_Idx db) (take k log)"
      using rep by (auto simp: db_rep_def mem_rep_def)
    let ?xs = "take k log" and ?ys = "drop k log"
    have fs: "ix_FileSize (db_Idx db) = int (length (index_text ?xs))"
      using k by (auto simp: mem_loaded_def)
    have tx: "index_text log = index_text ?xs @ unlines (index_lines (int (length (bundle_text ?xs))) ?ys)"
      using index_text_append [of ?xs ?ys] by simp
    show ?thesis
    proof (cases "?ys = []")
      case True
      then have "?xs = log" using k(1) by simp
      then have "load_opened db (index_text log) = (db, None)" using Some fs by (simp add: load_opened_def)
      then show ?thesis using k(2) \<open>?xs = log\<close> by (intro exI [of _ "db_Idx db"]) simp
    next
      case False
      then have "length (index_text ?xs) < length (index_text log)"
        using index_lines_Nil_text [of ?xs ?ys] unfolding tx by (cases ?ys) auto
      then have l: "load_opened db (index_text log) =
          load_finish db (clear_topics (db_Idx db)) True (int (length (index_text log)))
            (unlines (index_lines (int (length (bundle_text ?xs))) ?ys))"
        using Some fs tx by (simp add: load_opened_def)
      obtain h' where "ix_Hash (clear_topics (db_Idx db)) = Some h'"
          "table_wf h' (ix_List (clear_topics (db_Idx db)))"
          "ix_List (clear_topics (db_Idx db)) = snd (foldl idx_put (Map.empty, []) (infos 0 ?xs))"
          "tbl_get (h', ix_List (clear_topics (db_Idx db))) = tbl_get (foldl idx_put (Map.empty, []) (infos 0 ?xs))"
        using mem_loaded_clear [OF k(2)] by (auto simp: mem_loaded_def)
      from load_finish_replay [OF _ _ this, of ?ys "int (length (index_text log))" db True] st
      show ?thesis unfolding l by simp
    qed
  qed
qed

theorem LoadIndex_rep:
  assumes "db_rep db log"
  shows "\<exists>ix'. LoadIndex db = (db\<lparr>db_index := File (index_text log), db_Idx := ix'\<rparr>, None) \<and>
           db_loaded (db\<lparr>db_index := File (index_text log), db_Idx := ix'\<rparr>) log"
proof (cases "db_index db = NoFile")
  case True
  have st: "\<forall>m\<in>set log. storable m" "holds_text (db_bundle db) (bundle_text log)"
    using assms by (auto simp: db_rep_def)
  let ?db0 = "db\<lparr>db_Idx := nil_index\<rparr>"
  let ?db1 = "?db0\<lparr>db_index := File (index_text log)\<rparr>"
  have "CreateIndex ?db0 = (?db1, None)"
    using CreateIndex_text [of log ?db0] st True by (simp add: overwrite_def)
  then have re: "ReopenIndex ?db0 = (?db1, Inr (index_text log))" by (simp add: ReopenIndex_def)
  have "db_rep ?db1 log" using assms by (simp add: db_rep_def mem_rep_def nil_index_def)
  then obtain ix' where "load_opened ?db1 (index_text log) = (?db1\<lparr>db_Idx := ix'\<rparr>, None)" "mem_loaded ix' log"
    using load_opened_rep [of ?db1 log] by auto
  then show ?thesis using True re assms by (auto simp: LoadIndex_def db_loaded_def db_rep_def)
next
  case False
  then have f: "db_index db = File (index_text log)" using assms by (auto simp: db_rep_def)
  then have e: "db\<lparr>db_index := File (index_text log), db_Idx := ix'\<rparr> = db\<lparr>db_Idx := ix'\<rparr>" for ix'
    by (cases db) simp
  show ?thesis
    using load_opened_rep [OF assms f] assms f unfolding e by (simp add: LoadIndex_def db_loaded_def db_rep_def)
qed

section \<open>Lookups and reads on a loaded database\<close>

text \<open>What the replay finds for an id: the entry of the newest version, at its offset.\<close>

definition msg_off :: "Msg list \<Rightarrow> nat \<Rightarrow> int" where
  "msg_off log i = int (length (bundle_text (take i log)))"

lemma replay_entry:
  "tbl_get (foldl idx_put (Map.empty, []) (infos 0 log)) mid =
     (case newest log mid of None \<Rightarrow> None
      | Some (i, m) \<Rightarrow> Some (minfo m (signed_off m (msg_off log i))))"
proof (induction log rule: rev_induct)
  case Nil
  then show ?case by (simp add: tbl_get_def)
next
  case (snoc m log)
  show ?case
  proof (cases "m_MsgId m = mid")
    case True
    then show ?thesis by (simp add: newest_snoc infos_append idx_get_put msg_off_def)
  next
    case False
    then show ?thesis
      using snoc newest_Some [of log mid]
      by (auto simp: newest_snoc infos_append idx_get_put msg_off_def split: option.splits)
  qed
qed

lemma mem_loaded_get:
  assumes "mem_loaded ix log"
  shows "map_option mi_view (map_get (ix_Hash ix) mid) =
     (case newest log mid of None \<Rightarrow> None
      | Some (i, m) \<Rightarrow> Some (minfo m (signed_off m (msg_off log i))))"
proof -
  obtain h where h: "ix_Hash ix = Some h"
      "tbl_get (h, ix_List ix) = tbl_get (foldl idx_put (Map.empty, []) (infos 0 log))"
    using assms by (auto simp: mem_loaded_def)
  have "tbl_get (h, ix_List ix) mid = map_option mi_view (h mid)" by (simp add: tbl_get_def)
  then show ?thesis using h replay_entry by simp
qed

lemma mem_loaded_List: "mem_loaded ix log \<Longrightarrow> ix_List ix = first_occurrences (map m_MsgId log)"
  unfolding mem_loaded_def
  using idx.replay_keys [OF wf_empty_table, of "infos 0 log"] by (auto simp: first_occurrences_def)

lemma bundle_text_pos: "i < length log \<Longrightarrow> 0 < i \<Longrightarrow> 0 < msg_off log i"
  by (cases log; cases i) (auto simp: msg_off_def)

lemma msg_off_0 [simp]: "msg_off log 0 = 0"
  by (simp add: msg_off_def)

lemma msg_off_nonneg [simp]: "0 \<le> msg_off log i"
  by (simp add: msg_off_def)

lemma signed_off_hidden: "i < length log \<Longrightarrow> signed_off m (msg_off log i) < 0 \<longleftrightarrow> hidden i m"
  using bundle_text_pos [of i log] by (cases "i = 0") (auto simp: signed_off_def hidden_def)

lemma abs_signed_off:
  "(if signed_off m off < 0 then - signed_off m off else signed_off m off) = off" if "0 \<le> off"
  using that by (auto simp: signed_off_def)

lemma line_at_log:
  assumes "\<forall>m\<in>set log. storable m" and "i < length log"
  shows "line_at (bundle_text log) (msg_off log i) = msg_line (log ! i)"
proof -
  have "bundle_text log = bundle_text (take i log) @ msg_line (log ! i) @ NL # bundle_text (drop (Suc i) log)"
    using arg_cong [OF id_take_nth_drop [OF assms(2)], of bundle_text] by simp
  then have "drop (nat (msg_off log i)) (bundle_text log)
      = msg_line (log ! i) @ NL # bundle_text (drop (Suc i) log)"
    by (simp add: msg_off_def)
  moreover have "NL \<notin> set (msg_line (log ! i))" using assms by (simp add: msg_line_no_NL)
  ultimately show ?thesis by (simp add: line_at_def f_lines_def text_lines_Cons)
qed

text \<open>The entry a lookup returns describes the newest version.\<close>

lemma DB_Lookup_loaded:
  assumes "db_loaded db log"
  shows "fst (DB_Lookup db mid bl False) = db \<and>
    map_option mi_view (snd (DB_Lookup db mid bl False)) =
     (case newest log mid of None \<Rightarrow> None
      | Some (i, m) \<Rightarrow> if \<not> bl \<and> hidden i m then None else Some (minfo m (signed_off m (msg_off log i))))"
proof -
  have get: "map_option mi_view (map_get (ix_Hash (db_Idx db)) mid) =
     (case newest log mid of None \<Rightarrow> None
      | Some (i, m) \<Rightarrow> Some (minfo m (signed_off m (msg_off log i))))"
    using assms by (intro mem_loaded_get) (simp add: db_loaded_def)
  show ?thesis
  proof (cases "map_get (ix_Hash (db_Idx db)) mid")
    case None
    then show ?thesis using get by (auto simp: DB_Lookup_def split: option.splits prod.splits)
  next
    case (Some info)
    then obtain i m where n: "newest log mid = Some (i, m)"
        and v: "mi_view info = minfo m (signed_off m (msg_off log i))"
      using get by (auto split: option.splits prod.splits)
    then have "mi_Off info = signed_off m (msg_off log i)"
      by (metis minfo_sel(4) mi_view_simps(4))
    then show ?thesis
      using Some n v newest_Some [OF n] signed_off_hidden [of i log m]
      by (auto simp: DB_Lookup_def)
  qed
qed

lemma DB_GetBundle_loaded:
  assumes "db_loaded db log"
  shows "fst (DB_GetBundle db mid False bl) = db \<and>
    fst (snd (DB_GetBundle db mid False bl)) =
      (case newest log mid of None \<Rightarrow> []
       | Some (i, m) \<Rightarrow> if \<not> bl \<and> hidden i m then [] else msg_line m)"
proof (cases "snd (DB_Lookup db mid bl False)")
  case None
  then have "DB_Lookup db mid bl False = (db, None)"
    using DB_Lookup_loaded [OF assms, of mid bl] by (cases "DB_Lookup db mid bl False") auto
  then show ?thesis
    using DB_Lookup_loaded [OF assms, of mid bl]
    by (auto simp: DB_GetBundle_def split: option.splits prod.splits if_splits)
next
  case (Some info)
  then have l: "DB_Lookup db mid bl False = (db, Some info)"
    using DB_Lookup_loaded [OF assms, of mid bl] by (cases "DB_Lookup db mid bl False") auto
  then obtain i m where n: "newest log mid = Some (i, m)" and h: "\<not> (\<not> bl \<and> hidden i m)"
      and v: "mi_view info = minfo m (signed_off m (msg_off log i))"
    using DB_Lookup_loaded [OF assms, of mid bl] by (auto split: option.splits prod.splits if_splits)
  have off: "mi_Off info = signed_off m (msg_off log i)" by (metis v minfo_sel(4) mi_view_simps(4))
  have i: "i < length log" "log ! i = m" using newest_Some [OF n] by auto
  have "db_bundle db = File (bundle_text log)"
    using assms i(1) by (cases log) (auto simp: db_loaded_def holds_text_def)
  moreover have "line_at (bundle_text log) (msg_off log i) = msg_line m"
    using line_at_log [of log i] assms i by (auto simp: db_loaded_def)
  ultimately show ?thesis
    using l n h off abs_signed_off [OF msg_off_nonneg, of m log i] by (auto simp: DB_GetBundle_def Let_def)
qed

lemma decode_found_msg_line: "storable m \<Longrightarrow> decode_found (msg_line m) = Some m"
  using DecodeBundle_msg_line [of m] by (simp add: decode_found_def msg_line_def)

lemma decode_found_Nil: "decode_found [] = None"
  by (simp add: decode_found_def)

lemma GetFast_loaded:
  assumes "db_loaded db log"
  shows "GetFast db mid = spec_get log mid"
proof -
  have "storable m" if "newest log mid = Some (i, m)" for i m
    using assms newest_Some [OF that] nth_mem by (fastforce simp: db_loaded_def)
  then show ?thesis
    using DB_GetBundle_loaded [OF assms, of mid False]
    by (auto simp: GetFast_def spec_get_def decode_found_msg_line decode_found_Nil
        split: option.splits prod.splits if_splits)
qed

section \<open>The operations refine the log\<close>

lemma DB_Lookup_idx:
  assumes "db_rep db log"
  shows "\<exists>db'. db_loaded db' log \<and> DB_Lookup db mid bl True = DB_Lookup db' mid bl False \<and>
           DB_GetBundle db mid True bl = DB_GetBundle db' mid False bl \<and> db_Name db' = db_Name db"
  using LoadIndex_rep [OF assms] by (auto simp: DB_Lookup_def DB_GetBundle_def)

theorem Get_rep:
  assumes "db_rep db log"
  shows "snd (Get db mid) = spec_get log mid \<and> db_loaded (fst (Get db mid)) log"
proof -
  obtain db' where db': "db_loaded db' log" "DB_GetBundle db mid True False = DB_GetBundle db' mid False False"
    using DB_Lookup_idx [OF assms] by metis
  then have "Get db mid = (db', GetFast db' mid)"
    using DB_GetBundle_loaded [OF db'(1), of mid False]
    by (auto simp: Get_def GetBundle_def GetFast_def split: prod.splits)
  then show ?thesis using GetFast_loaded [OF db'(1)] db'(1) by simp
qed

theorem Exists_rep:
  assumes "db_rep db log"
  shows "(snd (Exists db mid) \<noteq> None \<longleftrightarrow> spec_exists log mid) \<and> db_loaded (fst (Exists db mid)) log"
proof -
  obtain db' where db': "db_loaded db' log" "DB_Lookup db mid True True = DB_Lookup db' mid True False"
    using DB_Lookup_idx [OF assms] by metis
  then have "map_option mi_view (snd (Exists db mid)) = None \<longleftrightarrow> newest log mid = None"
    using DB_Lookup_loaded [OF db'(1), of mid True] by (auto simp: Exists_def split: option.splits)
  then show ?thesis
    using DB_Lookup_loaded [OF db'(1), of mid True] db' newest_None_iff [of log mid] by (auto simp: Exists_def)
qed

lemma append_file_bundle:
  "holds_text f s \<Longrightarrow> append_file f l = Inr (File (s @ l @ [NL]))"
  by (auto simp: holds_text_def append_file_def)

lemma mem_loaded_rep: "mem_loaded ix log \<Longrightarrow> mem_rep ix (log @ ms)"
  unfolding mem_rep_def by (intro disjI2 exI [of _ "length log"]) simp

lemma DB_Store_loaded:
  assumes loaded: "db_loaded db log" and ok: "storable (filled now m)"
    and size: "int (length (bundle_text (log @ [filled now m]))) < 2 ^ 63"
  shows "db_rep (db\<lparr>db_bundle := File (bundle_text (log @ [filled now m])),
                   db_index := File (index_text (log @ [filled now m]))\<rparr>) (log @ [filled now m])"
  using assms mem_loaded_rep [of "db_Idx db" log]
  by (auto simp: db_loaded_def db_rep_def holds_text_def)

text \<open>Storing appends the message as filled in; with \<open>edit\<close> off, an id that is stored already is refused.\<close>

theorem DB_Store_rep:
  assumes rep: "db_rep db log" and ok: "storable (filled now m)"
    and size: "int (length (bundle_text (log @ [filled now m]))) < 2 ^ 63"
  shows "case DB_Store now db m edit of (db', m', err) \<Rightarrow>
    if spec_exists log (m_MsgId m) \<and> \<not> edit
    then err = Some EAlreadyExists \<and> m' = m \<and> db_loaded db' log
    else err = None \<and> m' = filled now m \<and> db_rep db' (log @ [filled now m])"
proof -
  obtain ix' where l: "LoadIndex db = (db\<lparr>db_index := File (index_text log), db_Idx := ix'\<rparr>, None)"
      and ld: "db_loaded (db\<lparr>db_index := File (index_text log), db_Idx := ix'\<rparr>) log"
    using LoadIndex_rep [OF rep] by blast
  let ?db = "db\<lparr>db_index := File (index_text log), db_Idx := ix'\<rparr>" and ?f = "filled now m"
  have "map_get (ix_Hash ix') (m_MsgId m) \<noteq> None \<longleftrightarrow> newest log (m_MsgId m) \<noteq> None"
    using mem_loaded_get [of ix' log "m_MsgId m"] ld
    by (auto simp: db_loaded_def split: option.splits prod.splits)
  then have ex: "map_get (ix_Hash ix') (m_MsgId m) \<noteq> None \<longleftrightarrow> spec_exists log (m_MsgId m)"
    using newest_None_iff [of log "m_MsgId m"] by simp
  have echo: "m_Echo m \<noteq> []" using ok IsEcho_nonempty
    by (auto simp: storable_def bundle_ok_def filled_def stamped_def Let_def split: if_splits)
  have enc: "Encode now m = (?f, msg_line ?f)"
    unfolding Encode_filled [OF echo] msg_line_def by (simp add: filled_def Let_def)
  have tags: "m_Tags ?f = m_Tags m" by (simp add: filled_def stamped_def Let_def)
  have bun: "holds_text (db_bundle db) (bundle_text log)" using rep by (simp add: db_rep_def)
  have off: "(case db_bundle db of File s \<Rightarrow> int (length s) | _ \<Rightarrow> 0) = int (length (bundle_text log))"
    using bun by (auto simp: holds_text_def)
  have sg: "signed_off m o' = signed_off ?f o'" for o'
    by (simp add: signed_off_def blacklisted_def Msg_tag_val_def tags)
  have ab: "append_file (db_bundle db) (msg_line ?f) = Inr (File (bundle_text (log @ [?f])))"
    by (simp add: append_file_bundle [OF bun])
  have ai: "append_file (File (index_text log)) (index_line ?f (signed_off ?f (int (length (bundle_text log)))))
      = Inr (File (index_text (log @ [?f])))"
    by (simp add: index_text_append append_file_def)
  have "DB_Store now db m edit =
    (if spec_exists log (m_MsgId m) \<and> \<not> edit then (?db, m, Some EAlreadyExists)
     else (?db\<lparr>db_bundle := File (bundle_text (log @ [?f])), db_index := File (index_text (log @ [?f]))\<rparr>, ?f, None))"
    using ex by (simp add: DB_Store_def l enc off sg ab ai Let_def del: bundle_text_simps)
  then show ?thesis
    using ld DB_Store_loaded [OF ld ok size] by (simp del: bundle_text_simps)
qed

end
