(* ===== verification/II_Query.thy ===== *)
theory II_Query
  imports II_DB
begin

text \<open>
  Queries on the index (\<^verbatim>\<open>ii/db.go\<close>: \<^verbatim>\<open>Query\<close>, \<^verbatim>\<open>Access\<close>,
  \<^verbatim>\<open>_Match\<close>, \<^verbatim>\<open>Match\<close>, \<^verbatim>\<open>SelectIDS\<close>, \<^verbatim>\<open>Echo\<close>,
  \<^verbatim>\<open>Echoes\<close>). Matching counts \<^verbatim>\<open>Skip\<close> and \<^verbatim>\<open>Count\<close> down in the query,
  so the query is threaded through the scan. The lemmas show that a scan is a filter followed by
  \<open>drop\<close> and \<open>take\<close>, and that a selection is a slice of it.
\<close>

section \<open>Queries and access\<close>

record User =
  us_Id :: int
  us_Name :: string
  us_Mail :: string
  us_Secret :: string
  us_Tags :: Tags

definition nil_user :: User where
  "nil_user = \<lparr>us_Id = 0, us_Name = [], us_Mail = [], us_Secret = [], us_Tags = nil_tags\<rparr>"

text \<open>\<open>q_Match\<close> is the optional function of the caller; no caller of the sources sets it.\<close>

record Query =
  q_Echo :: string
  q_Repto :: string
  q_From :: string
  q_To :: string
  q_Start :: int
  q_Lim :: int
  q_Skip :: int
  q_Count :: int
  q_Blacklisted :: bool
  q_NoAccess :: bool
  q_User :: User
  q_Invert :: bool
  q_Match :: "(MsgInfo \<Rightarrow> bool) option"

definition nil_query :: Query where
  "nil_query = \<lparr>q_Echo = [], q_Repto = [], q_From = [], q_To = [], q_Start = 0, q_Lim = 0, q_Skip = 0,
     q_Count = 0, q_Blacklisted = False, q_NoAccess = False, q_User = nil_user, q_Invert = False,
     q_Match = None\<rparr>"

definition Access :: "MsgInfo \<Rightarrow> User \<Rightarrow> bool" where
  "Access info user =
     (if IsPrivate (mi_Echo info) then
        (if us_Name user = [] then False
         else if mi_To info \<noteq> ''All'' \<and> mi_From info \<noteq> us_Name user \<and> mi_To info \<noteq> us_Name user
         then False else True)
      else True)"

text \<open>The part of \<^verbatim>\<open>_Match\<close> between the test of \<^verbatim>\<open>Count\<close> and the counting.\<close>

definition base_match :: "MsgInfo \<Rightarrow> Query \<Rightarrow> bool" where
  "base_match info r =
     (if (if q_Blacklisted r then mi_Off info \<ge> 0 else mi_Off info < 0 \<and> \<not> q_NoAccess r) then False
      else if q_Echo r \<noteq> [] \<and> q_Echo r \<noteq> mi_Echo info then False
      else if (if q_Repto r = ''!'' then mi_Repto info \<noteq> [] else q_Repto r \<noteq> [] \<and> q_Repto r \<noteq> mi_Repto info)
           then False
      else if q_To r \<noteq> [] \<and> q_To r \<noteq> mi_To info then False
      else if q_From r \<noteq> [] \<and> q_From r \<noteq> mi_From info then False
      else if \<not> q_NoAccess r \<and> \<not> Access info (q_User r) then False
      else (case q_Match r of None \<Rightarrow> True | Some f \<Rightarrow> f info))"

definition inner_match :: "MsgInfo \<Rightarrow> Query \<Rightarrow> bool \<times> Query" where
  "inner_match info r =
     (if q_Count r < 0 then (False, r)
      else if base_match info r then
        (if q_Skip r > 0 then (False, r\<lparr>q_Skip := q_Skip r - 1\<rparr>)
         else if q_Count r > 0 then
           (let c = q_Count r - 1 in (True, r\<lparr>q_Count := if c = 0 then -1 else c\<rparr>))
         else (True, r))
      else (False, r))"

definition Match :: "MsgInfo \<Rightarrow> Query \<Rightarrow> bool \<times> Query" where
  "Match info r = (case inner_match info r of (ret, r) \<Rightarrow> (if q_Invert r then \<not> ret else ret, r))"

section \<open>Selection\<close>

text \<open>
  Matching the entry of an id. A missing entry is a nil pointer, which \<^verbatim>\<open>_Match\<close>
  dereferences unless the count is used up.
\<close>

definition match_id :: "(string \<rightharpoonup> MsgInfo) \<Rightarrow> string \<Rightarrow> Query \<Rightarrow> ii_error + bool \<times> Query" where
  "match_id h mid r =
     (case h mid of
        Some info \<Rightarrow> Inr (Match info r)
      | None \<Rightarrow> if q_Count r < 0 then Inr (q_Invert r, r) else Inl (EPanic PNilPointer))"

fun select_back :: "(string \<rightharpoonup> MsgInfo) \<Rightarrow> string list \<Rightarrow> Query \<Rightarrow> int \<Rightarrow> string list \<Rightarrow> ii_error + string list" where
  "select_back h [] r start resp = Inr resp"
| "select_back h (mid # ids) r start resp =
     (case match_id h mid r of
        Inl e \<Rightarrow> Inl e
      | Inr (False, r) \<Rightarrow> select_back h ids r start resp
      | Inr (True, r) \<Rightarrow>
          (let resp = mid # resp; start = start - 1 in
           if start = q_Start r then Inr resp else select_back h ids r start resp))"

fun select_fwd :: "(string \<rightharpoonup> MsgInfo) \<Rightarrow> string list \<Rightarrow> Query \<Rightarrow> int \<Rightarrow> string list \<Rightarrow> ii_error + string list" where
  "select_fwd h [] r found resp = Inr resp"
| "select_fwd h (mid # ids) r found resp =
     (case match_id h mid r of
        Inl e \<Rightarrow> Inl e
      | Inr (False, r) \<Rightarrow> select_fwd h ids r found resp
      | Inr (True, r) \<Rightarrow>
          (let resp = (if found \<ge> q_Start r then resp @ [mid] else resp); found = found + 1 in
           if q_Lim r > 0 \<and> int (length resp) \<ge> q_Lim r then Inr resp
           else select_fwd h ids r found resp))"

definition select_ids :: "Index \<Rightarrow> Query \<Rightarrow> ii_error + string list" where
  "select_ids ix r =
     (if ix_List ix = [] then Inr []
      else let h = (case ix_Hash ix of None \<Rightarrow> Map.empty | Some h \<Rightarrow> h) in
        (if q_Start r < 0 then
           (case select_back h (rev (ix_List ix)) r 0 [] of
              Inl e \<Rightarrow> Inl e
            | Inr resp \<Rightarrow>
                Inr (if q_Lim r > 0 \<and> int (length resp) > q_Lim r then take (nat (q_Lim r)) resp else resp))
         else select_fwd h (ix_List ix) r 0 []))"

definition SelectIDS :: "DB \<Rightarrow> Query \<Rightarrow> DB \<times> (ii_error + string list)" where
  "SelectIDS db r =
     (case LoadIndex db of
        (db, Some _) \<Rightarrow> (db, Inr [])
      | (db, None) \<Rightarrow> (db, select_ids (db_Idx db) r))"

section \<open>A scan is a filter\<close>

text \<open>The ids a scan accepts, in scan order, the query threaded through.\<close>

fun run_match :: "(string \<rightharpoonup> MsgInfo) \<Rightarrow> string list \<Rightarrow> Query \<Rightarrow> string list" where
  "run_match h [] r = []"
| "run_match h (mid # ids) r =
     (case match_id h mid r of
        Inl e \<Rightarrow> []
      | Inr (ok, r) \<Rightarrow> (if ok then [mid] else []) @ run_match h ids r)"

definition counted :: "int \<Rightarrow> int \<Rightarrow> 'a list \<Rightarrow> 'a list" where
  "counted skip cnt xs =
     (if cnt < 0 then [] else let ys = drop (nat skip) xs in if cnt > 0 then take (nat cnt) ys else ys)"

definition base_ok :: "(string \<rightharpoonup> MsgInfo) \<Rightarrow> Query \<Rightarrow> string \<Rightarrow> bool" where
  "base_ok h r mid = (case h mid of None \<Rightarrow> False | Some info \<Rightarrow> base_match info r)"

lemma base_match_counts [simp]:
  "base_match info (r\<lparr>q_Skip := s\<rparr>) = base_match info r"
  "base_match info (r\<lparr>q_Count := c\<rparr>) = base_match info r"
  by (simp_all add: base_match_def)

lemma base_ok_counts [simp]:
  "base_ok h (r\<lparr>q_Skip := s\<rparr>) = base_ok h r" "base_ok h (r\<lparr>q_Count := c\<rparr>) = base_ok h r"
  by (simp_all add: base_ok_def fun_eq_iff split: option.splits)

lemma base_ok_Some: "h mid = Some info \<Longrightarrow> base_ok h r mid = base_match info r"
  by (simp add: base_ok_def)

lemma inner_match_slice:
  "inner_match info r = (ok, r') \<Longrightarrow>
     q_Start r' = q_Start r \<and> q_Lim r' = q_Lim r \<and> q_Invert r' = q_Invert r"
  by (auto simp: inner_match_def Let_def split: if_splits)

lemma match_id_slice:
  "match_id h mid r = Inr (ok, r') \<Longrightarrow>
     q_Start r' = q_Start r \<and> q_Lim r' = q_Lim r \<and> q_Invert r' = q_Invert r"
  by (auto simp: match_id_def Match_def dest: inner_match_slice split: option.splits prod.splits if_splits)

lemma match_id_present:
  "mid \<in> dom h \<Longrightarrow> \<exists>ok r'. match_id h mid r = Inr (ok, r')"
  by (auto simp: match_id_def)

lemma run_match_counted:
  assumes "set ids \<subseteq> dom h" and "\<not> q_Invert r" and "0 \<le> q_Skip r"
  shows "run_match h ids r = counted (q_Skip r) (q_Count r) (filter (base_ok h r) ids)"
  using assms
proof (induction ids arbitrary: r)
  case Nil
  then show ?case by (simp add: counted_def Let_def)
next
  case (Cons mid ids)
  then obtain info where info: "h mid = Some info" by auto
  have m: "match_id h mid r = Inr (inner_match info r)"
    using info Cons.prems(2) inner_match_slice [of info r]
    by (cases "inner_match info r") (auto simp: match_id_def Match_def)
  have bo: "base_ok h r mid = base_match info r" by (rule base_ok_Some) (rule info)
  consider "q_Count r < 0" | "0 \<le> q_Count r" "\<not> base_match info r"
    | "0 \<le> q_Count r" "base_match info r" "0 < q_Skip r"
    | "0 < q_Count r" "base_match info r" "q_Skip r = 0"
    | "q_Count r = 0" "base_match info r" "q_Skip r = 0"
    using Cons.prems(3) by linarith
  then show ?case
  proof cases
    case 1
    then show ?thesis using m Cons by (simp add: inner_match_def counted_def)
  next
    case 2
    then show ?thesis using m Cons by (simp add: inner_match_def bo)
  next
    case 3
    then have "nat (q_Skip r) = Suc (nat (q_Skip r - 1))" by simp
    then show ?thesis
      using 3 m Cons by (simp add: inner_match_def bo counted_def Let_def)
  next
    case 4
    then have "nat (q_Count r) = Suc (nat (q_Count r - 1))" by simp
    then show ?thesis
      using 4 m Cons by (auto simp: inner_match_def bo counted_def Let_def)
  next
    case 5
    then show ?thesis using 5 m Cons by (simp add: inner_match_def bo counted_def)
  qed
qed

text \<open>An inverted query without counting is the complement.\<close>

lemma run_match_invert:
  assumes "set ids \<subseteq> dom h" and "q_Invert r" and "q_Skip r = 0" and "q_Count r = 0"
  shows "run_match h ids r = filter (\<lambda>mid. \<not> base_ok h r mid) ids"
  using assms
  by (induction ids arbitrary: r)
     (auto simp: match_id_def Match_def inner_match_def base_ok_def split: option.splits)

section \<open>A selection is a slice\<close>

definition limited :: "int \<Rightarrow> 'a list \<Rightarrow> 'a list" where
  "limited lim xs = (if lim > 0 then take (nat lim) xs else xs)"

definition last_n :: "nat \<Rightarrow> 'a list \<Rightarrow> 'a list" where
  "last_n n xs = drop (length xs - n) xs"

lemma select_fwd_slice:
  assumes "set ids \<subseteq> dom h" and "0 \<le> q_Start r" and "0 \<le> found"
    and "q_Lim r > 0 \<longrightarrow> int (length resp) < q_Lim r"
  shows "select_fwd h ids r found resp =
    Inr (limited (q_Lim r) (resp @ drop (nat (q_Start r - found)) (run_match h ids r)))"
  using assms
proof (induction ids arbitrary: r found resp)
  case Nil
  then show ?case by (auto simp: limited_def)
next
  case (Cons mid ids)
  obtain ok r' where m: "match_id h mid r = Inr (ok, r')" using match_id_present Cons.prems(1) by fastforce
  have r': "q_Start r' = q_Start r" "q_Lim r' = q_Lim r" using match_id_slice [OF m] by auto
  show ?case
  proof (cases ok)
    case False
    then show ?thesis using Cons r' m by simp
  next
    case True
    show ?thesis
    proof (cases "found \<ge> q_Start r")
      case t: True
      show ?thesis
      proof (cases "q_Lim r > 0 \<and> int (length (resp @ [mid])) \<ge> q_Lim r")
        case lim: True
        then have "nat (q_Lim r) = Suc (length resp)" using Cons.prems(4) by auto
        then show ?thesis using True t lim m r' by (simp add: limited_def)
      next
        case False
        have ih: "select_fwd h ids r' (found + 1) (resp @ [mid]) = Inr (limited (q_Lim r')
            ((resp @ [mid]) @ drop (nat (q_Start r' - (found + 1))) (run_match h ids r')))"
          using Cons.prems t False r' by (intro Cons.IH) auto
        show ?thesis using True t m r' False by (auto simp: Let_def ih)
      qed
    next
      case False
      then have "nat (q_Start r - found) = Suc (nat (q_Start r - (found + 1)))" by simp
      then show ?thesis using True False m r' Cons by (auto simp: not_le)
    qed
  qed
qed

lemma select_back_slice:
  assumes "set ids \<subseteq> dom h" and "q_Start r < start" and "start \<le> 0"
  shows "select_back h ids r start resp =
    Inr (rev (take (nat (start - q_Start r)) (run_match h ids r)) @ resp)"
  using assms
proof (induction ids arbitrary: r start resp)
  case Nil
  then show ?case by simp
next
  case (Cons mid ids)
  obtain ok r' where m: "match_id h mid r = Inr (ok, r')" using match_id_present Cons.prems(1) by fastforce
  have r': "q_Start r' = q_Start r" using match_id_slice [OF m] by auto
  have n: "nat (start - q_Start r) = Suc (nat (start - 1 - q_Start r))" using Cons.prems by simp
  show ?case
  proof (cases ok)
    case False
    then show ?thesis using Cons r' m by simp
  next
    case True
    then show ?thesis using Cons r' m n by (cases "start - 1 = q_Start r") auto
  qed
qed

lemma last_n_rev: "rev (take n (rev xs)) = last_n n xs"
  by (simp add: last_n_def rev_take)

lemma limited_if:
  "(if lim > 0 \<and> int (length xs) > lim then take (nat lim) xs else xs) = limited lim xs"
  by (auto simp: limited_def)

text \<open>What a selection returns on a well-formed index: a slice of the scan.\<close>

definition slice :: "(string \<rightharpoonup> MsgInfo) \<Rightarrow> string list \<Rightarrow> Query \<Rightarrow> string list" where
  "slice h l r =
     limited (q_Lim r)
       (if q_Start r < 0 then rev (take (nat (- q_Start r)) (run_match h (rev l) r))
        else drop (nat (q_Start r)) (run_match h l r))"

lemma select_ids_slice:
  assumes "ix_Hash ix = Some h" and "table_wf h (ix_List ix)"
  shows "select_ids ix r = Inr (slice h (ix_List ix) r)"
proof -
  have dom: "set (ix_List ix) \<subseteq> dom h" using assms(2) by (simp add: table_wf_def)
  show ?thesis
    using assms(1) dom select_back_slice [of "rev (ix_List ix)" h r 0 "[]"]
      select_fwd_slice [of "ix_List ix" h r 0 "[]"]
    by (auto simp: select_ids_def slice_def limited_if limited_def)
qed

text \<open>Without counting, the scan direction does not matter.\<close>

lemma slice_plain:
  assumes "table_wf h l" and "\<not> q_Invert r" and "q_Skip r = 0" and "q_Count r = 0"
  shows "slice h l r =
    limited (q_Lim r)
      (if q_Start r < 0 then last_n (nat (- q_Start r)) (filter (base_ok h r) l)
       else drop (nat (q_Start r)) (filter (base_ok h r) l))"
proof -
  have dom: "set l \<subseteq> dom h" using assms(1) by (simp add: table_wf_def)
  have "run_match h l r = filter (base_ok h r) l"
    using run_match_counted [of l h r] dom assms by (simp add: counted_def)
  moreover have "run_match h (rev l) r = rev (filter (base_ok h r) l)"
    using run_match_counted [of "rev l" h r] dom assms by (simp add: counted_def rev_filter)
  ultimately show ?thesis by (simp add: slice_def last_n_rev)
qed

lemma set_limited: "set (limited lim xs) \<subseteq> set xs"
  by (auto simp: limited_def dest: in_set_takeD)

lemma set_counted: "set (counted s c xs) \<subseteq> set xs"
  by (auto simp: counted_def Let_def dest: in_set_takeD in_set_dropD split: if_splits)

lemma slice_base_ok:
  assumes "table_wf h l" and "\<not> q_Invert r" and "0 \<le> q_Skip r" and "mid \<in> set (slice h l r)"
  shows "mid \<in> set l \<and> base_ok h r mid"
proof -
  have dom: "set l \<subseteq> dom h" using assms(1) by (simp add: table_wf_def)
  have "mid \<in> set (run_match h (rev l) r) \<union> set (run_match h l r)"
    using assms(4) set_limited unfolding slice_def
    by (fastforce dest: in_set_takeD in_set_dropD split: if_splits)
  moreover have "run_match h ids r = counted (q_Skip r) (q_Count r) (filter (base_ok h r) ids)"
    if "set ids \<subseteq> dom h" for ids using that assms run_match_counted by blast
  ultimately show ?thesis using dom set_counted by (fastforce simp del: rev_filter)
qed

lemma SelectIDS_rep:
  assumes "db_rep db log"
  shows "\<exists>db' h. SelectIDS db r = (db', Inr (slice h (first_occurrences (map m_MsgId log)) r)) \<and>
           db_loaded db' log \<and> ix_Hash (db_Idx db') = Some h \<and>
           table_wf h (first_occurrences (map m_MsgId log))"
proof -
  obtain ix' where l: "LoadIndex db = (db\<lparr>db_index := File (index_text log), db_Idx := ix'\<rparr>, None)"
      and ld: "db_loaded (db\<lparr>db_index := File (index_text log), db_Idx := ix'\<rparr>) log"
    using LoadIndex_rep [OF assms] by blast
  obtain h where h: "ix_Hash ix' = Some h" "table_wf h (ix_List ix')"
    using ld by (auto simp: db_loaded_def mem_loaded_def)
  have "ix_List ix' = first_occurrences (map m_MsgId log)"
    using ld mem_loaded_List by (simp add: db_loaded_def)
  then show ?thesis
    using l ld h select_ids_slice [OF h, of r] by (auto simp: SelectIDS_def)
qed

section \<open>Echo areas\<close>

record Echo =
  ec_Name :: string
  ec_Count :: nat
  ec_Topics :: nat
  ec_Last :: MsgInfo
  ec_Msg :: Msg

text \<open>
  One turn of the loop of \<^verbatim>\<open>Echoes\<close>: the map of areas, its keys in the order of insertion, and
  the query. \<open>keys\<close> is only there to say over what the program later ranges. The identifiers come from the
  list of the index, and each of them is in its map (\<open>index_wf\<close>), so that the branch for an absent one, where
  the program would follow a nil pointer, is not taken.
\<close>

definition echo_step ::
  "(string \<rightharpoonup> MsgInfo) \<Rightarrow> string list option \<Rightarrow> string \<Rightarrow>
   (string \<rightharpoonup> Echo) \<times> string list \<times> Query \<Rightarrow> (string \<rightharpoonup> Echo) \<times> string list \<times> Query" where
  "echo_step h names mid st =
     (case st of (hash, keys, q) \<Rightarrow>
        (case h mid of
           None \<Rightarrow> st
         | Some info \<Rightarrow>
             if mi_Off info < 0 then st
             else (case Match info q of
               (False, q) \<Rightarrow> (hash, keys, q)
             | (True, q) \<Rightarrow>
                 let e = mi_Echo info in
                 if (case names of None \<Rightarrow> False | Some ns \<Rightarrow> e \<notin> set ns) then (hash, keys, q)
                 else (case hash e of
                   Some v \<Rightarrow>
                     (hash(e \<mapsto> v\<lparr>ec_Topics := (if mi_Repto info = [] then ec_Topics v + 1 else ec_Topics v),
                                 ec_Count := ec_Count v + 1, ec_Last := info\<rparr>), keys, q)
                 | None \<Rightarrow>
                     (hash(e \<mapsto> \<lparr>ec_Name = e, ec_Count = 1, ec_Topics = (if mi_Repto info = [] then 1 else 0),
                                ec_Last = info, ec_Msg = nil_msg\<rparr>), keys @ [e], q)))))"

text \<open>
  \<^verbatim>\<open>Echoes(names, q)\<close>; \<open>names = None\<close> is the nil slice. Go ranges over a map in an order it
  does not specify: \<open>order\<close> is that order, as a function of the keys.
\<close>

definition Echoes :: "(string list \<Rightarrow> string list) \<Rightarrow> DB \<Rightarrow> string list option \<Rightarrow> Query \<Rightarrow> DB \<times> Echo list" where
  "Echoes order db names q =
     (case LoadIndex db of
        (db, Some _) \<Rightarrow> (db, [])
      | (db, None) \<Rightarrow>
          let h = (case ix_Hash (db_Idx db) of None \<Rightarrow> Map.empty | Some h \<Rightarrow> h);
              (hash, keys, _) = fold (echo_step h names) (ix_List (db_Idx db)) (Map.empty, [], q);
              list = List.map_filter hash (case names of Some ns \<Rightarrow> ns | None \<Rightarrow> order keys);
              list = map (\<lambda>v. v\<lparr>ec_Msg := (case GetFast db (mi_Id (ec_Last v)) of None \<Rightarrow> nil_msg | Some m \<Rightarrow> m)\<rparr>) list
          in (db, sort_key (\<lambda>v. - m_Date (ec_Msg v)) list))"

text \<open>
  The entries an unrestricted scan counts, and the summary of an area: how many of them it has, how
  many start a topic, and the last one.
\<close>

definition echo_seen :: "(string \<rightharpoonup> MsgInfo) \<Rightarrow> string list option \<Rightarrow> Query \<Rightarrow> string \<Rightarrow> bool" where
  "echo_seen h names q mid =
     (case h mid of
        None \<Rightarrow> False
      | Some info \<Rightarrow> 0 \<le> mi_Off info \<and> base_match info q \<and>
          (case names of None \<Rightarrow> True | Some ns \<Rightarrow> mi_Echo info \<in> set ns))"

definition echo_infos :: "(string \<rightharpoonup> MsgInfo) \<Rightarrow> string list option \<Rightarrow> Query \<Rightarrow> string list \<Rightarrow> MsgInfo list" where
  "echo_infos h names q ids = map (\<lambda>mid. the (h mid)) (filter (echo_seen h names q) ids)"

definition area :: "MsgInfo list \<Rightarrow> string \<Rightarrow> Echo option" where
  "area xs e =
     (let l = filter (\<lambda>i. mi_Echo i = e) xs in
      if l = [] then None
      else Some \<lparr>ec_Name = e, ec_Count = length l, ec_Topics = length (filter (\<lambda>i. mi_Repto i = []) l),
                 ec_Last = last l, ec_Msg = nil_msg\<rparr>)"

lemma area_snoc:
  "area (xs @ [i]) = (area xs)(mi_Echo i \<mapsto>
     (case area xs (mi_Echo i) of
        Some v \<Rightarrow> v\<lparr>ec_Topics := (if mi_Repto i = [] then ec_Topics v + 1 else ec_Topics v),
                    ec_Count := ec_Count v + 1, ec_Last := i\<rparr>
      | None \<Rightarrow> \<lparr>ec_Name = mi_Echo i, ec_Count = 1, ec_Topics = (if mi_Repto i = [] then 1 else 0),
                 ec_Last = i, ec_Msg = nil_msg\<rparr>))"
  by (rule ext) (auto simp: area_def Let_def filter_empty_conv)

lemma area_None_iff: "area xs e = None \<longleftrightarrow> e \<notin> mi_Echo ` set xs"
  by (auto simp: area_def Let_def filter_empty_conv)

lemma area_Name: "area xs e = Some v \<Longrightarrow> ec_Name v = e"
  by (auto simp: area_def Let_def split: if_splits)

lemma Match_plain:
  "\<not> q_Invert q \<Longrightarrow> q_Skip q = 0 \<Longrightarrow> q_Count q = 0 \<Longrightarrow> Match info q = (base_match info q, q)"
  by (simp add: Match_def inner_match_def)

lemma echo_fold:
  assumes "\<not> q_Invert q" "q_Skip q = 0" "q_Count q = 0"
  shows "fold (echo_step h names) ids (Map.empty, [], q) =
    (area (echo_infos h names q ids), first_occurrences (map mi_Echo (echo_infos h names q ids)), q)"
proof (induction ids rule: rev_induct)
  case Nil
  then show ?case by (simp add: echo_infos_def area_def first_occurrences_def fun_eq_iff)
next
  case (snoc mid ids)
  let ?l = "echo_infos h names q ids"
  show ?case
  proof (cases "echo_seen h names q mid")
    case False
    then have "echo_step h names mid (hash, keys, q) = (hash, keys, q)" for hash keys
      by (auto simp: echo_step_def echo_seen_def Match_plain [OF assms] Let_def split: option.splits bool.splits)
    then show ?thesis using snoc False by (simp add: echo_infos_def)
  next
    case True
    then obtain info where i: "h mid = Some info" "0 \<le> mi_Off info" "base_match info q"
        "case names of None \<Rightarrow> True | Some ns \<Rightarrow> mi_Echo info \<in> set ns"
      by (auto simp: echo_seen_def split: option.splits)
    have l: "echo_infos h names q (ids @ [mid]) = ?l @ [info]"
      using True i(1) by (simp add: echo_infos_def)
    have "echo_step h names mid (area ?l, first_occurrences (map mi_Echo ?l), q) =
        (area (?l @ [info]), first_occurrences (map mi_Echo (?l @ [info])), q)"
      using i area_None_iff [of ?l "mi_Echo info"]
      by (cases "area ?l (mi_Echo info)"; cases names)
         (auto simp: echo_step_def Match_plain [OF assms] Let_def area_snoc first_occurrences_snoc add_new_def)
    then show ?thesis using snoc l by simp
  qed
qed

text \<open>
  What \<^verbatim>\<open>Echoes\<close> returns for an unrestricted query on a loaded database: the summaries
  of the areas asked for, each with the last message, newest message first.
\<close>

definition echo_msg :: "DB \<Rightarrow> Echo \<Rightarrow> Echo" where
  "echo_msg db v = v\<lparr>ec_Msg := (case GetFast db (mi_Id (ec_Last v)) of None \<Rightarrow> nil_msg | Some m \<Rightarrow> m)\<rparr>"

lemma Echoes_plain:
  assumes "\<not> q_Invert q" "q_Skip q = 0" "q_Count q = 0" and "LoadIndex db = (db', None)"
    and "ix_Hash (db_Idx db') = Some h"
  shows "Echoes order db names q =
    (let l = echo_infos h names q (ix_List (db_Idx db'));
         ns = (case names of Some ns \<Rightarrow> ns | None \<Rightarrow> order (first_occurrences (map mi_Echo l)))
     in (db', sort_key (\<lambda>v. - m_Date (ec_Msg v)) (map (echo_msg db') (List.map_filter (area l) ns))))"
  using assms(4,5) by (simp add: Echoes_def echo_fold [OF assms(1,2,3)] Let_def echo_msg_def [abs_def])

lemma Echoes_summaries:
  assumes "\<not> q_Invert q" "q_Skip q = 0" "q_Count q = 0" and "LoadIndex db = (db', None)"
    and "ix_Hash (db_Idx db') = Some h" and "v \<in> set (snd (Echoes order db names q))"
  shows "area (echo_infos h names q (ix_List (db_Idx db'))) (ec_Name v) = Some (v\<lparr>ec_Msg := nil_msg\<rparr>)"
proof -
  let ?l = "echo_infos h names q (ix_List (db_Idx db'))"
  have "v \<in> echo_msg db' ` {w. \<exists>e. area ?l e = Some w}"
    using assms(6) unfolding Echoes_plain [OF assms(1-5)]
    by (auto simp: Let_def map_filter_def split: option.splits)
  then obtain e w where w: "v = echo_msg db' w" "area ?l e = Some w" by blast
  have "ec_Msg w = nil_msg" using w(2) by (auto simp: area_def Let_def split: if_splits)
  then have "v\<lparr>ec_Msg := nil_msg\<rparr> = w" using w(1) by (cases w) (simp add: echo_msg_def)
  moreover have "ec_Name v = e" using w area_Name by (simp add: echo_msg_def)
  ultimately show ?thesis using w by simp
qed

end
