(* ===== verification/II_Topics.thy ===== *)
theory II_Topics
  imports II_Query
begin

text \<open>
  Threads (\<^verbatim>\<open>ii/db.go\<close>: \<^verbatim>\<open>GetTopics\<close>). The function walks from every message
  to its oldest ancestor in the same area, marks what it passes, and caches the result in the
  \<^verbatim>\<open>Topic\<close> field of the index entries it reaches through pointers. The walk need not
  end, so it has fuel; the lemmas say when it ends, what it then returns, and that a cycle of replies
  in another area keeps it running for ever.
\<close>

section \<open>The walk\<close>

definition set_topic :: "string \<Rightarrow> string \<Rightarrow> (string \<rightharpoonup> MsgInfo) \<Rightarrow> (string \<rightharpoonup> MsgInfo)" where
  "set_topic mid t h = (case h mid of None \<Rightarrow> h | Some p \<Rightarrow> h(mid \<mapsto> p\<lparr>mi_Topic := t\<rparr>))"

text \<open>\<^verbatim>\<open>db.LookupFast(p.Repto, false)\<close>, as the id of the entry found.\<close>

definition parent :: "(string \<rightharpoonup> MsgInfo) \<Rightarrow> MsgInfo \<Rightarrow> string option" where
  "parent h p =
     (if mi_Repto p = [] then None
      else (case h (mi_Repto p) of
              None \<Rightarrow> None
            | Some q \<Rightarrow> if mi_Off q < 0 then None else Some (mi_Repto p)))"

text \<open>The inner loop; the pointer \<open>p\<close> is the id of its entry, \<open>None\<close> is nil.\<close>

fun topic_walk ::
  "nat \<Rightarrow> (string \<rightharpoonup> MsgInfo) \<Rightarrow> string \<Rightarrow> string option \<Rightarrow> string list \<Rightarrow>
   ((string \<rightharpoonup> MsgInfo) \<times> string list) option" where
  "topic_walk 0 h echo p l = None"
| "topic_walk (Suc n) h echo None l = Some (h, l)"
| "topic_walk (Suc n) h echo (Some mid) l =
     (case h mid of
        None \<Rightarrow> Some (h, l)
      | Some p \<Rightarrow>
          if mi_Repto p = mi_Id p \<or> mi_Topic p = ''visited'' then Some (set_topic mid [] h, l)
          else if echo \<noteq> mi_Echo p then topic_walk n h echo (parent h p) l
          else topic_walk n (if mi_Topic p = [] then set_topic mid ''visited'' h else h) echo
                 (parent h p) (l @ [mid]))"

section \<open>Topics\<close>

type_synonym topics_state = "(string \<rightharpoonup> MsgInfo) \<times> (string \<rightharpoonup> string) \<times> (string \<rightharpoonup> string list)"

definition topic_list :: "(string \<rightharpoonup> string list) \<Rightarrow> string \<Rightarrow> string list" where
  "topic_list topics t = (case topics t of None \<Rightarrow> [] | Some l \<Rightarrow> l)"

definition open_topic :: "string \<Rightarrow> (string \<rightharpoonup> string list) \<Rightarrow> (string \<rightharpoonup> string list)" where
  "open_topic t topics = (if topic_list topics t = [] then topics(t \<mapsto> topic_list topics t @ [t]) else topics)"

text \<open>The last loop: the messages of the walk join the topic \<open>t\<close>.\<close>

definition join_topic :: "string \<Rightarrow> string \<Rightarrow> topics_state \<Rightarrow> topics_state" where
  "join_topic t i st =
     (case st of (h, intopic, topics) \<Rightarrow>
        if i = t then (set_topic i t h, intopic, topics)
        else if intopic i \<noteq> None then (h, intopic, topics)
        else (set_topic i t h, intopic(i \<mapsto> t), topics(t \<mapsto> topic_list topics t @ [i])))"

definition topic_step :: "nat \<Rightarrow> string \<Rightarrow> topics_state \<Rightarrow> topics_state option" where
  "topic_step n mid st =
     (case st of (h, intopic, topics) \<Rightarrow>
        if intopic mid \<noteq> None then Some st
        else (case h mid of
          None \<Rightarrow> Some st
        | Some m \<Rightarrow>
            let tp = mi_Topic m in
            if tp \<noteq> [] then
              (let topics = open_topic tp topics in
               if mid \<noteq> tp
               then Some (h, intopic(mid \<mapsto> tp), topics(tp \<mapsto> topic_list topics tp @ [mid]))
               else Some (h, intopic, topics))
            else (case topic_walk n h (mi_Echo m) (Some mid) [] of
              None \<Rightarrow> None
            | Some (h, l) \<Rightarrow>
                if l = [] then Some (h, intopic, topics)
                else let t = last l;
                         topics = open_topic t topics;
                         l = sort_key (\<lambda>i. mi_Num (the (h i))) l
                     in Some (fold (join_topic t) l (h, intopic, topics)))))"

fun topic_steps :: "nat \<Rightarrow> string list \<Rightarrow> topics_state \<Rightarrow> topics_state option" where
  "topic_steps n [] st = Some st"
| "topic_steps n (mid # mi) st =
     (case topic_step n mid st of None \<Rightarrow> None | Some st \<Rightarrow> topic_steps n mi st)"

text \<open>
  \<^verbatim>\<open>GetTopics\<close> on the entries \<open>mi\<close>, which are those of the index; \<open>n\<close> bounds each walk.
  The error of \<^verbatim>\<open>LoadIndex\<close> is ignored as in the code.
\<close>

definition GetTopics :: "nat \<Rightarrow> DB \<Rightarrow> string list \<Rightarrow> (DB \<times> (string \<rightharpoonup> string list)) option" where
  "GetTopics n db mi =
     (let db = fst (LoadIndex db);
          h = (case ix_Hash (db_Idx db) of None \<Rightarrow> Map.empty | Some h \<Rightarrow> h)
      in case topic_steps n mi (h, Map.empty, Map.empty) of
           None \<Rightarrow> None
         | Some (h', _, topics) \<Rightarrow>
             Some (db\<lparr>db_Idx := (db_Idx db)\<lparr>ix_Hash := map_option (\<lambda>_. h') (ix_Hash (db_Idx db))\<rparr>\<rparr>, topics))"

section \<open>When the walk ends\<close>

text \<open>Only the topics of the entries ever change.\<close>

definition alike :: "(string \<rightharpoonup> MsgInfo) \<Rightarrow> (string \<rightharpoonup> MsgInfo) \<Rightarrow> bool" where
  "alike h g = (\<forall>k. map_option (\<lambda>p. p\<lparr>mi_Topic := []\<rparr>) (h k) = map_option (\<lambda>p. p\<lparr>mi_Topic := []\<rparr>) (g k))"

lemma alike_refl [simp]: "alike h h"
  by (simp add: alike_def)

lemma alike_sym: "alike h g \<Longrightarrow> alike g h"
  by (simp add: alike_def)

lemma alike_set_topic [simp]: "alike (set_topic mid t h) g = alike h g"
proof -
  have "map_option (\<lambda>p. p\<lparr>mi_Topic := []\<rparr>) (set_topic mid t h k) = map_option (\<lambda>p. p\<lparr>mi_Topic := []\<rparr>) (h k)" for k
    by (simp add: set_topic_def split: option.split)
  then show ?thesis by (simp only: alike_def)
qed

lemma alike_Some:
  assumes "alike h g" and "h k = Some p"
  shows "\<exists>q. g k = Some q \<and> mi_Id p = mi_Id q \<and> mi_Num p = mi_Num q \<and> mi_Echo p = mi_Echo q \<and>
           mi_Repto p = mi_Repto q \<and> mi_Off p = mi_Off q"
proof -
  have "map_option (\<lambda>p. p\<lparr>mi_Topic := []\<rparr>) (g k) = Some (p\<lparr>mi_Topic := []\<rparr>)"
    using assms(1) [unfolded alike_def, rule_format, of k] assms(2) by simp
  then obtain q where "g k = Some q" "q\<lparr>mi_Topic := []\<rparr> = p\<lparr>mi_Topic := []\<rparr>" by auto
  then show ?thesis by (cases p; cases q) simp
qed

lemma alike_None: "alike h g \<Longrightarrow> h k = None \<longleftrightarrow> g k = None"
  using alike_Some [of h g k] alike_Some [OF alike_sym, of h g k] by (cases "h k"; cases "g k") auto

lemma alike_parent:
  assumes "alike h g" and "mi_Repto p = mi_Repto q"
  shows "parent h p = parent g q"
proof (cases "h (mi_Repto p)")
  case None
  then show ?thesis using alike_None [OF assms(1), of "mi_Repto q"] assms(2) by (simp add: parent_def)
next
  case (Some r)
  then show ?thesis using alike_Some [OF assms(1) Some] assms(2) by (auto simp: parent_def)
qed

lemma parent_Some: "parent h p = Some q \<Longrightarrow> q = mi_Repto p \<and> (\<exists>r. h q = Some r \<and> 0 \<le> mi_Off r)"
  by (auto simp: parent_def split: if_splits option.splits)

text \<open>
  The replies of an index: which message answers which. They are acyclic if no message answers itself,
  directly or through others; the order in which the messages were stored does not matter.
\<close>

definition replies :: "(string \<rightharpoonup> MsgInfo) \<Rightarrow> (string \<times> string) set" where
  "replies g = {(q, mid). \<exists>p. g mid = Some p \<and> parent g p = Some q}"

definition acyclic_replies :: "(string \<rightharpoonup> MsgInfo) \<Rightarrow> bool" where
  "acyclic_replies g =
     (finite (dom g) \<and> (\<forall>mid p. g mid = Some p \<longrightarrow> mi_Id p = mid \<and> mi_Repto p \<noteq> mid) \<and> acyclic (replies g))"

text \<open>A rank that every reply raises, bounded by the size of the index.\<close>

definition ranked :: "(string \<Rightarrow> nat) \<Rightarrow> (string \<rightharpoonup> MsgInfo) \<Rightarrow> bool" where
  "ranked rk g =
     (\<forall>mid p. g mid = Some p \<longrightarrow> mi_Id p = mid \<and> mi_Repto p \<noteq> mid \<and> rk mid < card (dom g) \<and>
        (\<forall>q. parent g p = Some q \<longrightarrow> rk q < rk mid))"

lemma acyclic_ranked:
  assumes "acyclic_replies g"
  shows "\<exists>rk. ranked rk g"
proof -
  let ?A = "\<lambda>mid. {a. (a, mid) \<in> (replies g)\<^sup>+}"
  have fin: "finite (dom g)" and ids: "\<And>mid p. g mid = Some p \<Longrightarrow> mi_Id p = mid \<and> mi_Repto p \<noteq> mid"
    and ac: "\<And>x. (x, x) \<notin> (replies g)\<^sup>+"
    using assms by (auto simp: acyclic_replies_def acyclic_def)
  have "replies g \<subseteq> dom g \<times> dom g" using parent_Some by (fastforce simp: replies_def)
  then have "(replies g)\<^sup>+ \<subseteq> dom g \<times> dom g" by (rule trancl_subset_Sigma)
  then have sub: "?A mid \<subseteq> dom g - {mid}" for mid using ac by blast
  have size: "card (?A mid) < card (dom g)" if "mid \<in> dom g" for mid
    using fin sub [of mid] that by (intro psubset_card_mono) auto
  have up: "card (?A q) < card (?A mid)" if "g mid = Some p" "parent g p = Some q" for mid p q
  proof -
    have e: "(q, mid) \<in> replies g" using that by (auto simp: replies_def)
    have "?A q \<subset> ?A mid" using e ac [of q] by (auto intro: trancl_into_trancl)
    moreover have "finite (?A mid)" using sub [of mid] fin by (meson finite_Diff finite_subset)
    ultimately show ?thesis by (intro psubset_card_mono)
  qed
  have "ranked (\<lambda>mid. card (?A mid)) g"
    unfolding ranked_def using ids size up by blast
  then show ?thesis by blast
qed

lemma ranked_parent:
  assumes "ranked rk g" "g mid = Some p" "parent g p = Some q"
  shows "\<exists>r. g q = Some r \<and> rk q < rk mid"
  using assms parent_Some [OF assms(3)] unfolding ranked_def by blast

text \<open>The message and its ancestors, newest first.\<close>

fun ancestry :: "nat \<Rightarrow> (string \<rightharpoonup> MsgInfo) \<Rightarrow> string \<Rightarrow> string list" where
  "ancestry 0 g mid = []"
| "ancestry (Suc n) g mid =
     (case g mid of
        None \<Rightarrow> []
      | Some p \<Rightarrow> mid # (case parent g p of None \<Rightarrow> [] | Some q \<Rightarrow> ancestry n g q))"

definition same_echo :: "(string \<rightharpoonup> MsgInfo) \<Rightarrow> string \<Rightarrow> string \<Rightarrow> bool" where
  "same_echo g echo mid = (case g mid of None \<Rightarrow> False | Some p \<Rightarrow> mi_Echo p = echo)"

definition lineage :: "(string \<rightharpoonup> MsgInfo) \<Rightarrow> string \<Rightarrow> string list" where
  "lineage g mid =
     (case g mid of None \<Rightarrow> []
      | Some p \<Rightarrow> filter (same_echo g (mi_Echo p)) (ancestry (Suc (card (dom g))) g mid))"

definition root :: "(string \<rightharpoonup> MsgInfo) \<Rightarrow> string \<Rightarrow> string" where
  "root g mid = last (lineage g mid)"

lemma ancestry_fuel:
  "ranked rk g \<Longrightarrow> g mid = Some p \<Longrightarrow> rk mid < n \<Longrightarrow> ancestry n g mid = ancestry (Suc (rk mid)) g mid"
proof (induction n arbitrary: mid p rule: less_induct)
  case (less n)
  obtain k where n: "n = Suc k" using less.prems(3) by (cases n) auto
  show ?case
  proof (cases "parent g p")
    case None
    then show ?thesis using less.prems n by simp
  next
    case (Some q)
    then obtain r where r: "g q = Some r" and lt: "rk q < rk mid"
      using ranked_parent [OF less.prems(1,2)] by blast
    have "ancestry k g q = ancestry (Suc (rk q)) g q"
      using less lt n r by (intro less.IH) auto
    moreover have "ancestry (rk mid) g q = ancestry (Suc (rk q)) g q"
      using less lt n r by (intro less.IH) auto
    ultimately show ?thesis using less.prems(2) n Some by simp
  qed
qed

lemma ancestry_enough:
  assumes "ranked rk g" "g mid = Some p" "rk mid < n" "rk mid < k"
  shows "ancestry n g mid = ancestry k g mid"
  using ancestry_fuel [OF assms(1,2,3)] ancestry_fuel [OF assms(1,2,4)] by simp

lemma ranked_card: "ranked rk g \<Longrightarrow> g mid = Some p \<Longrightarrow> rk mid < card (dom g)"
  unfolding ranked_def by blast

lemma ancestry_rank:
  "ranked rk g \<Longrightarrow> g mid = Some p \<Longrightarrow> k \<in> set (ancestry n g mid) \<Longrightarrow> k = mid \<or> rk k < rk mid"
proof (induction n arbitrary: mid p)
  case (Suc n)
  show ?case
  proof (cases "parent g p")
    case None
    then show ?thesis using Suc.prems by auto
  next
    case (Some q)
    then obtain r where r: "g q = Some r" "rk q < rk mid"
      using ranked_parent [OF Suc.prems(1,2)] by blast
    show ?thesis
    proof (cases "k = mid")
      case False
      then have "k \<in> set (ancestry n g q)" using Suc.prems(2,3) Some by auto
      from Suc.IH [OF Suc.prems(1) r(1) this] show ?thesis using r(2) by auto
    qed simp
  qed
qed simp

text \<open>On an index with a rank the walk returns the lineage and marks what has no topic yet.\<close>

definition marked :: "(string \<rightharpoonup> MsgInfo) \<Rightarrow> string list \<Rightarrow> (string \<rightharpoonup> MsgInfo)" where
  "marked h l = (\<lambda>k. if k \<in> set l then map_option
     (\<lambda>p. if mi_Topic p = [] then p\<lparr>mi_Topic := ''visited''\<rparr> else p) (h k) else h k)"

lemma topic_walk_lineage:
  assumes "ranked rk g" and "alike h g" and "g mid = Some p" and "rk mid < n"
    and "\<forall>k r. h k = Some r \<and> rk k \<le> rk mid \<longrightarrow> mi_Topic r \<noteq> ''visited''"
  shows "topic_walk (Suc n) h echo (Some mid) l =
    Some (marked h (filter (same_echo g echo) (ancestry n g mid)),
          l @ filter (same_echo g echo) (ancestry n g mid))"
  using assms
proof (induction n arbitrary: h mid p l)
  case (Suc n)
  obtain r where r: "h mid = Some r" "mi_Id r = mi_Id p" "mi_Num r = mi_Num p" "mi_Echo r = mi_Echo p"
      "mi_Repto r = mi_Repto p"
    using alike_Some [OF alike_sym [OF Suc.prems(2)] Suc.prems(3)] by force
  have par: "parent h r = parent g p" using alike_parent Suc.prems(2) r(5) by blast
  have go: "\<not> (mi_Repto r = mi_Id r \<or> mi_Topic r = ''visited'')"
    using Suc.prems r by (auto simp: ranked_def)
  let ?same = "mi_Echo p = echo"
  let ?h = "if ?same \<and> mi_Topic r = [] then set_topic mid ''visited'' h else h"
  let ?l = "if ?same then l @ [mid] else l"
  have w: "topic_walk (Suc (Suc n)) h echo (Some mid) l = topic_walk (Suc n) ?h echo (parent g p) ?l"
    using r go par by simp
  have hm: "?h = marked h (filter (same_echo g echo) [mid])"
    using r Suc.prems(3) by (auto simp: marked_def same_echo_def set_topic_def fun_eq_iff)
  show ?case
  proof (cases "parent g p")
    case None
    then show ?thesis unfolding w hm using Suc.prems(3) by (simp add: same_echo_def)
  next
    case (Some q)
    then obtain s where s: "g q = Some s" and lt: "rk q < rk mid"
      using ranked_parent [OF Suc.prems(1,3)] by blast
    have al: "alike ?h g" using Suc.prems(2) by simp
    have un: "\<forall>k t. ?h k = Some t \<and> rk k \<le> rk q \<longrightarrow> mi_Topic t \<noteq> ''visited''"
    proof -
      have "\<forall>k t. h k = Some t \<and> rk k \<le> rk q \<longrightarrow> mi_Topic t \<noteq> ''visited''"
        using Suc.prems(5) lt by (meson less_imp_le order_trans)
      then show ?thesis using lt r by (auto simp: set_topic_def split: if_splits)
    qed
    have ih: "topic_walk (Suc n) ?h echo (Some q) ?l =
        Some (marked ?h (filter (same_echo g echo) (ancestry n g q)),
              ?l @ filter (same_echo g echo) (ancestry n g q))"
      using lt Suc.prems(4) by (intro Suc.IH [OF Suc.prems(1) al s _ un]) simp
    have "marked ?h (filter (same_echo g echo) (ancestry n g q)) =
        marked h (filter (same_echo g echo) (ancestry (Suc n) g mid))"
      unfolding hm using Suc.prems(3) Some by (auto simp: marked_def fun_eq_iff option.map_comp comp_def
        intro!: map_option_cong)
    moreover have "?l @ filter (same_echo g echo) (ancestry n g q) =
        l @ filter (same_echo g echo) (ancestry (Suc n) g mid)"
      using Suc.prems(3) Some by (simp add: same_echo_def [of g echo mid])
    ultimately show ?thesis unfolding w Some ih by simp
  qed
qed simp

section \<open>Lineages\<close>

lemma ancestry_head: "g mid = Some p \<Longrightarrow> ancestry (Suc n) g mid = mid # tl (ancestry (Suc n) g mid)"
  by simp

lemma distinct_ancestry: "ranked rk g \<Longrightarrow> distinct (ancestry n g mid)"
proof (induction n arbitrary: mid)
  case (Suc n)
  show ?case
  proof (cases "g mid")
    case (Some p)
    show ?thesis
    proof (cases "parent g p")
      case (Some q)
      then obtain r where r: "g q = Some r" "rk q < rk mid"
        using ranked_parent [OF Suc.prems \<open>g mid = Some p\<close>] by blast
      have "mid \<notin> set (ancestry n g q)"
      proof
        assume "mid \<in> set (ancestry n g q)"
        from ancestry_rank [OF Suc.prems r(1) this] show False
          using r by auto
      qed
      then show ?thesis using Suc Some \<open>g mid = Some p\<close> by simp
    qed (use Some in simp)
  qed simp
qed simp

lemma ancestry_suffix:
  "ranked rk g \<Longrightarrow> g mid = Some p \<Longrightarrow> rk mid < n \<Longrightarrow> k \<in> set (ancestry n g mid) \<Longrightarrow>
     \<exists>r pre. g k = Some r \<and> ancestry n g mid = pre @ ancestry (Suc (rk k)) g k"
proof (induction n arbitrary: mid p)
  case (Suc n)
  show ?case
  proof (cases "k = mid")
    case True
    then show ?thesis using ancestry_fuel [OF Suc.prems(1,2,3)] Suc.prems(2)
      by (intro exI [of _ p] exI [of _ "[]"]) simp
  next
    case False
    then obtain q where q: "parent g p = Some q" "k \<in> set (ancestry n g q)"
      using Suc.prems(2,4) by (cases "parent g p") auto
    obtain r where r: "g q = Some r" "rk q < rk mid" using ranked_parent [OF Suc.prems(1,2) q(1)] by blast
    obtain s pre where "g k = Some s" "ancestry n g q = pre @ ancestry (Suc (rk k)) g k"
      using Suc.IH [OF Suc.prems(1) r(1) _ q(2)] r(2) Suc.prems(3) by auto
    then show ?thesis using Suc.prems(2) q(1) by (intro exI [of _ s] exI [of _ "mid # pre"]) simp
  qed
qed simp

lemma lineage_head: "g mid = Some p \<Longrightarrow> mid \<in> set (lineage g mid)"
  by (simp add: lineage_def same_echo_def)

lemma lineage_nonempty: "g mid = Some p \<Longrightarrow> lineage g mid \<noteq> []"
  using lineage_head [of g mid p] by (cases "lineage g mid") simp_all

lemma distinct_lineage: "ranked rk g \<Longrightarrow> distinct (lineage g mid)"
  by (cases "g mid") (simp_all add: lineage_def distinct_ancestry del: ancestry.simps)

lemma lineage_root:
  assumes "ranked rk g" and "g mid = Some p" and "k \<in> set (lineage g mid)"
  shows "k \<in> dom g \<and> root g k = root g mid"
proof -
  let ?n = "Suc (card (dom g))"
  have k: "same_echo g (mi_Echo p) k" "k \<in> set (ancestry ?n g mid)"
    using assms(2,3) by (auto simp: lineage_def simp del: ancestry.simps)
  have n: "rk mid < ?n" using ranked_card [OF assms(1,2)] by simp
  obtain r pre where r: "g k = Some r" "ancestry ?n g mid = pre @ ancestry (Suc (rk k)) g k"
    using ancestry_suffix [OF assms(1,2) n k(2)] by auto
  have "ancestry (Suc (rk k)) g k = ancestry ?n g k"
    using ranked_card [OF assms(1) r(1)] by (intro ancestry_enough [OF assms(1) r(1)]) simp_all
  then have a: "ancestry ?n g mid = pre @ ancestry ?n g k" by (simp only: r(2))
  have e: "mi_Echo r = mi_Echo p" using k(1) r(1) by (simp add: same_echo_def)
  have "lineage g mid = filter (same_echo g (mi_Echo p)) pre @ lineage g k"
    using assms(2) r(1) e a by (simp add: lineage_def del: ancestry.simps)
  moreover have "lineage g k \<noteq> []" by (rule lineage_nonempty) (rule r(1))
  ultimately show ?thesis using r(1) by (simp add: root_def dom_def)
qed

lemma root_lineage: "g mid = Some p \<Longrightarrow> root g mid \<in> set (lineage g mid)"
  unfolding root_def using lineage_nonempty last_in_set by metis

lemma root_idem:
  assumes "ranked rk g" and "g mid = Some p"
  shows "root g mid \<in> dom g \<and> root g (root g mid) = root g mid"
proof -
  have "root g mid \<in> set (lineage g mid)" by (rule root_lineage) (rule assms(2))
  then show ?thesis by (rule lineage_root [OF assms])
qed

lemma topic_walk_ranked:
  assumes "ranked rk g" and "alike h g" and "g mid = Some p" and "rk mid < n"
    and "\<forall>k r. h k = Some r \<longrightarrow> mi_Topic r \<noteq> ''visited''"
  shows "topic_walk (Suc n) h (mi_Echo p) (Some mid) [] = Some (marked h (lineage g mid), lineage g mid)"
proof -
  have "ancestry n g mid = ancestry (Suc (card (dom g))) g mid"
    using ranked_card [OF assms(1,3)] by (intro ancestry_enough [OF assms(1,3,4)]) simp
  then have "filter (same_echo g (mi_Echo p)) (ancestry n g mid) = lineage g mid"
    using assms(3) by (simp add: lineage_def del: ancestry.simps)
  moreover have "\<forall>k r. h k = Some r \<and> rk k \<le> rk mid \<longrightarrow> mi_Topic r \<noteq> ''visited''" using assms(5) by blast
  ultimately show ?thesis
    using topic_walk_lineage [OF assms(1-4), of "mi_Echo p" "[]"] by (simp del: topic_walk.simps)
qed

section \<open>The topics partition the messages\<close>

text \<open>
  Every list of messages starts with its topic, the lists have no repetitions, and everything in a
  list has the topic as its root. \<open>P\<close> are the messages of a walk that have not joined a topic yet.
\<close>

definition topics_inv ::
  "(string \<rightharpoonup> MsgInfo) \<Rightarrow> string set \<Rightarrow> (string \<rightharpoonup> MsgInfo) \<Rightarrow> (string \<rightharpoonup> string) \<Rightarrow> (string \<rightharpoonup> string list) \<Rightarrow> bool" where
  "topics_inv g P h intopic topics =
     (alike h g \<and>
      (\<forall>x p. h x = Some p \<longrightarrow>
         mi_Topic p = [] \<or> mi_Topic p = root g x \<or> x \<in> P \<and> mi_Topic p = ''visited'') \<and>
      (\<forall>x t. intopic x = Some t \<longrightarrow>
         x \<in> dom g \<and> t = root g x \<and> x \<noteq> t \<and> x \<in> set (topic_list topics t) \<and>
         (\<exists>p. h x = Some p \<and> mi_Topic p = t)) \<and>
      (\<forall>t ts. topics t = Some ts \<longrightarrow>
         t \<in> dom g \<and> root g t = t \<and> ts \<noteq> [] \<and> hd ts = t \<and> distinct ts \<and>
         (\<forall>x\<in>set (tl ts). intopic x = Some t)))"

lemma inv_alike: "topics_inv g P h it tp \<Longrightarrow> alike h g"
  by (simp add: topics_inv_def)

lemma inv_topic:
  "topics_inv g P h it tp \<Longrightarrow> h x = Some p \<Longrightarrow>
     mi_Topic p = [] \<or> mi_Topic p = root g x \<or> x \<in> P \<and> mi_Topic p = ''visited''"
  by (simp add: topics_inv_def)

lemma inv_member:
  "topics_inv g P h it tp \<Longrightarrow> it x = Some t \<Longrightarrow>
     x \<in> dom g \<and> t = root g x \<and> x \<noteq> t \<and> x \<in> set (topic_list tp t) \<and> (\<exists>p. h x = Some p \<and> mi_Topic p = t)"
  by (simp add: topics_inv_def)

lemma inv_list:
  "topics_inv g P h it tp \<Longrightarrow> tp t = Some ts \<Longrightarrow>
     t \<in> dom g \<and> root g t = t \<and> ts \<noteq> [] \<and> hd ts = t \<and> distinct ts \<and> (\<forall>x\<in>set (tl ts). it x = Some t)"
  by (simp add: topics_inv_def)

lemma topics_invI:
  assumes "alike h g"
    and "\<And>x p. h x = Some p \<Longrightarrow>
         mi_Topic p = [] \<or> mi_Topic p = root g x \<or> x \<in> P \<and> mi_Topic p = ''visited''"
    and "\<And>x t. it x = Some t \<Longrightarrow>
         x \<in> dom g \<and> t = root g x \<and> x \<noteq> t \<and> x \<in> set (topic_list tp t) \<and> (\<exists>p. h x = Some p \<and> mi_Topic p = t)"
    and "\<And>t ts. tp t = Some ts \<Longrightarrow>
         t \<in> dom g \<and> root g t = t \<and> ts \<noteq> [] \<and> hd ts = t \<and> distinct ts \<and> (\<forall>x\<in>set (tl ts). it x = Some t)"
  shows "topics_inv g P h it tp"
  using assms unfolding topics_inv_def by blast

lemma topic_list_upd [simp]: "topic_list (tp(t \<mapsto> ts)) u = (if u = t then ts else topic_list tp u)"
  by (simp add: topic_list_def)

definition grows :: "(string \<rightharpoonup> string list) \<Rightarrow> (string \<rightharpoonup> string list) \<Rightarrow> bool" where
  "grows tp tp' = (\<forall>t. set (topic_list tp t) \<subseteq> set (topic_list tp' t))"

lemma grows_refl [simp]: "grows tp tp"
  by (simp add: grows_def)

lemma grows_trans: "grows a b \<Longrightarrow> grows b c \<Longrightarrow> grows a c"
  unfolding grows_def by blast

lemma topics_inv_open:
  assumes inv: "topics_inv g P h it tp" and "t \<in> dom g" and "root g t = t"
  shows "topics_inv g P h it (open_topic t tp) \<and> open_topic t tp t \<noteq> None \<and> grows tp (open_topic t tp)"
proof (cases "tp t")
  case None
  then have o: "open_topic t tp = tp(t \<mapsto> [t])" by (simp add: open_topic_def topic_list_def)
  have n: "topic_list tp t = []" using None by (simp add: topic_list_def)
  have "topics_inv g P h it (tp(t \<mapsto> [t]))"
  proof (rule topics_invI)
    fix x u assume "it x = Some u"
    from inv_member [OF inv this] show "x \<in> dom g \<and> u = root g x \<and> x \<noteq> u \<and>
        x \<in> set (topic_list (tp(t \<mapsto> [t])) u) \<and> (\<exists>p. h x = Some p \<and> mi_Topic p = u)"
      using n by auto
  next
    fix u ts assume u: "(tp(t \<mapsto> [t])) u = Some ts"
    show "u \<in> dom g \<and> root g u = u \<and> ts \<noteq> [] \<and> hd ts = u \<and> distinct ts \<and> (\<forall>x\<in>set (tl ts). it x = Some u)"
    proof (cases "u = t")
      case True
      then have "ts = [t]" using u by simp
      then show ?thesis using assms(2,3) True by simp
    next
      case False
      then have "tp u = Some ts" using u by simp
      then show ?thesis by (rule inv_list [OF inv])
    qed
  qed (use inv_alike [OF inv] inv_topic [OF inv] in blast)+
  then show ?thesis unfolding o grows_def using n by simp
next
  case (Some ts)
  then have "ts \<noteq> []" using inv_list [OF inv] by blast
  then show ?thesis using Some inv by (simp add: open_topic_def topic_list_def)
qed

lemma hd_in_topic:
  assumes "topics_inv g P h it tp" and "tp t \<noteq> None"
  shows "t \<in> set (topic_list tp t)"
proof -
  obtain ts where ts: "tp t = Some ts" using assms(2) by blast
  then have "ts \<noteq> []" "hd ts = t" using assms(1) by (auto simp: topics_inv_def)
  then show ?thesis using ts hd_in_set by (fastforce simp: topic_list_def)
qed

text \<open>Adding a message that is in no topic to its own.\<close>

lemma topics_inv_add:
  assumes inv: "topics_inv g P h it tp" and i: "i \<in> dom g" "root g i = t" "i \<noteq> t" "it i = None"
    and t: "tp t = Some ts" and h': "alike h' g"
      "\<forall>x. x \<noteq> i \<longrightarrow> h' x = h x" "\<exists>p. h' i = Some p \<and> mi_Topic p = t"
  shows "topics_inv g (P - {i}) h' (it(i \<mapsto> t)) (tp(t \<mapsto> ts @ [i]))"
proof -
  note ts = inv_list [OF inv t]
  have "i \<notin> set ts" using ts i(3,4) by (cases ts) auto
  show ?thesis
  proof (rule topics_invI)
    fix x p assume x: "h' x = Some p"
    show "mi_Topic p = [] \<or> mi_Topic p = root g x \<or> x \<in> P - {i} \<and> mi_Topic p = ''visited''"
    proof (cases "x = i")
      case True
      then show ?thesis using x h'(3) i(2) by simp
    next
      case False
      then have "h x = Some p" using x h'(2) by simp
      then show ?thesis using inv_topic [OF inv] False by blast
    qed
  next
    fix x u assume x: "(it(i \<mapsto> t)) x = Some u"
    show "x \<in> dom g \<and> u = root g x \<and> x \<noteq> u \<and> x \<in> set (topic_list (tp(t \<mapsto> ts @ [i])) u) \<and>
         (\<exists>p. h' x = Some p \<and> mi_Topic p = u)"
    proof (cases "x = i")
      case True
      then have "u = t" using x by simp
      then show ?thesis using True i h'(3) by simp
    next
      case False
      then have "it x = Some u" using x by simp
      from inv_member [OF inv this] show ?thesis using False h'(2) t by (auto simp: topic_list_def)
    qed
  next
    fix u us assume u: "(tp(t \<mapsto> ts @ [i])) u = Some us"
    show "u \<in> dom g \<and> root g u = u \<and> us \<noteq> [] \<and> hd us = u \<and> distinct us \<and>
         (\<forall>x\<in>set (tl us). (it(i \<mapsto> t)) x = Some u)"
    proof (cases "u = t")
      case True
      then have "us = ts @ [i]" using u by simp
      then show ?thesis using True ts \<open>i \<notin> set ts\<close> by simp
    next
      case False
      then have "tp u = Some us" using u by simp
      from inv_list [OF inv this] show ?thesis using i(4) by auto
    qed
  qed (rule h'(1))
qed

lemma inv_shrink:
  assumes "topics_inv g P h it tp" and "\<forall>x\<in>P - Q. \<exists>p. h x = Some p \<and> mi_Topic p = root g x"
  shows "topics_inv g Q h it tp"
proof (rule topics_invI)
  fix x p assume x: "h x = Some p"
  show "mi_Topic p = [] \<or> mi_Topic p = root g x \<or> x \<in> Q \<and> mi_Topic p = ''visited''"
  proof (cases "x \<in> P - Q")
    case True
    then obtain q where "h x = Some q" "mi_Topic q = root g x" using assms(2) by blast
    then show ?thesis using x by simp
  next
    case False
    then show ?thesis using inv_topic [OF assms(1) x] by blast
  qed
qed (use inv_alike [OF assms(1)] inv_member [OF assms(1)] inv_list [OF assms(1)] in blast)+

lemma set_topic_present:
  assumes "alike h g" and "i \<in> dom g"
  shows "\<exists>p. set_topic i t h i = Some p \<and> mi_Topic p = t"
proof -
  obtain q where "h i = Some q" using assms(2) alike_None [OF assms(1), of i] by (cases "h i") auto
  then show ?thesis by (simp add: set_topic_def)
qed

lemma set_topic_other: "x \<noteq> i \<Longrightarrow> set_topic i t h x = h x"
  by (simp add: set_topic_def split: option.split)

lemma join_topic_inv:
  assumes inv: "topics_inv g P h it tp" and i: "i \<in> dom g" "root g i = t" and t: "tp t = Some ts"
  shows "case join_topic t i (h, it, tp) of (h', it', tp') \<Rightarrow>
    topics_inv g (P - {i}) h' it' tp' \<and> tp' t \<noteq> None \<and> grows tp tp' \<and> i \<in> set (topic_list tp' t)"
proof -
  consider "i = t" | u where "i \<noteq> t" "it i = Some u" | "i \<noteq> t" "it i = None" by (cases "it i") auto
  then show ?thesis
  proof cases
    case 1
    note set = set_topic_present [OF inv_alike [OF inv] i(1), of t]
    have no: "it t \<noteq> Some u" for u using inv_member [OF inv, of t u] 1 i(2) by auto
    have "topics_inv g P (set_topic t t h) it tp"
    proof (rule topics_invI)
      show "alike (set_topic t t h) g" using inv_alike [OF inv] by simp
      fix x p assume "set_topic t t h x = Some p"
      then show "mi_Topic p = [] \<or> mi_Topic p = root g x \<or> x \<in> P \<and> mi_Topic p = ''visited''"
        using inv_topic [OF inv, of x p] set 1 i(2) set_topic_other [of x t t h] by (cases "x = t") auto
    next
      fix x u assume x: "it x = Some u"
      then have "x \<noteq> t" using no by auto
      then show "x \<in> dom g \<and> u = root g x \<and> x \<noteq> u \<and> x \<in> set (topic_list tp u) \<and>
          (\<exists>p. set_topic t t h x = Some p \<and> mi_Topic p = u)"
        using inv_member [OF inv x] unfolding set_topic_other [OF \<open>x \<noteq> t\<close>] by blast
    qed (rule inv_list [OF inv])
    moreover have "\<forall>x\<in>P - (P - {i}). \<exists>p. set_topic t t h x = Some p \<and> mi_Topic p = root g x"
    proof
      fix x assume "x \<in> P - (P - {i})"
      then have x: "x = i" by blast
      show "\<exists>p. set_topic t t h x = Some p \<and> mi_Topic p = root g x"
      proof -
        obtain q where q: "set_topic i t h i = Some q" "mi_Topic q = t" using set by blast
        have "set_topic t t h i = Some q" using q(1) by (simp only: 1)
        moreover have "mi_Topic q = root g i" by (simp only: q(2) i(2))
        ultimately show ?thesis unfolding x by blast
      qed
    qed
    ultimately have "topics_inv g (P - {i}) (set_topic i t h) it tp"
      unfolding 1 by (rule inv_shrink)
    then show ?thesis using 1 t hd_in_topic [OF inv, of t] by (simp add: join_topic_def)
  next
    case 2
    from inv_member [OF inv 2(2)] have m: "i \<in> set (topic_list tp t)" "\<exists>p. h i = Some p \<and> mi_Topic p = root g i"
      using i(2) by auto
    then have "topics_inv g (P - {i}) h it tp" by (intro inv_shrink [OF inv]) auto
    then show ?thesis using 2 m t by (simp add: join_topic_def)
  next
    case 3
    have "topics_inv g (P - {i}) (set_topic i t h) (it(i \<mapsto> t)) (tp(t \<mapsto> ts @ [i]))"
      using inv_alike [OF inv] set_topic_present [OF inv_alike [OF inv] i(1), of t] set_topic_other
      by (intro topics_inv_add [OF inv i 3 t]) auto
    moreover have "grows tp (tp(t \<mapsto> ts @ [i]))" using t by (auto simp: grows_def topic_list_def)
    ultimately show ?thesis using 3 t by (simp add: join_topic_def topic_list_def)
  qed
qed

lemma join_topics_inv:
  assumes "topics_inv g P h it tp" and "\<forall>i\<in>set l. i \<in> dom g \<and> root g i = t" and "tp t \<noteq> None"
  shows "case fold (join_topic t) l (h, it, tp) of (h', it', tp') \<Rightarrow>
    topics_inv g (P - set l) h' it' tp' \<and> grows tp tp' \<and> set l \<subseteq> set (topic_list tp' t)"
  using assms
proof (induction l arbitrary: P h it tp)
  case (Cons i l)
  obtain ts where ts: "tp t = Some ts" using Cons.prems(3) by blast
  obtain h1 it1 tp1 where j: "join_topic t i (h, it, tp) = (h1, it1, tp1)" by (metis prod_cases3)
  have s: "topics_inv g (P - {i}) h1 it1 tp1" "tp1 t \<noteq> None" "grows tp tp1" "i \<in> set (topic_list tp1 t)"
    using join_topic_inv [OF Cons.prems(1) _ _ ts, of i] Cons.prems(2) j by auto
  obtain h2 it2 tp2 where f: "fold (join_topic t) l (h1, it1, tp1) = (h2, it2, tp2)" by (metis prod_cases3)
  have r: "topics_inv g (P - {i} - set l) h2 it2 tp2" "grows tp1 tp2" "set l \<subseteq> set (topic_list tp2 t)"
    using Cons.IH [OF s(1) _ s(2)] Cons.prems(2) f by auto
  have "P - {i} - set l = P - set (i # l)" by auto
  moreover have "i \<in> set (topic_list tp2 t)" using s(4) r(2) by (auto simp: grows_def)
  ultimately show ?case using j f r grows_trans [OF s(3) r(2)] by simp
qed simp

text \<open>Ids that cannot be confused with the mark or with no topic at all.\<close>

definition proper_ids :: "(string \<rightharpoonup> MsgInfo) \<Rightarrow> bool" where
  "proper_ids g = ([] \<notin> dom g \<and> ''visited'' \<notin> dom g)"

lemma alike_marked: "alike (marked h l) g = alike h g"
proof -
  have "map_option (\<lambda>p. p\<lparr>mi_Topic := []\<rparr>) (marked h l k) = map_option (\<lambda>p. p\<lparr>mi_Topic := []\<rparr>) (h k)" for k
    by (cases "h k") (simp_all add: marked_def)
  then show ?thesis by (simp only: alike_def)
qed

lemma root_proper:
  assumes "ranked rk g" "proper_ids g" "x \<in> dom g"
  shows "root g x \<noteq> [] \<and> root g x \<noteq> ''visited''"
proof -
  obtain p where "g x = Some p" using assms(3) by blast
  from root_idem [OF assms(1) this] assms(2) show ?thesis by (auto simp: proper_ids_def)
qed

lemma marked_inv:
  assumes inv: "topics_inv g {} h it tp" and "ranked rk g" "proper_ids g"
  shows "topics_inv g (set l) (marked h l) it tp"
proof (rule topics_invI)
  show "alike (marked h l) g" using inv_alike [OF inv] by (simp only: alike_marked)
  fix x p assume "marked h l x = Some p"
  then show "mi_Topic p = [] \<or> mi_Topic p = root g x \<or> x \<in> set l \<and> mi_Topic p = ''visited''"
    using inv_topic [OF inv, of x] by (auto simp: marked_def split: if_splits)
next
  fix x t assume x: "it x = Some t"
  note m = inv_member [OF inv x]
  then obtain p where p: "h x = Some p" "mi_Topic p = t" by blast
  have "t \<noteq> []" using m root_proper [OF assms(2,3), of x] by simp
  then have "marked h l x = Some p" using p by (simp add: marked_def)
  then show "x \<in> dom g \<and> t = root g x \<and> x \<noteq> t \<and> x \<in> set (topic_list tp t) \<and>
      (\<exists>p. marked h l x = Some p \<and> mi_Topic p = t)"
    using m p by blast
qed (use inv_list [OF inv] in blast)

text \<open>One message: the invariant is kept, no list shrinks, and the message is in the list of its root.\<close>

lemma topic_step_inv:
  assumes inv: "topics_inv g {} h it tp" and g: "ranked rk g" "proper_ids g" and mid: "g mid = Some m"
    and n: "rk mid < n"
  shows "\<exists>h' it' tp'. topic_step (Suc n) mid (h, it, tp) = Some (h', it', tp') \<and>
    topics_inv g {} h' it' tp' \<and> grows tp tp' \<and> mid \<in> set (topic_list tp' (root g mid))"
proof -
  obtain p where p: "h mid = Some p" "mi_Num p = mi_Num m" "mi_Echo p = mi_Echo m"
    using alike_Some [OF alike_sym [OF inv_alike [OF inv]] mid] by force
  let ?t = "root g mid"
  have t: "?t \<in> dom g" "root g ?t = ?t" using root_idem [OF g(1) mid] by auto
  note o = topics_inv_open [OF inv t]
  consider u where "it mid = Some u" | "it mid = None" "mi_Topic p \<noteq> []" | "it mid = None" "mi_Topic p = []"
    by (cases "it mid") auto
  then show ?thesis
  proof cases
    case 1
    then show ?thesis using inv inv_member [OF inv 1] by (auto simp: topic_step_def)
  next
    case 2
    then have tp: "mi_Topic p = ?t" using inv_topic [OF inv p(1)] by auto
    obtain ts where ts: "open_topic ?t tp ?t = Some ts" using o by blast
    show ?thesis
    proof (cases "mid = ?t")
      case True
      have "topic_step (Suc n) mid (h, it, tp) = Some (h, it, open_topic ?t tp)"
        using 2 p tp True by (simp add: topic_step_def)
      moreover have "mid \<in> set (topic_list (open_topic ?t tp) ?t)"
        using hd_in_topic [of g "{}" h it "open_topic ?t tp" ?t] o True by auto
      ultimately show ?thesis using o by blast
    next
      case False
      have "topic_step (Suc n) mid (h, it, tp) =
          Some (h, it(mid \<mapsto> ?t), (open_topic ?t tp)(?t \<mapsto> ts @ [mid]))"
        using 2 p tp False ts by (simp add: topic_step_def topic_list_def Let_def)
      moreover have "topics_inv g ({} - {mid}) h (it(mid \<mapsto> ?t)) ((open_topic ?t tp)(?t \<mapsto> ts @ [mid]))"
        using o mid False 2 ts inv_alike [OF inv] p tp by (intro topics_inv_add) auto
      moreover have "grows tp ((open_topic ?t tp)(?t \<mapsto> ts @ [mid]))"
      proof -
        have "set ts = set (topic_list (open_topic ?t tp) ?t)" using ts by (simp add: topic_list_def)
        then show ?thesis using o by (auto simp: grows_def)
      qed
      ultimately show ?thesis by simp
    qed
  next
    case 3
    let ?l = "lineage g mid" and ?h = "marked h (lineage g mid)"
    have "\<forall>k r. h k = Some r \<longrightarrow> mi_Topic r \<noteq> ''visited''"
    proof (intro allI impI)
      fix k r assume k: "h k = Some r"
      then have "k \<in> dom g" using alike_Some [OF inv_alike [OF inv] k] by auto
      then show "mi_Topic r \<noteq> ''visited''"
        using inv_topic [OF inv k] root_proper [OF g, of k] by auto
    qed
    then have w: "topic_walk (Suc n) h (mi_Echo m) (Some mid) [] = Some (?h, ?l)"
      using topic_walk_ranked [OF g(1) inv_alike [OF inv] mid n] by blast
    have l: "?l \<noteq> []" "last ?l = ?t" using lineage_nonempty [of g mid m] mid by (simp_all add: root_def)
    let ?s = "sort_key (\<lambda>i. mi_Num (the (?h i))) ?l"
    obtain h' it' tp' where f: "fold (join_topic ?t) ?s (?h, it, open_topic ?t tp) = (h', it', tp')"
      by (metis prod_cases3)
    have step: "topic_step (Suc n) mid (h, it, tp) = Some (h', it', tp')"
      using 3 p w l f by (simp add: topic_step_def Let_def del: topic_walk.simps)
    have "topics_inv g (set ?l) ?h it (open_topic ?t tp)"
      using marked_inv o g by blast
    from join_topics_inv [OF this, of ?s ?t]
    have "topics_inv g (set ?l - set ?s) h' it' tp'" "grows (open_topic ?t tp) tp'"
        "set ?l \<subseteq> set (topic_list tp' ?t)"
      using lineage_root [OF g(1) mid] o f by auto
    then show ?thesis using step o grows_trans lineage_head [of g mid m] mid by auto
  qed
qed

lemma topic_steps_inv:
  assumes "topics_inv g {} h it tp" and "ranked rk g" "proper_ids g"
    and "\<forall>mid\<in>set mi. mid \<in> dom g \<and> rk mid < n"
  shows "\<exists>h' it' tp'. topic_steps (Suc n) mi (h, it, tp) = Some (h', it', tp') \<and>
    topics_inv g {} h' it' tp' \<and> grows tp tp' \<and> (\<forall>mid\<in>set mi. mid \<in> set (topic_list tp' (root g mid)))"
  using assms
proof (induction mi arbitrary: h it tp)
  case (Cons mid mi)
  obtain m where m: "g mid = Some m" "rk mid < n" using Cons.prems(4) by auto
  obtain h1 it1 tp1 where s: "topic_step (Suc n) mid (h, it, tp) = Some (h1, it1, tp1)"
      "topics_inv g {} h1 it1 tp1" "grows tp tp1" "mid \<in> set (topic_list tp1 (root g mid))"
    using topic_step_inv [OF Cons.prems(1-3) m] by blast
  obtain h2 it2 tp2 where r: "topic_steps (Suc n) mi (h1, it1, tp1) = Some (h2, it2, tp2)"
      "topics_inv g {} h2 it2 tp2" "grows tp1 tp2" "\<forall>mid\<in>set mi. mid \<in> set (topic_list tp2 (root g mid))"
    using Cons.IH [OF s(2)] Cons.prems by auto
  have "mid \<in> set (topic_list tp2 (root g mid))" using s(4) r(3) by (auto simp: grows_def)
  then show ?case using s r grows_trans [OF s(3) r(3)] by auto
qed simp

lemma topics_inv_start:
  assumes "\<forall>x p. h x = Some p \<longrightarrow> mi_Topic p = [] \<or> mi_Topic p = root h x"
  shows "topics_inv h {} h Map.empty Map.empty"
  using assms by (intro topics_invI) auto

section \<open>When it does not\<close>

text \<open>
  In one area, and with no topic resolved yet, the marks end every walk, whatever the replies form:
  each turn marks one more entry.
\<close>

definition unmarked :: "(string \<rightharpoonup> MsgInfo) \<Rightarrow> string set" where
  "unmarked h = {k. \<exists>p. h k = Some p \<and> mi_Topic p = []}"

lemma topic_walk_guarded:
  assumes "finite (dom h)" and "card (unmarked h) < n"
    and "\<forall>k p. h k = Some p \<longrightarrow> mi_Echo p = echo \<and> (mi_Topic p = [] \<or> mi_Topic p = ''visited'')"
  shows "topic_walk (Suc n) h echo mid l \<noteq> None"
  using assms
proof (induction n arbitrary: h mid l)
  case (Suc n)
  show ?case
  proof (cases mid)
    case (Some k)
    show ?thesis
    proof (cases "h k")
      case p: (Some p)
      show ?thesis
      proof (cases "mi_Repto p = mi_Id p \<or> mi_Topic p = ''visited''")
        case False
        then have e: "mi_Echo p = echo" "mi_Topic p = []" using Suc.prems(3) p by auto
        let ?h = "set_topic k ''visited'' h"
        have "unmarked ?h = unmarked h - {k}" and k: "k \<in> unmarked h"
          using p e by (auto simp: unmarked_def set_topic_def split: if_splits)
        moreover have "finite (unmarked h)"
          using Suc.prems(1) by (rule rev_finite_subset) (auto simp: unmarked_def)
        ultimately have "card (unmarked ?h) < n" using Suc.prems(2) card_Suc_Diff1 [of "unmarked h" k] by simp
        moreover have "finite (dom ?h)" using Suc.prems(1) p by (simp add: set_topic_def insert_absorb domI)
        moreover have "\<forall>k p. ?h k = Some p \<longrightarrow> mi_Echo p = echo \<and> (mi_Topic p = [] \<or> mi_Topic p = ''visited'')"
          using Suc.prems(3) p by (auto simp: set_topic_def)
        ultimately have "topic_walk (Suc n) ?h echo (parent h p) (l @ [k]) \<noteq> None" by (intro Suc.IH)
        then show ?thesis using p e False Some by (simp del: topic_walk.simps(3) add: topic_walk.simps(3) [of "Suc n"])
      qed (use p Some in simp)
    qed (use Some in simp)
  qed simp
qed simp

text \<open>
  Entries of another area are passed without a mark: a cycle among them has no end, for any fuel.
\<close>

lemma topic_walk_foreign_cycle:
  assumes "h a = Some pa" "h b = Some pb" "parent h pa = Some b" "parent h pb = Some a"
    and "mi_Echo pa \<noteq> echo" "mi_Echo pb \<noteq> echo"
    and "mi_Repto pa \<noteq> mi_Id pa" "mi_Repto pb \<noteq> mi_Id pb"
    and "mi_Topic pa \<noteq> ''visited''" "mi_Topic pb \<noteq> ''visited''"
  shows "topic_walk n h echo (Some a) l = None \<and> topic_walk n h echo (Some b) l = None"
proof (induction n)
  case (Suc n)
  then show ?case using assms by auto
qed simp

end
