(* ===== verification/Go_Regexp.thy ===== *)
theory Go_Regexp
  imports Go_Prelude
begin

text \<open>
  Matching against a regular expression, for the one pattern the sources fix
  (\<^verbatim>\<open>emailRegex\<close>): a syntax, its language, and a matcher by derivatives. The pattern is
  anchored at both ends, so matching is membership in the language. Patterns read from files stay
  parameters of the definitions that use them.
\<close>

datatype rx = RNone | REps | RSet string | RSeq rx rx | RAlt rx rx | RStar rx

definition RPlus :: "rx \<Rightarrow> rx" where "RPlus r = RSeq r (RStar r)"
definition ROpt :: "rx \<Rightarrow> rx" where "ROpt r = RAlt REps r"

text \<open>\<open>r{0,n}\<close>\<close>

fun RUpto :: "rx \<Rightarrow> nat \<Rightarrow> rx" where
  "RUpto r 0 = REps"
| "RUpto r (Suc n) = ROpt (RSeq r (RUpto r n))"

fun rx_nullable :: "rx \<Rightarrow> bool" where
  "rx_nullable RNone = False"
| "rx_nullable REps = True"
| "rx_nullable (RSet cs) = False"
| "rx_nullable (RSeq a b) = (rx_nullable a \<and> rx_nullable b)"
| "rx_nullable (RAlt a b) = (rx_nullable a \<or> rx_nullable b)"
| "rx_nullable (RStar a) = True"

fun rx_deriv :: "char \<Rightarrow> rx \<Rightarrow> rx" where
  "rx_deriv c RNone = RNone"
| "rx_deriv c REps = RNone"
| "rx_deriv c (RSet cs) = (if c \<in> set cs then REps else RNone)"
| "rx_deriv c (RSeq a b) =
     (if rx_nullable a then RAlt (RSeq (rx_deriv c a) b) (rx_deriv c b) else RSeq (rx_deriv c a) b)"
| "rx_deriv c (RAlt a b) = RAlt (rx_deriv c a) (rx_deriv c b)"
| "rx_deriv c (RStar a) = RSeq (rx_deriv c a) (RStar a)"

fun rx_match :: "rx \<Rightarrow> string \<Rightarrow> bool" where
  "rx_match r [] = rx_nullable r"
| "rx_match r (c # s) = rx_match (rx_deriv c r) s"

section \<open>The language\<close>

inductive_set lang_star :: "string set \<Rightarrow> string set" for L where
  star_Nil: "[] \<in> lang_star L"
| star_step: "u \<in> L \<Longrightarrow> v \<in> lang_star L \<Longrightarrow> u @ v \<in> lang_star L"

fun lang :: "rx \<Rightarrow> string set" where
  "lang RNone = {}"
| "lang REps = {[]}"
| "lang (RSet cs) = {[c] |c. c \<in> set cs}"
| "lang (RSeq a b) = {u @ v |u v. u \<in> lang a \<and> v \<in> lang b}"
| "lang (RAlt a b) = lang a \<union> lang b"
| "lang (RStar a) = lang_star (lang a)"

lemma rx_nullable_lang: "rx_nullable r \<longleftrightarrow> [] \<in> lang r"
  by (induction r) (auto intro: star_Nil)

lemma lang_star_Cons:
  "c # w \<in> lang_star L \<longleftrightarrow> (\<exists>u v. w = u @ v \<and> c # u \<in> L \<and> v \<in> lang_star L)"
proof
  assume "c # w \<in> lang_star L"
  then show "\<exists>u v. w = u @ v \<and> c # u \<in> L \<and> v \<in> lang_star L"
  proof (induction "c # w" arbitrary: w rule: lang_star.induct)
    case (star_step u v)
    then show ?case by (cases u) auto
  qed
next
  assume "\<exists>u v. w = u @ v \<and> c # u \<in> L \<and> v \<in> lang_star L"
  then show "c # w \<in> lang_star L" using star_step [of "c # _" L] by fastforce
qed

lemma seq_Cons:
  "c # w \<in> {u @ v |u v. u \<in> A \<and> v \<in> B} \<longleftrightarrow>
     (\<exists>u v. w = u @ v \<and> c # u \<in> A \<and> v \<in> B) \<or> [] \<in> A \<and> c # w \<in> B"
  (is "?l \<longleftrightarrow> ?r")
proof
  assume ?l
  then obtain u v where uv: "c # w = u @ v" "u \<in> A" "v \<in> B" by blast
  then show ?r by (cases u) auto
next
  assume ?r
  then show ?l
  proof
    assume "\<exists>u v. w = u @ v \<and> c # u \<in> A \<and> v \<in> B"
    then obtain u v where "w = u @ v" "c # u \<in> A" "v \<in> B" by blast
    then have "c # w = (c # u) @ v" by simp
    then show ?l using \<open>c # u \<in> A\<close> \<open>v \<in> B\<close> by blast
  next
    assume "[] \<in> A \<and> c # w \<in> B"
    moreover have "c # w = [] @ (c # w)" by simp
    ultimately show ?l by blast
  qed
qed

lemma rx_deriv_lang: "w \<in> lang (rx_deriv c r) \<longleftrightarrow> c # w \<in> lang r"
proof (induction r arbitrary: w)
  case (RSeq a b)
  then show ?case unfolding lang.simps(4) seq_Cons by (auto simp: rx_nullable_lang)
next
  case (RStar a)
  then show ?case by (auto simp: lang_star_Cons)
qed auto

lemma rx_match_lang: "rx_match r s \<longleftrightarrow> s \<in> lang r"
  by (induction r s rule: rx_match.induct) (simp_all add: rx_nullable_lang rx_deriv_lang)

text \<open>A string of the language has only characters of the expression.\<close>

fun rx_chars :: "rx \<Rightarrow> char set" where
  "rx_chars (RSet cs) = set cs"
| "rx_chars (RSeq a b) = rx_chars a \<union> rx_chars b"
| "rx_chars (RAlt a b) = rx_chars a \<union> rx_chars b"
| "rx_chars (RStar a) = rx_chars a"
| "rx_chars _ = {}"

lemma lang_star_chars: "w \<in> lang_star L \<Longrightarrow> \<forall>u\<in>L. set u \<subseteq> C \<Longrightarrow> set w \<subseteq> C"
  by (induction rule: lang_star.induct) auto

lemma lang_chars: "w \<in> lang r \<Longrightarrow> set w \<subseteq> rx_chars r"
proof (induction r arbitrary: w)
  case (RStar a)
  then show ?case using lang_star_chars [of w "lang a" "rx_chars a"] by simp
qed fastforce+

lemma rx_chars_derived [simp]:
  "rx_chars (RPlus r) = rx_chars r" "rx_chars (ROpt r) = rx_chars r"
  by (simp_all add: RPlus_def ROpt_def)

lemma rx_chars_Upto: "rx_chars (RUpto r n) \<subseteq> rx_chars r"
  by (induction n) auto

section \<open>The address pattern\<close>

definition rx_alnum :: string where
  "rx_alnum = ''abcdefghijklmnopqrstuvwxyzABCDEFGHIJKLMNOPQRSTUVWXYZ0123456789''"

definition rx_local :: string where
  "rx_local = rx_alnum @ ''.!#$%&'' @ [CHR 0x27] @ ''*+/=?^_`{|}~-''"

text \<open>\<^verbatim>\<open>[a-zA-Z0-9](?:[a-zA-Z0-9-]{0,61}[a-zA-Z0-9])?\<close>\<close>

definition rx_label :: rx where
  "rx_label = RSeq (RSet rx_alnum)
     (ROpt (RSeq (RUpto (RSet (rx_alnum @ ''-'')) 61) (RSet rx_alnum)))"

definition emailRegex :: rx where
  "emailRegex = RSeq (RPlus (RSet rx_local)) (RSeq (RSet ''@'')
     (RSeq rx_label (RStar (RSeq (RSet ''.'') rx_label))))"

lemma emailRegex_chars: "rx_match emailRegex s \<Longrightarrow> set s \<subseteq> set (rx_local @ ''@.-'')"
proof -
  assume "rx_match emailRegex s"
  then have "set s \<subseteq> rx_chars emailRegex" using lang_chars by (simp add: rx_match_lang)
  moreover have "rx_chars rx_label \<subseteq> set rx_alnum \<union> set ''-''"
    using rx_chars_Upto [of "RSet (rx_alnum @ ''-'')" 61]
    unfolding rx_label_def rx_chars.simps rx_chars_derived set_append by blast
  moreover have "set rx_alnum \<subseteq> set rx_local" unfolding rx_local_def set_append by blast
  moreover have "rx_chars emailRegex = set rx_local \<union> (set ''@'' \<union> (rx_chars rx_label \<union> (set ''.'' \<union> rx_chars rx_label)))"
    unfolding emailRegex_def rx_chars.simps rx_chars_derived ..
  ultimately have "set s \<subseteq> set rx_local \<union> (set ''@'' \<union> set ''.'' \<union> set ''-'')" by blast
  then show ?thesis unfolding set_append by (simp only: list.set) blast
qed

lemma email_clean: "rx_match emailRegex s \<Longrightarrow> CHR '':'' \<notin> set s \<and> NL \<notin> set s \<and> s \<noteq> []"
proof -
  assume m: "rx_match emailRegex s"
  have "CHR '':'' \<notin> set (rx_local @ ''@.-'')" "NL \<notin> set (rx_local @ ''@.-'')"
    by (simp_all add: rx_local_def rx_alnum_def)
  moreover have "s \<noteq> []" using m by (cases s) (auto simp: emailRegex_def RPlus_def)
  ultimately show ?thesis using emailRegex_chars [OF m] by blast
qed

end
