(* ===== verification/II_Users.thy ===== *)
theory II_Users
  imports II_Query Go_Regexp
begin

text \<open>
  The user database (\<^verbatim>\<open>ii/db.go\<close>: \<^verbatim>\<open>User\<close>, \<^verbatim>\<open>UserPolicy\<close>,
  \<^verbatim>\<open>UDB\<close>): a file of lines \<^verbatim>\<open>id:name:mail:secret:tags\<close>, read into three maps and
  a list whenever its size has changed. The abstract specification is the list of users the file
  holds; \<open>udb_rep\<close> says that a database has the file of such a list, with memory that is either up to
  date or older than the file. The policy file holds regular expressions of the administrator: the
  compiler of package \<^verbatim>\<open>regexp\<close> is the parameter \<open>compile\<close>.
\<close>

section \<open>State\<close>

record UserPolicy =
  up_Name :: "(string \<Rightarrow> bool) option"
  up_Mail :: "(string \<Rightarrow> bool) option"
  up_Country :: "(string \<Rightarrow> bool) option"
  up_Status :: string

record UDB =
  ud_file :: gofile
  ud_policy :: "gofile option"
  ud_Names :: "User gomap"
  ud_ById :: "int \<rightharpoonup> string"
  ud_Secrets :: "string \<rightharpoonup> string"
  ud_List :: "string list"
  ud_FileSize :: int
  ud_Policy :: "UserPolicy list"
  ud_PolFileSize :: int
  ud_NewUsersMax :: int
  ud_NewUsers :: int
  ud_Locked :: bool

text \<open>\<^verbatim>\<open>OpenUsers\<close>; a policy path that is the empty string is \<open>None\<close>.\<close>

definition OpenUsers :: "gofile \<Rightarrow> gofile option \<Rightarrow> UDB" where
  "OpenUsers f pol =
     \<lparr>ud_file = f, ud_policy = pol, ud_Names = None, ud_ById = Map.empty, ud_Secrets = Map.empty,
      ud_List = [], ud_FileSize = 0, ud_Policy = [], ud_PolFileSize = 0, ud_NewUsersMax = 0,
      ud_NewUsers = 0, ud_Locked = False\<rparr>"

section \<open>Names, passwords and secrets\<close>

definition IsUsername :: "string \<Rightarrow> bool" where
  "IsUsername u =
     (\<not> ContainsAny u [CHR '':'', NL, CR, TAB, CHR ''/''] \<and> \<not> HasPrefix u '' '' \<and> \<not> HasSuffix u '' '' \<and>
      length u \<le> 16 \<and> length u > 2)"

definition IsPassword :: "string \<Rightarrow> bool" where
  "IsPassword u = (length u \<ge> 1)"

definition MakeSecret :: "string \<Rightarrow> string" where
  "MakeSecret msg = take 10 (URLEncode (Sum256 msg))"

section \<open>Queries\<close>

definition Secret :: "UDB \<Rightarrow> string \<Rightarrow> string" where
  "Secret db n = (case map_get (ud_Names db) n of None \<Rightarrow> [] | Some ui \<Rightarrow> us_Secret ui)"

definition Auth :: "UDB \<Rightarrow> string \<Rightarrow> string \<Rightarrow> bool" where
  "Auth db n passwd =
     (case map_get (ud_Names db) n of None \<Rightarrow> False | Some ui \<Rightarrow> us_Secret ui = MakeSecret (n @ passwd))"

definition UDB_Access :: "UDB \<Rightarrow> string \<Rightarrow> bool" where
  "UDB_Access db secret = (ud_Secrets db secret \<noteq> None)"

definition UDB_Name :: "UDB \<Rightarrow> string \<Rightarrow> string" where
  "UDB_Name db secret = (case ud_Secrets db secret of Some name \<Rightarrow> name | None \<Rightarrow> [])"

text \<open>\<^verbatim>\<open>v := db.Names[name]\<close>: the zero value if the name is missing.\<close>

definition user_of :: "UDB \<Rightarrow> string \<Rightarrow> User" where
  "user_of db n = (case map_get (ud_Names db) n of None \<Rightarrow> nil_user | Some u \<Rightarrow> u)"

definition UserInfo :: "UDB \<Rightarrow> string \<Rightarrow> User option" where
  "UserInfo db secret = map_option (user_of db) (ud_Secrets db secret)"

definition UserInfoId :: "UDB \<Rightarrow> int \<Rightarrow> User option" where
  "UserInfoId db i = map_option (user_of db) (ud_ById db i)"

definition UserInfoName :: "UDB \<Rightarrow> string \<Rightarrow> User option" where
  "UserInfoName db n = map_get (ud_Names db) n"

definition UDB_Id :: "UDB \<Rightarrow> string \<Rightarrow> int" where
  "UDB_Id db secret =
     (case ud_Secrets db secret of
        Some name \<Rightarrow> (case map_get (ud_Names db) name of None \<Rightarrow> -1 | Some v \<Rightarrow> us_Id v)
      | None \<Rightarrow> -1)"

section \<open>Registration and change\<close>

definition user_line :: "int \<Rightarrow> string \<Rightarrow> string \<Rightarrow> string \<Rightarrow> Tags \<Rightarrow> string" where
  "user_line i name mail secret tags =
     itoa i @ '':'' @ name @ '':'' @ mail @ '':'' @ secret @ '':'' @ Tags_String tags"

text \<open>
  The largest id in \<^verbatim>\<open>db.Names\<close>, at least 0. The names in memory are all in the list, so
  ranging over the list meets every entry of the map.
\<close>

definition max_user_id :: "UDB \<Rightarrow> int" where
  "max_user_id db =
     fold (\<lambda>n i. case map_get (ud_Names db) n of None \<Rightarrow> i | Some v \<Rightarrow> if us_Id v > i then us_Id v else i)
       (ud_List db) 0"

definition UDB_Add :: "UDB \<Rightarrow> string \<Rightarrow> string \<Rightarrow> string \<Rightarrow> string \<Rightarrow> UDB \<times> ii_error option" where
  "UDB_Add db name mail passwd info =
     (if map_get (ud_Names db) name \<noteq> None then (db, Some EUserExists)
      else if \<not> IsUsername name then (db, Some EWrongUsername)
      else if \<not> IsPassword passwd then (db, Some EBadPassword)
      else if \<not> rx_match emailRegex mail then (db, Some EWrongEmail)
      else if ud_Locked db then (db, Some EMaxUsers)
      else let i = wrap32 (max_user_id db + 1);
               secret = MakeSecret (name @ passwd);
               tags = NewTags info;
               db = db\<lparr>ud_List := ud_List db @ [name]\<rparr> in
      (case append_file (ud_file db) (user_line i name mail secret tags) of
         Inl e \<Rightarrow> (db, Some e)
       | Inr f \<Rightarrow> (db\<lparr>ud_file := f\<rparr>, None)))"

text \<open>
  \<^verbatim>\<open>Edit\<close>: the list is written to a new file, users with status \<^verbatim>\<open>remove\<close> left out,
  and renamed over the old one. Without a line there is no file to rename.
\<close>

fun edit_lines :: "UDB \<Rightarrow> string list \<Rightarrow> gofile \<Rightarrow> ii_error + gofile" where
  "edit_lines db [] tmp = Inr tmp"
| "edit_lines db (n # ns) tmp =
     (let ui = user_of db n in
      if Tags_val (us_Tags ui) ''status'' \<noteq> ''remove'' then
        (case append_file tmp (user_line (us_Id ui) n (us_Mail ui) (us_Secret ui) (us_Tags ui)) of
           Inl e \<Rightarrow> Inl e
         | Inr tmp \<Rightarrow> edit_lines db ns tmp)
      else edit_lines db ns tmp)"

definition UDB_Edit :: "UDB \<Rightarrow> User \<Rightarrow> UDB \<times> ii_error option" where
  "UDB_Edit db u =
     (case ud_Names db of
        None \<Rightarrow> (db, Some ENoSuchUser)
      | Some h \<Rightarrow>
          if h (us_Name u) = None then (db, Some ENoSuchUser)
          else let db = db\<lparr>ud_Names := Some (h(us_Name u \<mapsto> u))\<rparr> in
          (case edit_lines db (ud_List db) NoFile of
             Inl e \<Rightarrow> (db, Some e)
           | Inr NoFile \<Rightarrow> (db, Some EIO)
           | Inr tmp \<Rightarrow> (db\<lparr>ud_file := tmp, ud_FileSize := 0\<rparr>, None)))"

section \<open>Loading\<close>

definition policy_line :: "(string \<Rightarrow> (string \<Rightarrow> bool) option) \<Rightarrow> string \<Rightarrow> UDB \<Rightarrow> UDB \<times> bool" where
  "policy_line compile line db =
     (let a = Split (CHR '':'') line in
      if length a < 4 then
        (if length a = 1 then (db\<lparr>ud_NewUsersMax := Atoi_val line\<rparr>, True) else (db, True))
      else (db\<lparr>ud_Policy := ud_Policy db @
                 [\<lparr>up_Name = compile (a ! 0), up_Mail = compile (a ! 1), up_Country = compile (a ! 2),
                   up_Status = a ! 3\<rparr>]\<rparr>, True))"

definition loadPolicy :: "(string \<Rightarrow> (string \<Rightarrow> bool) option) \<Rightarrow> UDB \<Rightarrow> UDB" where
  "loadPolicy compile db =
     (case ud_policy db of
        None \<Rightarrow> db
      | Some f \<Rightarrow>
          let fsize = filesize f in
          if fsize < 0 then db
          else if ud_PolFileSize db = fsize then db
          else fst (FileLines f (policy_line compile) (db\<lparr>ud_PolFileSize := fsize, ud_Policy := []\<rparr>)))"

definition policy_matches :: "(string \<Rightarrow> bool) option \<Rightarrow> string \<Rightarrow> bool" where
  "policy_matches re s = (case re of None \<Rightarrow> True | Some f \<Rightarrow> f s)"

definition UserStatus :: "UDB \<Rightarrow> string \<Rightarrow> string \<Rightarrow> string \<Rightarrow> string" where
  "UserStatus db name mail country =
     (case find (\<lambda>v. policy_matches (up_Name v) name \<and> policy_matches (up_Mail v) mail \<and>
                     policy_matches (up_Country v) country) (ud_Policy db) of
        Some v \<Rightarrow> up_Status v
      | None \<Rightarrow> ''status/new'')"

text \<open>One line of the user file. A line with four fields passes the length test and then panics.\<close>

definition parse_user :: "string \<Rightarrow> ii_error + User option" where
  "parse_user line =
     (let a = Split (CHR '':'') line in
      if length a < 4 then Inr None
      else (case sscan_d 32 (a ! 0) of
        None \<Rightarrow> Inr None
      | Some (i, _) \<Rightarrow>
          if length a < 5 then Inl (EPanic PIndex)
          else Inr (Some \<lparr>us_Id = i, us_Name = a ! 1, us_Mail = a ! 2, us_Secret = a ! 3,
                          us_Tags = NewTags (a ! 4)\<rparr>)))"

definition put_user :: "UDB \<Rightarrow> User \<Rightarrow> UDB" where
  "put_user db u =
     (let n = (if Tags_val (us_Tags u) ''status'' = ''new'' then ud_NewUsers db + 1 else ud_NewUsers db) in
      db\<lparr>ud_NewUsers := n,
         ud_Locked := (if ud_NewUsersMax db \<ge> 0 \<and> n \<ge> ud_NewUsersMax db \<and> \<not> ud_Locked db then True
                       else ud_Locked db),
         ud_ById := (ud_ById db)(us_Id u \<mapsto> us_Name u),
         ud_Names := map_option (\<lambda>h. h(us_Name u \<mapsto> u)) (ud_Names db),
         ud_Secrets := (ud_Secrets db)(us_Secret u \<mapsto> us_Name u),
         ud_List := ud_List db @ [us_Name u]\<rparr>)"

definition load_user_line :: "string \<Rightarrow> UDB \<times> ii_error option \<Rightarrow> (UDB \<times> ii_error option) \<times> bool" where
  "load_user_line line st =
     (case st of (db, err) \<Rightarrow>
        if HasPrefix line ''!lock'' then ((db\<lparr>ud_Locked := True\<rparr>, err), True)
        else (case parse_user line of
          Inl e \<Rightarrow> ((db, Some e), False)
        | Inr None \<Rightarrow> ((db, err), True)
        | Inr (Some u) \<Rightarrow> ((put_user db u, err), True)))"

definition LoadUsers :: "(string \<Rightarrow> (string \<Rightarrow> bool) option) \<Rightarrow> UDB \<Rightarrow> UDB \<times> ii_error option" where
  "LoadUsers compile db =
     (let fsize = filesize (ud_file db) in
      if fsize < 0 then (db, Some EIO)
      else if ud_FileSize db = fsize then (db, None)
      else
        let db = db\<lparr>ud_Names := Some Map.empty, ud_Secrets := Map.empty, ud_ById := Map.empty,
                    ud_List := [], ud_Locked := False, ud_NewUsersMax := -1\<rparr>;
            db = (loadPolicy compile db)\<lparr>ud_NewUsers := 0\<rparr>
        in (case FileLines (ud_file db) load_user_line (db, None) of
              ((db, Some e), _) \<Rightarrow> (db, Some e)
            | ((db, None), Some e) \<Rightarrow> (db, Some e)
            | ((db, None), None) \<Rightarrow> (db\<lparr>ud_FileSize := fsize\<rparr>, None)))"

section \<open>Records of users\<close>

definition field_ok :: "string \<Rightarrow> bool" where
  "field_ok s = (CHR '':'' \<notin> set s \<and> NL \<notin> set s)"

text \<open>A user whose line can be read back.\<close>

definition user_ok :: "User \<Rightarrow> bool" where
  "user_ok u =
     (in32 (us_Id u) \<and> field_ok (us_Name u) \<and> field_ok (us_Mail u) \<and> field_ok (us_Secret u) \<and>
      tags_ok (us_Tags u) \<and> field_ok (Tags_String (us_Tags u)))"

definition print_user :: "User \<Rightarrow> string" where
  "print_user u = user_line (us_Id u) (us_Name u) (us_Mail u) (us_Secret u) (us_Tags u)"

lemma Split_print_user:
  "user_ok u \<Longrightarrow> Split (CHR '':'') (print_user u) =
     [itoa (us_Id u), us_Name u, us_Mail u, us_Secret u, Tags_String (us_Tags u)]"
  by (simp add: print_user_def user_line_def user_ok_def field_ok_def Split_append Split_no_sep)

lemma parse_print_user: "user_ok u \<Longrightarrow> parse_user (print_user u) = Inr (Some u)"
  using sscan_d_itoa [of 32 "us_Id u" "[]"] MakeTags_Tags_String [of "us_Tags u"]
  by (cases u) (simp add: parse_user_def Split_print_user Let_def NewTags_def user_ok_def)

definition read_user :: "string \<Rightarrow> User option" where
  "read_user line = (case parse_user line of Inr (Some u) \<Rightarrow> Some u | _ \<Rightarrow> None)"

lemma print_user_line: "user_ok u \<Longrightarrow> NL \<notin> set (print_user u)"
  by (simp add: print_user_def user_line_def user_ok_def field_ok_def)

lemma print_user_lock: "\<not> HasPrefix (print_user u) ''!lock''"
proof -
  have "hd (print_user u) \<in> set (itoa (us_Id u))"
    by (cases "itoa (us_Id u)") (auto simp: print_user_def user_line_def)
  then have "hd (print_user u) \<noteq> CHR ''!''"
    using itoa_chars [of "CHR ''!''" "us_Id u"] by (auto simp: is_digit_def)
  then show ?thesis by (auto simp: HasPrefix_iff)
qed

interpretation users: line_codec user_ok print_user read_user
  by unfold_locales (simp_all add: read_user_def parse_print_user print_user_line)

lemma load_user_line_print:
  "user_ok u \<Longrightarrow> load_user_line (print_user u) st = ((put_user (fst st) u, snd st), True)"
  by (cases st) (simp add: load_user_line_def print_user_lock parse_print_user)

section \<open>The abstract list of users\<close>

definition users_text :: "User list \<Rightarrow> string" where
  "users_text us = unlines (map print_user us)"

text \<open>Memory that shows the list \<open>us\<close>.\<close>

definition udb_mem :: "UDB \<Rightarrow> User list \<Rightarrow> bool" where
  "udb_mem db us =
     ((\<forall>n. map_get (ud_Names db) n = last_of (map (\<lambda>u. (us_Name u, u)) us) n) \<and>
      ud_Secrets db = last_of (map (\<lambda>u. (us_Secret u, us_Name u)) us) \<and>
      ud_ById db = last_of (map (\<lambda>u. (us_Id u, us_Name u)) us) \<and>
      ud_List db = map us_Name us)"

definition users_ok :: "User list \<Rightarrow> bool" where
  "users_ok us =
     ((\<forall>u\<in>set us. user_ok u) \<and> distinct (map us_Name us) \<and> distinct (map us_Id us))"

definition udb_rep :: "UDB \<Rightarrow> User list \<Rightarrow> bool" where
  "udb_rep db us =
     (users_ok us \<and> holds_text (ud_file db) (users_text us) \<and>
      (ud_FileSize db = int (length (users_text us)) \<and> udb_mem db us \<or>
       0 \<le> ud_FileSize db \<and> ud_FileSize db < int (length (users_text us))))"

definition udb_loaded :: "UDB \<Rightarrow> User list \<Rightarrow> bool" where
  "udb_loaded db us =
     (users_ok us \<and> holds_text (ud_file db) (users_text us) \<and>
      ud_FileSize db = int (length (users_text us)) \<and> udb_mem db us)"

lemma udb_loaded_rep: "udb_loaded db us \<Longrightarrow> udb_rep db us"
  by (simp add: udb_loaded_def udb_rep_def)

lemma last_of_snoc: "last_of (ps @ [(k, v)]) = (last_of ps)(k \<mapsto> v)"
  by (rule ext) (simp add: last_of_append)

lemma put_user_sel [simp]:
  "ud_Names (put_user db u) = map_option (\<lambda>h. h(us_Name u \<mapsto> u)) (ud_Names db)"
  "ud_Secrets (put_user db u) = (ud_Secrets db)(us_Secret u \<mapsto> us_Name u)"
  "ud_ById (put_user db u) = (ud_ById db)(us_Id u \<mapsto> us_Name u)"
  "ud_List (put_user db u) = ud_List db @ [us_Name u]"
  "ud_file (put_user db u) = ud_file db"
  by (simp_all add: put_user_def Let_def)

lemma put_users_mem:
  assumes "ud_Names db = Some Map.empty" "ud_Secrets db = Map.empty" "ud_ById db = Map.empty" "ud_List db = []"
  shows "ud_Names (foldl put_user db us) = Some (last_of (map (\<lambda>u. (us_Name u, u)) us)) \<and>
    ud_Secrets (foldl put_user db us) = last_of (map (\<lambda>u. (us_Secret u, us_Name u)) us) \<and>
    ud_ById (foldl put_user db us) = last_of (map (\<lambda>u. (us_Id u, us_Name u)) us) \<and>
    ud_List (foldl put_user db us) = map us_Name us \<and>
    ud_file (foldl put_user db us) = ud_file db"
proof (induction us rule: rev_induct)
  case Nil
  then show ?case using assms by (simp add: fun_eq_iff)
next
  case (snoc u us)
  then show ?case by (simp add: last_of_snoc) (simp add: fun_upd_def)
qed

lemma policy_run_frame:
  "ud_Names (run_lines (policy_line compile) ls db) = ud_Names db \<and>
   ud_Secrets (run_lines (policy_line compile) ls db) = ud_Secrets db \<and>
   ud_ById (run_lines (policy_line compile) ls db) = ud_ById db \<and>
   ud_List (run_lines (policy_line compile) ls db) = ud_List db \<and>
   ud_file (run_lines (policy_line compile) ls db) = ud_file db"
  by (induction ls arbitrary: db) (simp_all add: policy_line_def Let_def)

lemma loadPolicy_frame:
  "ud_Names (loadPolicy compile db) = ud_Names db" "ud_Secrets (loadPolicy compile db) = ud_Secrets db"
  "ud_ById (loadPolicy compile db) = ud_ById db" "ud_List (loadPolicy compile db) = ud_List db"
  "ud_file (loadPolicy compile db) = ud_file db"
  using policy_run_frame [of compile]
  by (simp_all add: loadPolicy_def FileLines_def f_lines_def Let_def split: option.split gofile.split)

lemma load_user_lines:
  assumes "\<forall>u\<in>set us. user_ok u"
  shows "f_lines load_user_line (users_text us) (db, None) = (foldl put_user db us, None)"
proof -
  have "f_lines load_user_line (users_text us) (db, None) =
      foldl (\<lambda>st u. (put_user (fst st) u, snd st)) (db, None) us"
    unfolding users_text_def using assms by (rule users.read_back) (erule load_user_line_print)
  also have "\<dots> = (foldl put_user db us, None)" by (induction us rule: rev_induct) simp_all
  finally show ?thesis .
qed

lemma holds_text_filesize: "holds_text f s \<Longrightarrow> filesize f = int (length s)"
  by (auto simp: holds_text_def filesize_def)

theorem LoadUsers_rep:
  assumes "udb_rep db us"
  shows "snd (LoadUsers compile db) = None \<and> udb_loaded (fst (LoadUsers compile db)) us"
proof -
  have h: "holds_text (ud_file db) (users_text us)" "users_ok us" using assms by (auto simp: udb_rep_def)
  note sz = holds_text_filesize [OF h(1)]
  show ?thesis
  proof (cases "ud_FileSize db = int (length (users_text us))")
    case True
    then show ?thesis using assms sz by (auto simp: LoadUsers_def Let_def udb_rep_def udb_loaded_def)
  next
    case False
    then have "users_text us \<noteq> []" using assms by (auto simp: udb_rep_def)
    then have f: "ud_file db = File (users_text us)" using h(1) by (auto simp: holds_text_def)
    let ?d = "(loadPolicy compile (db\<lparr>ud_Names := Some Map.empty, ud_Secrets := Map.empty,
        ud_ById := Map.empty, ud_List := [], ud_Locked := False, ud_NewUsersMax := -1\<rparr>))\<lparr>ud_NewUsers := 0\<rparr>"
    have d: "ud_Names ?d = Some Map.empty" "ud_Secrets ?d = Map.empty" "ud_ById ?d = Map.empty"
        "ud_List ?d = []" "ud_file ?d = File (users_text us)"
      by (simp_all add: loadPolicy_frame f)
    have "LoadUsers compile db = ((foldl put_user ?d us)\<lparr>ud_FileSize := int (length (users_text us))\<rparr>, None)"
      using False sz h(2) d(5) load_user_lines [of us ?d]
      by (simp add: LoadUsers_def Let_def FileLines_def users_ok_def f filesize_def)
    then show ?thesis
      using put_users_mem [OF d(1-4), of us] d(5) h
      by (simp add: udb_loaded_def udb_mem_def holds_text_def)
  qed
qed

section \<open>Registration\<close>

lemma last_of_distinct:
  "distinct (map f us) \<Longrightarrow> u \<in> set us \<Longrightarrow> last_of (map (\<lambda>u. (f u, g u)) us) (f u) = Some (g u)"
proof (induction us)
  case (Cons v us)
  show ?case
  proof (cases "u = v")
    case True
    have "last_of (map (\<lambda>u. (f u, g u)) us) (f v) = None"
      using Cons.prems(1) by (auto simp: last_of_None_iff image_iff)
    then show ?thesis using True by simp
  next
    case False
    then show ?thesis using Cons by simp
  qed
qed simp

lemma last_of_keys: "last_of (map (\<lambda>u. (f u, g u)) us) k = None \<longleftrightarrow> k \<notin> f ` set us"
  by (auto simp: last_of_None_iff image_iff)

lemma udb_mem_user:
  assumes "udb_mem db us" "users_ok us" "u \<in> set us"
  shows "map_get (ud_Names db) (us_Name u) = Some u"
  using assms last_of_distinct [of us_Name us u "\<lambda>u. u"] by (simp add: udb_mem_def users_ok_def)

lemma udb_mem_absent: "udb_mem db us \<Longrightarrow> map_get (ud_Names db) n = None \<longleftrightarrow> n \<notin> us_Name ` set us"
  by (simp add: udb_mem_def last_of_keys)

lemma fold_max:
  "fold (\<lambda>u i. if us_Id u > i then us_Id u else i) us i = Max (insert i (us_Id ` set us))"
proof (induction us arbitrary: i)
  case (Cons u us)
  have "(if us_Id u > i then us_Id u else i) = max i (us_Id u)" by simp
  moreover have "Max (insert (max i (us_Id u)) (us_Id ` set us)) = Max (insert i (insert (us_Id u) (us_Id ` set us)))"
    by (cases "us = []") (simp_all add: max.assoc)
  ultimately show ?case using Cons by (simp add: insert_commute)
qed simp

lemma max_user_id_mem:
  assumes "udb_mem db us" "users_ok us"
  shows "max_user_id db = Max (insert 0 (us_Id ` set us))"
proof -
  let ?f = "\<lambda>n i. case map_get (ud_Names db) n of None \<Rightarrow> i | Some v \<Rightarrow> if us_Id v > i then us_Id v else i"
  have "fold ?f (map us_Name vs) i = fold (\<lambda>u i. if us_Id u > i then us_Id u else i) vs i"
    if "set vs \<subseteq> set us" for vs i
    using that udb_mem_user [OF assms] by (induction vs arbitrary: i) auto
  from this [of us 0] show ?thesis
    using assms(1) fold_max [of us 0] by (simp add: max_user_id_def udb_mem_def)
qed

definition new_user :: "User list \<Rightarrow> string \<Rightarrow> string \<Rightarrow> string \<Rightarrow> string \<Rightarrow> User" where
  "new_user us name mail passwd info =
     \<lparr>us_Id = Max (insert 0 (us_Id ` set us)) + 1, us_Name = name, us_Mail = mail,
      us_Secret = MakeSecret (name @ passwd), us_Tags = NewTags info\<rparr>"

lemma IsUsername_field: "IsUsername n \<Longrightarrow> field_ok n"
  by (auto simp: IsUsername_def ContainsAny_def field_ok_def)

lemma email_field: "rx_match emailRegex m \<Longrightarrow> field_ok m"
  using email_clean by (simp add: field_ok_def)

lemma MakeSecret_field: "field_ok (MakeSecret s)"
  using URLEncode_clean [of "Sum256 s"] by (auto simp: MakeSecret_def field_ok_def dest: in_set_takeD)

lemma length_MakeSecret: "length (MakeSecret s) = 10"
  by (simp add: MakeSecret_def URLEncode_def length_b64_enc)

lemma NewTags_ok: "tags_ok (NewTags s)"
  using MakeTags_ok [of s] by (auto simp: NewTags_def split: sum.splits)

lemma max_id_bound: "finite A \<Longrightarrow> a \<in> A \<Longrightarrow> (a :: int) \<le> Max (insert 0 A)"
  by simp

lemma users_ok_snoc:
  assumes "users_ok us" and "name \<notin> us_Name ` set us" and "IsUsername name" and "rx_match emailRegex mail"
    and "field_ok (Tags_String (NewTags info))" and "Max (insert 0 (us_Id ` set us)) < 2 ^ 31 - 1"
  shows "users_ok (us @ [new_user us name mail passwd info])"
proof -
  let ?m = "Max (insert 0 (us_Id ` set us))"
  have "0 \<le> ?m" by simp
  then have "in32 (?m + 1)" using assms(6) by (simp add: in_range_def)
  then have "user_ok (new_user us name mail passwd info)"
    using assms IsUsername_field email_field MakeSecret_field NewTags_ok
    by (simp add: user_ok_def new_user_def)
  moreover have "?m + 1 \<notin> us_Id ` set us"
    using max_id_bound [of "us_Id ` set us" "?m + 1"] by auto
  ultimately show ?thesis using assms(1,2) by (auto simp: users_ok_def new_user_def image_iff)
qed

text \<open>On an up-to-date database a registration appends one user with a new id, and every refusal names its reason.\<close>

theorem UDB_Add_rep:
  assumes "udb_loaded db us" and "field_ok (Tags_String (NewTags info))"
    and "Max (insert 0 (us_Id ` set us)) < 2 ^ 31 - 1"
  shows "case UDB_Add db name mail passwd info of (db', err) \<Rightarrow>
    if name \<in> us_Name ` set us then err = Some EUserExists \<and> db' = db
    else if \<not> IsUsername name then err = Some EWrongUsername \<and> db' = db
    else if \<not> IsPassword passwd then err = Some EBadPassword \<and> db' = db
    else if \<not> rx_match emailRegex mail then err = Some EWrongEmail \<and> db' = db
    else if ud_Locked db then err = Some EMaxUsers \<and> db' = db
    else err = None \<and> udb_rep db' (us @ [new_user us name mail passwd info])"
proof -
  have l: "users_ok us" "holds_text (ud_file db) (users_text us)" "udb_mem db us"
      "ud_FileSize db = int (length (users_text us))"
    using assms(1) by (auto simp: udb_loaded_def)
  let ?u = "new_user us name mail passwd info" and ?m = "Max (insert 0 (us_Id ` set us))"
  have id: "wrap32 (max_user_id db + 1) = ?m + 1"
    using assms(3) unfolding max_user_id_mem [OF l(3,1)]
    by (intro wrap32_id) (simp add: in_range_def add_increasing2)
  have ap: "append_file (ud_file db) (user_line (wrap32 (max_user_id db + 1)) name mail
        (MakeSecret (name @ passwd)) (NewTags info)) = Inr (File (users_text (us @ [?u])))"
    using l(2) unfolding id
    by (auto simp: holds_text_def append_file_def users_text_def print_user_def new_user_def)
  show ?thesis
    using udb_mem_absent [OF l(3), of name] l(1,4) ap
      users_ok_snoc [OF l(1) _ _ _ assms(2,3), of name mail passwd]
    by (auto simp: UDB_Add_def Let_def udb_rep_def holds_text_def users_text_def split: if_splits)
qed

text \<open>After the next load, exactly the new user's password opens the account.\<close>

lemma Auth_loaded:
  assumes "udb_loaded db us" "u \<in> set us"
  shows "Auth db (us_Name u) passwd \<longleftrightarrow> us_Secret u = MakeSecret (us_Name u @ passwd)"
  using assms udb_mem_user [of db us u] by (simp add: Auth_def udb_loaded_def)

section \<open>Change and removal\<close>

definition removed :: "User \<Rightarrow> bool" where
  "removed u = (Tags_val (us_Tags u) ''status'' = ''remove'')"

text \<open>The list after a change: the user replaced, whoever is to be removed gone.\<close>

definition edited :: "User list \<Rightarrow> User \<Rightarrow> User list" where
  "edited us u = filter (\<lambda>v. \<not> removed v) (map (\<lambda>v. if us_Name v = us_Name u then u else v) us)"

lemma edit_lines_append:
  "edit_lines db ns tmp =
     flog.append_all tmp (map (\<lambda>n. let v = user_of db n in
        user_line (us_Id v) n (us_Mail v) (us_Secret v) (us_Tags v))
       (filter (\<lambda>n. \<not> removed (user_of db n)) ns))"
  by (induction ns arbitrary: tmp) (auto simp: Let_def removed_def split: sum.split)

lemma edit_lines_users:
  assumes "udb_mem db us" "users_ok us"
    and db': "db' = db\<lparr>ud_Names := Some h\<rparr>" "h = (\<lambda>n. if n = us_Name u then Some u else map_get (ud_Names db) n)"
  shows "edit_lines db' (ud_List db') NoFile =
    Inr (if edited us u = [] then NoFile else File (users_text (edited us u)))"
proof -
  let ?new = "\<lambda>v. if us_Name v = us_Name u then u else v"
  have of_v: "user_of db' (us_Name v) = ?new v" if "v \<in> set us" for v
    using udb_mem_user [OF assms(1,2) that] by (simp add: user_of_def db')
  have ls: "map (\<lambda>n. let v = user_of db' n in
        user_line (us_Id v) n (us_Mail v) (us_Secret v) (us_Tags v))
      (filter (\<lambda>n. \<not> removed (user_of db' n)) (map us_Name vs)) = map print_user (edited vs u)"
    if "set vs \<subseteq> set us" for vs
    using that of_v by (induction vs) (auto simp: edited_def Let_def print_user_def)
  have "ud_List db' = map us_Name us" using assms(1) by (simp add: udb_mem_def db')
  then show ?thesis
    using append_all_new ls [of us]
    unfolding edit_lines_append users_text_def by simp
qed

lemma edited_distinct:
  assumes "distinct (map f us)" and "\<And>w. w \<in> set us \<Longrightarrow> us_Name w = us_Name u \<Longrightarrow> f u = f w"
  shows "distinct (map f (edited us u))"
proof -
  have "map f (map (\<lambda>v. if us_Name v = us_Name u then u else v) us) = map f us"
    using assms(2) by simp
  then have "distinct (map f (map (\<lambda>v. if us_Name v = us_Name u then u else v) us))"
    using assms(1) by (simp only:)
  then show ?thesis unfolding edited_def by (rule distinct_map_filter)
qed

lemma edited_ok:
  assumes "users_ok us" "user_ok u" "v \<in> set us" "us_Name v = us_Name u" "us_Id v = us_Id u"
  shows "users_ok (edited us u)"
proof -
  have d: "distinct (map us_Name us)" "distinct (map us_Id us)" using assms(1) by (auto simp: users_ok_def)
  have "w = v" if "w \<in> set us" "us_Name w = us_Name u" for w
    using d(1) that assms(3,4) unfolding distinct_map inj_on_def by (auto dest: bspec)
  then have "distinct (map us_Id (edited us u))"
    using assms(5) by (intro edited_distinct [OF d(2)]) auto
  moreover have "distinct (map us_Name (edited us u))" by (intro edited_distinct [OF d(1)]) simp
  moreover have "\<forall>w\<in>set (edited us u). user_ok w"
    using assms(1,2) by (auto simp: edited_def users_ok_def)
  ultimately show ?thesis by (simp add: users_ok_def)
qed

lemma users_text_pos: "us \<noteq> [] \<Longrightarrow> users_text us \<noteq> []"
  by (cases us) (simp_all add: users_text_def)

text \<open>
  A change of an existing user writes the changed list and forces the next load; if
  nobody is left, it fails and the file stays as it was. What the file held does not matter.
\<close>

lemma UDB_Edit_mem:
  assumes l: "udb_mem db us" "users_ok us" and u: "v \<in> set us" "us_Name v = us_Name u"
  shows "\<exists>h. UDB_Edit db u =
    (if edited us u = [] then (db\<lparr>ud_Names := Some h\<rparr>, Some EIO)
     else (db\<lparr>ud_Names := Some h, ud_file := File (users_text (edited us u)), ud_FileSize := 0\<rparr>, None))"
proof -
  have "map_get (ud_Names db) (us_Name u) = Some v" using udb_mem_user [OF l u(1)] u(2) by simp
  then obtain h where h: "ud_Names db = Some h" "h (us_Name u) = Some v" by (cases "ud_Names db") auto
  let ?db = "db\<lparr>ud_Names := Some (h(us_Name u \<mapsto> u))\<rparr>"
  have "h(us_Name u \<mapsto> u) = (\<lambda>n. if n = us_Name u then Some u else map_get (ud_Names db) n)"
    using h(1) by (auto simp: fun_upd_def)
  then have e: "edit_lines ?db (ud_List ?db) NoFile =
      Inr (if edited us u = [] then NoFile else File (users_text (edited us u)))"
    by (intro edit_lines_users [OF l]) auto
  show ?thesis
    using h e by (intro exI [of _ "h(us_Name u \<mapsto> u)"]) (simp add: UDB_Edit_def Let_def)
qed

theorem UDB_Edit_rep:
  assumes loaded: "udb_loaded db us" and u: "user_ok u" "v \<in> set us" "us_Name v = us_Name u" "us_Id v = us_Id u"
  shows "case UDB_Edit db u of (db', err) \<Rightarrow>
    if edited us u = [] then err = Some EIO \<and> ud_file db' = ud_file db
    else err = None \<and> udb_rep db' (edited us u)"
proof -
  have l: "udb_mem db us" "users_ok us" using loaded by (auto simp: udb_loaded_def)
  have "users_ok (edited us u)" by (rule edited_ok [OF l(2) u])
  then show ?thesis
    using UDB_Edit_mem [OF l u(2,3)] users_text_pos [of "edited us u"]
    by (auto simp: udb_rep_def holds_text_def)
qed

section \<open>What becomes of the file\<close>

text \<open>For any record of a user that exists, and for anything sent as a registration.\<close>

lemma UDB_Edit_text:
  assumes "udb_loaded db us" "v \<in> set us" "us_Name v = us_Name u"
  shows "ud_file (fst (UDB_Edit db u)) = ud_file db \<or> ud_file (fst (UDB_Edit db u)) = File (users_text (edited us u))"
proof -
  have l: "udb_mem db us" "users_ok us" using assms(1) by (auto simp: udb_loaded_def)
  show ?thesis using UDB_Edit_mem [OF l assms(2,3)] by auto
qed

text \<open>The record of a registration; the id is a number of 32 bits.\<close>

definition joining :: "User list \<Rightarrow> string \<Rightarrow> string \<Rightarrow> string \<Rightarrow> string \<Rightarrow> User" where
  "joining us name mail passwd info =
     (let u = new_user us name mail passwd info in u\<lparr>us_Id := wrap32 (us_Id u)\<rparr>)"

lemma UDB_Add_text:
  assumes "udb_loaded db us"
  shows "ud_file (fst (UDB_Add db name mail passwd info)) = ud_file db \<or>
    name \<notin> us_Name ` set us \<and>
    ud_file (fst (UDB_Add db name mail passwd info)) = File (users_text (us @ [joining us name mail passwd info]))"
proof -
  have l: "users_ok us" "holds_text (ud_file db) (users_text us)" "udb_mem db us"
    using assms by (auto simp: udb_loaded_def)
  have "append_file (ud_file db) (user_line (wrap32 (max_user_id db + 1)) name mail
        (MakeSecret (name @ passwd)) (NewTags info)) =
      Inr (File (users_text (us @ [joining us name mail passwd info])))"
    using l(2) max_user_id_mem [OF l(3,1)]
    by (auto simp: holds_text_def append_file_def users_text_def print_user_def joining_def new_user_def Let_def)
  then show ?thesis using udb_mem_absent [OF l(3), of name] by (auto simp: UDB_Add_def Let_def)
qed

lemma UserInfoName_member:
  assumes "udb_loaded db us" "UserInfoName db n = Some u"
  shows "u \<in> set us \<and> us_Name u = n"
proof -
  have "last_of (map (\<lambda>u. (us_Name u, u)) us) n = Some u"
    using assms by (simp add: UserInfoName_def udb_loaded_def udb_mem_def)
  from last_of_Some_set [OF this] show ?thesis by auto
qed

section \<open>Users that nothing locks\<close>

text \<open>Without a limit from the policy, loading user lines locks nothing.\<close>

lemma put_users_unlocked:
  "ud_NewUsersMax db < 0 \<Longrightarrow> ud_Locked (foldl put_user db us) = ud_Locked db \<and>
     ud_NewUsersMax (foldl put_user db us) = ud_NewUsersMax db"
  by (induction us arbitrary: db) (simp_all add: put_user_def Let_def)

lemma LoadUsers_unlocked:
  assumes "ud_file db = File (users_text us)" "\<forall>u\<in>set us. user_ok u" "ud_policy db = None"
    and "ud_FileSize db \<noteq> int (length (users_text us))"
  shows "\<not> ud_Locked (fst (LoadUsers compile db))"
  using assms load_user_lines [OF assms(2)] put_users_unlocked
  by (simp add: LoadUsers_def Let_def FileLines_def filesize_def loadPolicy_def)

end
