(* ===== verification/II_Echolist.thy ===== *)
theory II_Echolist
  imports II_Users
begin

text \<open>
  The list of areas (\<^verbatim>\<open>ii/db.go\<close>: \<^verbatim>\<open>EDBPerm\<close>, \<^verbatim>\<open>EDB\<close>,
  \<^verbatim>\<open>Access\<close>, \<^verbatim>\<open>LoadBlockwords\<close>, \<^verbatim>\<open>LoadEcholist\<close>): who may post where. A line
  is \<^verbatim>\<open>[-]name[!addr]*:count:description\<close>; a leading minus makes the area read-only, the
  addresses after \<^verbatim>\<open>!\<close> are the ones that may start topics. The block words are regular
  expressions, compiled by the parameter \<open>compile\<close>.
\<close>

section \<open>State\<close>

record EDBPerm =
  ep_Allow :: "string list"
  ep_Write :: bool

record EDB =
  ed_Perm :: "string \<rightharpoonup> EDBPerm"
  ed_List :: "string list"
  ed_Info :: "string \<rightharpoonup> string"
  ed_BlockWords :: "(string \<Rightarrow> bool) list"

definition nil_edb :: EDB where
  "nil_edb = \<lparr>ed_Perm = Map.empty, ed_List = [], ed_Info = Map.empty, ed_BlockWords = []\<rparr>"

section \<open>Posting rights\<close>

definition EDB_Access :: "EDB \<Rightarrow> Msg \<Rightarrow> bool" where
  "EDB_Access db m =
     (if ed_List db = [] then True
      else (case ed_Perm db (m_Echo m) of
        None \<Rightarrow> False
      | Some perm \<Rightarrow>
          if ep_Allow perm \<noteq> [] then
            (if m_Addr m \<in> set (ep_Allow perm) then True
             else if Msg_tag_val m ''repto'' \<noteq> [] then ep_Write perm
             else False)
          else if \<not> ep_Write perm then False
          else if \<exists>re\<in>set (ed_BlockWords db). re (m_Text m) then False
          else ep_Write perm))"

section \<open>Loading\<close>

definition LoadBlockwords :: "(string \<Rightarrow> (string \<Rightarrow> bool) option) \<Rightarrow> EDB \<Rightarrow> gofile \<Rightarrow> EDB" where
  "LoadBlockwords compile db f =
     fst (FileLines f
       (\<lambda>line db. (case compile line of
          Some re \<Rightarrow> (db\<lparr>ed_BlockWords := ed_BlockWords db @ [re]\<rparr>, True)
        | None \<Rightarrow> (db, True)))
       (db\<lparr>ed_BlockWords := []\<rparr>))"

text \<open>One line. With two fields the test passes and reading the third panics.\<close>

definition parse_echo :: "string \<Rightarrow> ii_error + (string \<times> EDBPerm \<times> string) option" where
  "parse_echo line =
     (let a = SplitN (CHR '':'') 3 line in
      if length a < 2 then Inr None
      else let access = Split (CHR ''!'') (a ! 0);
               e = access ! 0;
               ro = HasPrefix e ''-'';
               e = (if ro then tl e else e) in
      if length a < 3 then Inl (EPanic PIndex)
      else Inr (Some (e, \<lparr>ep_Allow = tl access, ep_Write = \<not> ro\<rparr>, a ! 2)))"

definition put_echo :: "EDB \<Rightarrow> string \<times> EDBPerm \<times> string \<Rightarrow> EDB" where
  "put_echo db x =
     (case x of (e, perm, info) \<Rightarrow>
        db\<lparr>ed_Perm := (ed_Perm db)(e \<mapsto> perm), ed_Info := (ed_Info db)(e \<mapsto> info),
           ed_List := ed_List db @ [e]\<rparr>)"

definition load_echo_line :: "string \<Rightarrow> EDB \<times> ii_error option \<Rightarrow> (EDB \<times> ii_error option) \<times> bool" where
  "load_echo_line line st =
     (case st of (db, err) \<Rightarrow>
        (case parse_echo line of
           Inl e \<Rightarrow> ((db, Some e), False)
         | Inr None \<Rightarrow> ((db, err), True)
         | Inr (Some x) \<Rightarrow> ((put_echo db x, err), True)))"

text \<open>The result: a panic, nil (\<open>None\<close>) or the database.\<close>

definition LoadEcholist :: "gofile \<Rightarrow> ii_error + EDB option" where
  "LoadEcholist f =
     (case FileLines f load_echo_line (nil_edb, None) of
        ((db, Some e), _) \<Rightarrow> Inl e
      | ((db, None), Some _) \<Rightarrow> Inr None
      | ((db, None), None) \<Rightarrow> Inr (Some db))"

section \<open>Reading back a list of areas\<close>

definition echo_line :: "string \<times> EDBPerm \<times> string \<Rightarrow> string" where
  "echo_line x =
     (case x of (e, perm, info) \<Rightarrow>
        (if ep_Write perm then [] else ''-'') @ Join ''!'' (e # ep_Allow perm) @ '':0:'' @ info)"

definition echo_ok :: "string \<times> EDBPerm \<times> string \<Rightarrow> bool" where
  "echo_ok x =
     (case x of (e, perm, info) \<Rightarrow>
        \<not> HasPrefix e ''-'' \<and>
        (\<forall>w\<in>set (e # ep_Allow perm). CHR ''!'' \<notin> set w \<and> CHR '':'' \<notin> set w \<and> NL \<notin> set w) \<and>
        NL \<notin> set info)"

lemma SplitN_append: "c \<notin> set a \<Longrightarrow> SplitN c (Suc (Suc n)) (a @ c # s) = a # SplitN c (Suc n) s"
proof -
  assume "c \<notin> set a"
  then have "takeWhile (\<lambda>x. x \<noteq> c) (a @ c # s) = a" "dropWhile (\<lambda>x. x \<noteq> c) (a @ c # s) = c # s"
    by (induction a) auto
  then show ?thesis by simp
qed

lemma SplitN_3:
  "c \<notin> set a \<Longrightarrow> c \<notin> set b \<Longrightarrow> SplitN c 3 (a @ c # b @ c # d) = [a, b, d]"
  unfolding numeral_3_eq_3 by (simp add: SplitN_append del: SplitN.simps(3))

lemma parse_echo_line:
  assumes "echo_ok x"
  shows "parse_echo (echo_line x) = Inr (Some x)"
proof -
  obtain e perm info where x: "x = (e, perm, info)" by (cases x)
  let ?m = "if ep_Write perm then [] else ''-''"
  let ?a = "?m @ Join ''!'' (e # ep_Allow perm)"
  have ok: "\<not> HasPrefix e ''-''" "\<forall>w\<in>set (e # ep_Allow perm). CHR ''!'' \<notin> set w \<and> CHR '':'' \<notin> set w"
    using assms by (auto simp: echo_ok_def x)
  have j: "?a = Join ''!'' ((?m @ e) # ep_Allow perm)"
    by (cases "ep_Allow perm") simp_all
  have "CHR '':'' \<notin> set (Join ''!'' (e # ep_Allow perm))"
    using set_Join [of "''!''" "e # ep_Allow perm"] ok(2) by auto
  then have c: "CHR '':'' \<notin> set ?a" by simp
  have sn: "SplitN (CHR '':'') 3 (echo_line x) = [?a, ''0'', info]"
    using SplitN_3 [OF c, of "''0''" info] by (simp add: echo_line_def x)
  have sp: "Split (CHR ''!'') ?a = (?m @ e) # ep_Allow perm"
    unfolding j using ok(2) by (intro Split_Join) auto
  define a where "a = ?a"
  have "parse_echo (echo_line x) =
      (let access = Split (CHR ''!'') a; e = access ! 0; ro = HasPrefix e ''-''
       in Inr (Some (if ro then tl e else e, \<lparr>ep_Allow = tl access, ep_Write = \<not> ro\<rparr>, info)))"
    unfolding parse_echo_def sn a_def [symmetric] by (simp add: Let_def)
  moreover have "Split (CHR ''!'') a = (?m @ e) # ep_Allow perm" unfolding a_def by (rule sp)
  ultimately show ?thesis using ok(1) by (cases "ep_Write perm") (simp_all add: x)
qed

lemma echo_line_line: "echo_ok x \<Longrightarrow> NL \<notin> set (echo_line x)"
  using set_Join [of "''!''" "fst x # ep_Allow (fst (snd x))"]
  by (auto simp: echo_line_def echo_ok_def split: prod.splits)

definition read_echo :: "string \<Rightarrow> (string \<times> EDBPerm \<times> string) option" where
  "read_echo line = (case parse_echo line of Inr (Some x) \<Rightarrow> Some x | _ \<Rightarrow> None)"

interpretation areas: line_codec echo_ok echo_line read_echo
  by unfold_locales (simp_all add: read_echo_def parse_echo_line echo_line_line)

lemma put_echos:
  "ed_Perm (foldl put_echo nil_edb xs) = last_of (map (\<lambda>(e, p, i). (e, p)) xs) \<and>
   ed_Info (foldl put_echo nil_edb xs) = last_of (map (\<lambda>(e, p, i). (e, i)) xs) \<and>
   ed_List (foldl put_echo nil_edb xs) = map fst xs \<and> ed_BlockWords (foldl put_echo nil_edb xs) = []"
  by (induction xs rule: rev_induct)
     (auto simp: nil_edb_def put_echo_def last_of_snoc fun_eq_iff)

lemma LoadEcholist_lines:
  assumes "\<forall>x\<in>set xs. echo_ok x"
  shows "LoadEcholist (File (unlines (map echo_line xs))) = Inr (Some (foldl put_echo nil_edb xs))"
proof -
  have "f_lines load_echo_line (unlines (map echo_line xs)) (nil_edb, None) =
      foldl (\<lambda>st x. (put_echo (fst st) x, snd st)) (nil_edb, None) xs"
    using assms by (rule areas.read_back) (simp add: load_echo_line_def parse_echo_line split: prod.splits)
  also have "\<dots> = (foldl put_echo nil_edb xs, None)" by (induction xs rule: rev_induct) simp_all
  finally show ?thesis by (simp add: LoadEcholist_def FileLines_def)
qed

end
