(* ===== verification/II_Node.thy ===== *)
theory II_Node
  imports II_Echolist
begin

text \<open>
  The node's text protocol (\<^verbatim>\<open>ii-node/main.go\<close>): posting by points
  (\<^verbatim>\<open>PointPolicy\<close>, \<^verbatim>\<open>PointMsg\<close>) and the handlers registered in
  \<^verbatim>\<open>main\<close>. A handler is a function of the part of the request path its prefix leaves and of
  the node, to the node and what it writes, or to the panic that ends it. The package \<^verbatim>\<open>net/http\<close> that
  calls them, logging and the command line are not modelled.
\<close>

section \<open>State\<close>

record Node =
  nd_db :: DB
  nd_edb :: EDB
  nd_udb :: UDB

definition upd_db :: "Node \<Rightarrow> DB \<Rightarrow> Node" where
  "upd_db node db = node\<lparr>nd_db := db\<rparr>"

section \<open>Posting\<close>

text \<open>A failed selection is a panic of the request.\<close>

definition PointPolicy :: "User \<Rightarrow> DB \<Rightarrow> Msg \<Rightarrow> DB \<times> (ii_error + bool)" where
  "PointPolicy ui db m =
     (let v = Tags_val (us_Tags ui) ''status'' in
      if v = ''new'' \<or> v = ''moderated'' then
        (let tlim = Tags_val (us_Tags ui) ''limit'';
             lim = (if tlim = [] then 0 else Atoi_val tlim) in
         case SelectIDS db (nil_query\<lparr>q_From := m_From m, q_Lim := lim\<rparr>) of
           (db, Inl e) \<Rightarrow> (db, Inl e)
         | (db, Inr ids) \<Rightarrow>
             (case LookupIDS db ids of (db, mis) \<Rightarrow> (db, Inr (\<not> int (length mis) \<ge> lim))))
      else (db, Inr True))"

text \<open>The test that a reply answers a message the database shows.\<close>

definition find_repto :: "DB \<Rightarrow> string \<Rightarrow> DB \<times> bool" where
  "find_repto db r =
     (if r \<noteq> [] then (case Lookup db r of (db, mi) \<Rightarrow> (db, mi \<noteq> None)) else (db, True))"

text \<open>\<^verbatim>\<open>LoadUsers\<close> in a handler: its error is dropped, its panic ends the request.\<close>

definition load_users :: "(string \<Rightarrow> (string \<Rightarrow> bool) option) \<Rightarrow> Node \<Rightarrow> Node \<times> ii_error option" where
  "load_users compile node =
     (let (udb, err) = LoadUsers compile (nd_udb node)
      in (node\<lparr>nd_udb := udb\<rparr>, case err of Some (EPanic p) \<Rightarrow> Some (EPanic p) | _ \<Rightarrow> None))"

text \<open>
  \<^verbatim>\<open>PointMsg\<close>: the reply is \<open>None\<close> for \<^verbatim>\<open>msg ok\<close> and the error otherwise. \<open>now\<close> is the
  clock, \<open>compile\<close> the compiler of the policy's expressions.
\<close>

definition PointMsg ::
  "(string \<Rightarrow> (string \<Rightarrow> bool) option) \<Rightarrow> int \<Rightarrow> Node \<Rightarrow> string \<Rightarrow> string \<Rightarrow> Node \<times> ii_error option" where
  "PointMsg compile now node pauth tmsg =
     (case load_users compile node of
        (node, Some e) \<Rightarrow> (node, Some e)
      | (node, None) \<Rightarrow>
      let udb = nd_udb node in
      if \<not> UDB_Access udb pauth then (node, Some EAccessDenied)
      else (case DecodeMsgline now tmsg True of
        Inl e \<Rightarrow> (node, Some e)
      | Inr m \<Rightarrow>
          let (db, ok) = find_repto (nd_db node) (Msg_tag_val m ''repto'');
              node = upd_db node db in
          if \<not> ok then (node, Some EPointRepto)
          else (case UserInfo udb pauth of
            None \<Rightarrow> (node, Some ENoUserInfo)
          | Some ui \<Rightarrow>
              let m = m\<lparr>m_From := us_Name ui, m_Addr := db_Name (nd_db node) @ '','' @ itoa (UDB_Id udb pauth)\<rparr>;
                  (db, ok) = PointPolicy ui (nd_db node) m;
                  node = upd_db node db in
              (case ok of
                 Inl e \<Rightarrow> (node, Some e)
               | Inr False \<Rightarrow> (node, Some ENotVerified)
               | Inr True \<Rightarrow>
                   if \<not> EDB_Access (nd_edb node) m \<and> us_Id ui \<noteq> 1 then (node, Some EAccessDenied)
                   else (case Store now (nd_db node) m of
                     (db, _, err) \<Rightarrow> (upd_db node db, err))))))"

section \<open>Reading\<close>

definition print_lines :: "string list \<Rightarrow> string" where
  "print_lines ls = concat (map (\<lambda>l. l @ [NL]) ls)"

text \<open>\<^verbatim>\<open>get_ue\<close>: areas, then possibly a slice \<^verbatim>\<open>start:limit\<close> for all of them.\<close>

fun ue_echoes :: "DB \<Rightarrow> User \<Rightarrow> int \<Rightarrow> int \<Rightarrow> string list \<Rightarrow> DB \<times> (ii_error + string)" where
  "ue_echoes db user idx lim [] = (db, Inr [])"
| "ue_echoes db user idx lim (e # es) =
     (if \<not> IsEcho e then ue_echoes db user idx lim es
      else (case SelectIDS db (nil_query\<lparr>q_Echo := e, q_Start := idx, q_Lim := lim, q_User := user\<rparr>) of
        (db, Inl err) \<Rightarrow> (db, Inl err)
      | (db, Inr ids) \<Rightarrow>
          (case ue_echoes db user idx lim es of
             (db, Inl err) \<Rightarrow> (db, Inl err)
           | (db, Inr out) \<Rightarrow> (db, Inr (e @ [NL] @ print_lines ids @ out)))))"

definition get_ue :: "string list \<Rightarrow> DB \<Rightarrow> User \<Rightarrow> DB \<times> (ii_error + string)" where
  "get_ue echoes db user =
     (if echoes = [] then (db, Inr [])
      else (case sscan_dd (last echoes) of
        (Some idx, Some lim) \<Rightarrow> ue_echoes db user idx lim (butlast echoes)
      | _ \<Rightarrow> ue_echoes db user 0 0 echoes))"

definition handle_ue :: "string \<Rightarrow> DB \<Rightarrow> DB \<times> (ii_error + string)" where
  "handle_ue path db = get_ue (Split (CHR ''/'') path) db nil_user"

fun um_ids :: "(MsgInfo \<Rightarrow> bool) \<Rightarrow> string list \<Rightarrow> DB \<Rightarrow> DB \<times> string" where
  "um_ids ok [] db = (db, [])"
| "um_ids ok (i # ids) db =
     (case GetBundleInfo db i of (db, m, info) \<Rightarrow>
        let out = (case info of
                     None \<Rightarrow> []
                   | Some mi \<Rightarrow> if m \<noteq> [] \<and> ok mi then m @ [NL] else []);
            (db, rest) = um_ids ok ids db
        in (db, out @ rest))"

definition handle_um :: "string \<Rightarrow> DB \<Rightarrow> DB \<times> string" where
  "handle_um path db = um_ids (\<lambda>info. \<not> IsPrivate (mi_Echo info)) (Split (CHR ''/'') path) db"

definition handle_m :: "string \<Rightarrow> DB \<Rightarrow> DB \<times> string" where
  "handle_m mid db =
     (if \<not> IsMsgId mid then (db, [])
      else (case Get db mid of
        (db, Some m) \<Rightarrow> (db, if \<not> IsPrivate (m_Echo m) then Msg_String m else [])
      | (db, None) \<Rightarrow> (db, [])))"

definition select_lines :: "DB \<Rightarrow> Query \<Rightarrow> DB \<times> (ii_error + string)" where
  "select_lines db q =
     (case SelectIDS db q of (db, Inl e) \<Rightarrow> (db, Inl e) | (db, Inr ids) \<Rightarrow> (db, Inr (print_lines ids)))"

definition handle_e :: "string \<Rightarrow> DB \<Rightarrow> DB \<times> (ii_error + string)" where
  "handle_e e db =
     (if \<not> IsEcho e \<or> IsPrivate e then (db, Inr []) else select_lines db (nil_query\<lparr>q_Echo := e\<rparr>))"

definition handle_blacklist :: "DB \<Rightarrow> DB \<times> (ii_error + string)" where
  "handle_blacklist db = select_lines db (nil_query\<lparr>q_Blacklisted := True\<rparr>)"

definition handle_list :: "(string list \<Rightarrow> string list) \<Rightarrow> Node \<Rightarrow> DB \<times> string" where
  "handle_list order node =
     (case Echoes order (nd_db node) None nil_query of (db, echoes) \<Rightarrow>
        (db, print_lines (map (\<lambda>v. ec_Name v @ '':'' @ itoa (int (ec_Count v)) @ '':'' @
                (case ed_Info (nd_edb node) (ec_Name v) of None \<Rightarrow> [] | Some i \<Rightarrow> i))
              (filter (\<lambda>v. \<not> IsPrivate (ec_Name v)) echoes))))"

definition handle_xc :: "string \<Rightarrow> DB \<Rightarrow> DB \<times> string" where
  "handle_xc path db =
     (case Echoes (\<lambda>ks. ks) db (Some (Split (CHR ''/'') path)) nil_query of (db, echoes) \<Rightarrow>
        (db, print_lines (map (\<lambda>v. ec_Name v @ '':'' @ itoa (int (ec_Count v)) @ '':'')
              (filter (\<lambda>v. \<not> IsPrivate (ec_Name v)) echoes))))"

definition handle_features :: string where
  "handle_features = print_lines [''list.txt'', ''blacklist.txt'', ''u/e'', ''x/c'']"

text \<open>
  The GET handler of \<^verbatim>\<open>/u/point/\<close>: with \<^verbatim>\<open>pauth/u/e/...\<close> and
  \<^verbatim>\<open>pauth/u/m/...\<close> the reading calls of an authorized point, with
  \<^verbatim>\<open>pauth/message\<close> a post. The last component is the reply of the post, if it was one.
\<close>

definition handle_point ::
  "(string \<Rightarrow> (string \<Rightarrow> bool) option) \<Rightarrow> int \<Rightarrow> string \<Rightarrow> Node \<Rightarrow> Node \<times> (ii_error + string) \<times> ii_error option option" where
  "handle_point compile now path node =
     (case load_users compile node of
        (node, Some e) \<Rightarrow> (node, Inl e, None)
      | (node, None) \<Rightarrow>
      let args = Split (CHR ''/'') path in
      if length args \<ge> 3 \<and> args ! 1 = ''u'' then
        (if \<not> UDB_Access (nd_udb node) (args ! 0) then (node, Inr [], None)
         else (case UserInfo (nd_udb node) (args ! 0) of
           None \<Rightarrow> (node, Inr [], None)
         | Some user \<Rightarrow>
             if args ! 2 = ''e'' then
               (case get_ue (drop 3 args) (nd_db node) user of (db, out) \<Rightarrow> (upd_db node db, out, None))
             else if args ! 2 = ''m'' then
               (case um_ids (\<lambda>info. Access info user) (drop 3 args) (nd_db node) of
                  (db, out) \<Rightarrow> (upd_db node db, Inr out, None))
             else (node, Inr [], None)))
      else if length args \<noteq> 2 then (node, Inr [], None)
      else (case PointMsg compile now node (args ! 0) (args ! 1) of
        (node, reply) \<Rightarrow> (node, Inr [], Some reply)))"

text \<open>The handler of \<^verbatim>\<open>/u/point\<close>: a post by form; \<open>form\<close> is \<open>None\<close> when it does not parse.\<close>

definition handle_point_post ::
  "(string \<Rightarrow> (string \<Rightarrow> bool) option) \<Rightarrow> int \<Rightarrow> string \<Rightarrow> (string \<Rightarrow> string) option \<Rightarrow> Node \<Rightarrow> Node \<times> ii_error option option" where
  "handle_point_post compile now method form node =
     (if method \<noteq> ''POST'' then (node, None)
      else (case form of
        None \<Rightarrow> (node, None)
      | Some v \<Rightarrow> (case PointMsg compile now node (v ''pauth'') (v ''tmsg'') of (node, reply) \<Rightarrow> (node, Some reply))))"

section \<open>What the queries see of the log\<close>

text \<open>The entry a query is matched against, from the log.\<close>

definition log_info :: "Msg list \<Rightarrow> string \<Rightarrow> MsgInfo option" where
  "log_info log mid =
     (case newest log mid of None \<Rightarrow> None | Some (i, m) \<Rightarrow> Some (minfo m (signed_off m (msg_off log i))))"

lemma base_match_view: "q_Match q = None \<Longrightarrow> base_match (mi_view info) q = base_match info q"
  by (simp add: base_match_def Access_def mi_view_def)

lemma base_ok_log:
  assumes "mem_loaded ix log" "ix_Hash ix = Some h" "q_Match q = None"
  shows "base_ok h q mid = (case log_info log mid of None \<Rightarrow> False | Some info \<Rightarrow> base_match info q)"
proof -
  have "log_info log mid = map_option mi_view (h mid)"
    using mem_loaded_get [OF assms(1), of mid] assms(2) by (simp add: log_info_def)
  then show ?thesis
    by (cases "h mid") (simp_all add: base_ok_def base_match_view [OF assms(3)])
qed

text \<open>The ids of the log a query accepts, oldest first.\<close>

definition log_ids :: "Msg list \<Rightarrow> Query \<Rightarrow> string list" where
  "log_ids log q =
     filter (\<lambda>mid. case log_info log mid of None \<Rightarrow> False | Some info \<Rightarrow> base_match info q)
       (first_occurrences (map m_MsgId log))"

definition log_slice :: "Msg list \<Rightarrow> Query \<Rightarrow> string list" where
  "log_slice log q =
     limited (q_Lim q)
       (if q_Start q < 0 then last_n (nat (- q_Start q)) (log_ids log q)
        else drop (nat (q_Start q)) (log_ids log q))"

lemma SelectIDS_log:
  assumes "db_rep db log" and "\<not> q_Invert q" "q_Skip q = 0" "q_Count q = 0" "q_Match q = None"
  shows "\<exists>db'. SelectIDS db q = (db', Inr (log_slice log q)) \<and> db_loaded db' log \<and> db_Name db' = db_Name db"
proof -
  obtain db' h where s: "SelectIDS db q = (db', Inr (slice h (first_occurrences (map m_MsgId log)) q))"
      "db_loaded db' log" "ix_Hash (db_Idx db') = Some h" "table_wf h (first_occurrences (map m_MsgId log))"
    using SelectIDS_rep [OF assms(1)] by blast
  have "base_ok h q = (\<lambda>mid. case log_info log mid of None \<Rightarrow> False | Some info \<Rightarrow> base_match info q)"
    using base_ok_log [of "db_Idx db'" log h q] s(2,3) assms(5) by (auto simp: db_loaded_def)
  then have "slice h (first_occurrences (map m_MsgId log)) q = log_slice log q"
    unfolding slice_plain [OF s(4) assms(2-4)] log_slice_def log_ids_def by simp
  moreover have "db_Name db' = db_Name db"
    using s(1) LoadIndex_rep [OF assms(1)] by (auto simp: SelectIDS_def)
  ultimately show ?thesis using s by auto
qed

section \<open>The handlers show what the log allows\<close>

lemma GetBundleInfo_log:
  assumes "db_rep db log"
  shows "\<exists>db' info. GetBundleInfo db mid =
      (db', (case spec_get log mid of None \<Rightarrow> [] | Some m \<Rightarrow> msg_line m), info) \<and> db_loaded db' log \<and>
    (case spec_get log mid of None \<Rightarrow> True
     | Some m \<Rightarrow> \<exists>mi. info = Some mi \<and> mi_Echo mi = m_Echo m \<and> mi_To mi = m_To m \<and> mi_From mi = m_From m)"
proof -
  obtain db' where db': "db_loaded db' log" "DB_GetBundle db mid True False = DB_GetBundle db' mid False False"
    using DB_Lookup_idx [OF assms] by metis
  obtain d b info where g: "DB_GetBundle db' mid False False = (d, b, info)" by (metis prod_cases3)
  have b: "DB_GetBundle db' mid False False = (db', b, info)"
      "b = (case newest log mid of None \<Rightarrow> [] | Some (i, m) \<Rightarrow> if hidden i m then [] else msg_line m)"
    using DB_GetBundle_loaded [OF db'(1), of mid False] unfolding g not_False_eq_True simp_thms by simp_all
  have bs: "b = (case spec_get log mid of None \<Rightarrow> [] | Some m \<Rightarrow> msg_line m)"
    unfolding b(2) by (simp add: spec_get_def split: option.split prod.split)
  have "\<exists>mi. info = Some mi \<and> mi_Echo mi = m_Echo m \<and> mi_To mi = m_To m \<and> mi_From mi = m_From m"
    if m: "spec_get log mid = Some m" for m
  proof -
    obtain i where i: "newest log mid = Some (i, m)" "\<not> hidden i m"
      using m by (auto simp: spec_get_def split: option.splits if_splits)
    have "b \<noteq> []" using bs m by (simp add: msg_line_def)
    then obtain mi where mi: "snd (DB_Lookup db' mid False False) = Some mi" "info = Some mi"
      using b(1) by (auto simp: DB_GetBundle_def split: option.splits prod.splits gofile.splits)
    have v: "mi_view mi = minfo m (signed_off m (msg_off log i))"
      using DB_Lookup_loaded [OF db'(1), of mid False] mi(1) i by simp
    have "mi_Echo (mi_view mi) = m_Echo m" "mi_To (mi_view mi) = m_To m" "mi_From (mi_view mi) = m_From m"
      by (simp_all only: v minfo_sel)
    then show ?thesis using mi(2) by simp
  qed
  then show ?thesis using db' b(1) bs by (auto simp: GetBundleInfo_def split: option.split)
qed

text \<open>
  The bundles written for a list of ids: those the log shows and the reader may see. A test on the
  index entry that looks at area, recipient and author only is a test on the message.
\<close>

definition shown_bundles :: "Msg list \<Rightarrow> (Msg \<Rightarrow> bool) \<Rightarrow> string list \<Rightarrow> string" where
  "shown_bundles log may ids =
     concat (map (\<lambda>i. case spec_get log i of None \<Rightarrow> [] | Some m \<Rightarrow> if may m then msg_line m @ [NL] else []) ids)"

definition may_read :: "User \<Rightarrow> Msg \<Rightarrow> bool" where
  "may_read user m =
     (IsPrivate (m_Echo m) \<longrightarrow> us_Name user \<noteq> [] \<and>
        (m_To m = ''All'' \<or> m_From m = us_Name user \<or> m_To m = us_Name user))"

lemma Access_may_read:
  "mi_Echo mi = m_Echo m \<Longrightarrow> mi_To mi = m_To m \<Longrightarrow> mi_From mi = m_From m \<Longrightarrow> Access mi user = may_read user m"
  by (auto simp: Access_def may_read_def)

lemma um_ids_log:
  assumes "db_rep db log"
    and "\<And>mi m. mi_Echo mi = m_Echo m \<Longrightarrow> mi_To mi = m_To m \<Longrightarrow> mi_From mi = m_From m \<Longrightarrow> ok mi = may m"
  shows "\<exists>db'. um_ids ok ids db = (db', shown_bundles log may ids) \<and> db_rep db' log"
  using assms(1)
proof (induction ids arbitrary: db)
  case Nil
  then show ?case by (simp add: shown_bundles_def)
next
  case (Cons i ids)
  obtain d info where d: "GetBundleInfo db i = (d, (case spec_get log i of None \<Rightarrow> [] | Some m \<Rightarrow> msg_line m), info)"
      "db_loaded d log" and mi: "case spec_get log i of None \<Rightarrow> True
     | Some m \<Rightarrow> \<exists>mi. info = Some mi \<and> mi_Echo mi = m_Echo m \<and> mi_To mi = m_To m \<and> mi_From mi = m_From m"
    using GetBundleInfo_log [OF Cons.prems, of i] by blast
  obtain db' where r: "um_ids ok ids d = (db', shown_bundles log may ids)" "db_rep db' log"
    using Cons.IH [OF db_loaded_rep [OF d(2)]] by blast
  have "(case info of None \<Rightarrow> [] | Some mi \<Rightarrow>
          if (case spec_get log i of None \<Rightarrow> [] | Some m \<Rightarrow> msg_line m) \<noteq> [] \<and> ok mi
          then (case spec_get log i of None \<Rightarrow> [] | Some m \<Rightarrow> msg_line m) @ [NL] else []) =
      (case spec_get log i of None \<Rightarrow> [] | Some m \<Rightarrow> if may m then msg_line m @ [NL] else [])"
    using mi assms(2) by (cases "spec_get log i") (auto simp: msg_line_def split: option.split)
  then show ?case using d r by (simp add: shown_bundles_def)
qed

lemma ue_echoes_log:
  assumes "db_rep db log"
  shows "\<exists>db'. ue_echoes db user idx lim es = (db', Inr (concat (map (\<lambda>e. print_lines
      (e # log_slice log (nil_query\<lparr>q_Echo := e, q_Start := idx, q_Lim := lim, q_User := user\<rparr>)))
      (filter IsEcho es)))) \<and> db_rep db' log"
  using assms
proof (induction es arbitrary: db)
  case (Cons e es)
  let ?q = "nil_query\<lparr>q_Echo := e, q_Start := idx, q_Lim := lim, q_User := user\<rparr>"
  obtain d where d: "SelectIDS db ?q = (d, Inr (log_slice log ?q))" "db_loaded d log"
    using SelectIDS_log [OF Cons.prems, of ?q] by (auto simp: nil_query_def)
  show ?case
  proof (cases "IsEcho e")
    case True
    obtain db' where "ue_echoes d user idx lim es = (db', Inr (concat (map (\<lambda>e. print_lines
        (e # log_slice log (nil_query\<lparr>q_Echo := e, q_Start := idx, q_Lim := lim, q_User := user\<rparr>)))
        (filter IsEcho es))))" "db_rep db' log"
      using Cons.IH [OF db_loaded_rep [OF d(2)]] by blast
    then show ?thesis using True d by (simp add: print_lines_def)
  next
    case False
    then show ?thesis using Cons by simp
  qed
qed simp

text \<open>Every id a plain query without \<^verbatim>\<open>NoAccess\<close> selects is a message the user may read.\<close>

lemma log_slice_readable:
  assumes "mid \<in> set (log_slice log q)" and "\<not> q_NoAccess q" and "\<not> q_Blacklisted q"
  shows "\<exists>m. spec_get log mid = Some m \<and> may_read (q_User q) m \<and> (q_Echo q = [] \<or> m_Echo m = q_Echo q)"
proof -
  have "mid \<in> set (log_ids log q)"
    using assms(1) set_limited unfolding log_slice_def last_n_def
    by (fastforce dest: in_set_dropD split: if_splits)
  then obtain i m where n: "newest log mid = Some (i, m)"
      and b: "base_match (minfo m (signed_off m (msg_off log i))) q"
    by (auto simp: log_ids_def log_info_def split: option.splits)
  have "\<not> hidden i m"
    using b assms(2,3) signed_off_hidden [of i log m] newest_Some [OF n]
    by (auto simp: base_match_def split: if_splits)
  moreover have "Access (minfo m (signed_off m (msg_off log i))) (q_User q)"
      "q_Echo q = [] \<or> m_Echo m = q_Echo q"
    using b assms(2) by (auto simp: base_match_def split: if_splits)
  ultimately show ?thesis using n Access_may_read [of "minfo m (signed_off m (msg_off log i))" m "q_User q"]
    by (simp add: spec_get_def)
qed

section \<open>What a point may store\<close>

lemma DB_Lookup_log:
  assumes "db_rep db log"
  shows "\<exists>db' mi. DB_Lookup db mid False True = (db', mi) \<and> db_loaded db' log \<and> db_Name db' = db_Name db \<and>
    (mi = None \<longleftrightarrow> spec_get log mid = None)"
proof -
  obtain db' where db': "db_loaded db' log" "DB_Lookup db mid False True = DB_Lookup db' mid False False"
      "db_Name db' = db_Name db"
    using DB_Lookup_idx [OF assms, of mid False] by blast
  obtain d mi where l: "DB_Lookup db' mid False False = (d, mi)" by fastforce
  have "d = db'" "map_option mi_view mi = (case newest log mid of None \<Rightarrow> None
      | Some (i, m) \<Rightarrow> if hidden i m then None else Some (minfo m (signed_off m (msg_off log i))))"
    using DB_Lookup_loaded [OF db'(1), of mid False] unfolding l not_False_eq_True simp_thms by simp_all
  moreover from this have "mi = None \<longleftrightarrow> spec_get log mid = None"
    by (cases mi) (auto simp: spec_get_def split: option.splits prod.splits if_splits)
  ultimately show ?thesis using db' l by auto
qed

lemma LookupIDS_log:
  assumes "db_rep db log"
  shows "\<exists>db' mis. LookupIDS db ids = (db', mis) \<and> db_rep db' log \<and> db_Name db' = db_Name db \<and>
    length mis = length (filter (\<lambda>mid. spec_get log mid \<noteq> None) ids)"
  using assms
proof (induction ids arbitrary: db)
  case (Cons i ids)
  obtain d mi where d: "DB_Lookup db i False True = (d, mi)" "db_loaded d log" "db_Name d = db_Name db"
      "mi = None \<longleftrightarrow> spec_get log i = None"
    using DB_Lookup_log [OF Cons.prems, of i] by metis
  obtain db' mis where r: "LookupIDS d ids = (db', mis)" "db_rep db' log" "db_Name db' = db_Name d"
      "length mis = length (filter (\<lambda>mid. spec_get log mid \<noteq> None) ids)"
    using Cons.IH [OF db_loaded_rep [OF d(2)]] by blast
  show ?case using d r by (cases mi) auto
qed simp

text \<open>The limit of an account that is new, and how many messages count against it.\<close>

definition point_limit :: "User \<Rightarrow> int" where
  "point_limit ui = (let t = Tags_val (us_Tags ui) ''limit'' in if t = [] then 0 else Atoi_val t)"

definition may_post :: "Msg list \<Rightarrow> User \<Rightarrow> string \<Rightarrow> bool" where
  "may_post log ui from =
     (Tags_val (us_Tags ui) ''status'' \<in> {''new'', ''moderated''} \<longrightarrow>
        int (length (log_slice log (nil_query\<lparr>q_From := from, q_Lim := point_limit ui\<rparr>))) < point_limit ui)"

lemma PointPolicy_log:
  assumes "db_rep db log"
  shows "\<exists>db'. PointPolicy ui db m = (db', Inr (may_post log ui (m_From m))) \<and> db_rep db' log \<and> db_Name db' = db_Name db"
proof (cases "Tags_val (us_Tags ui) ''status'' \<in> {''new'', ''moderated''}")
  case False
  then show ?thesis using assms by (auto simp: PointPolicy_def may_post_def Let_def)
next
  case True
  let ?q = "nil_query\<lparr>q_From := m_From m, q_Lim := point_limit ui\<rparr>"
  obtain d where d: "SelectIDS db ?q = (d, Inr (log_slice log ?q))" "db_loaded d log" "db_Name d = db_Name db"
    using SelectIDS_log [OF assms, of ?q] by (auto simp: nil_query_def)
  have "filter (\<lambda>mid. spec_get log mid \<noteq> None) (log_slice log ?q) = log_slice log ?q"
    using log_slice_readable [of _ log ?q] by (intro filter_True) (auto simp: nil_query_def)
  then obtain db' mis where r: "LookupIDS d (log_slice log ?q) = (db', mis)" "db_rep db' log" "db_Name db' = db_Name d"
      "length mis = length (log_slice log ?q)"
    using LookupIDS_log [OF db_loaded_rep [OF d(2)], of "log_slice log ?q"] by auto
  have "PointPolicy ui db m = (db', Inr (int (length mis) < point_limit ui))"
    using True d r by (auto simp: PointPolicy_def Let_def point_limit_def not_le)
  then show ?thesis using True d r by (auto simp: may_post_def)
qed

lemma Store_new_log:
  assumes "db_rep db log" "m_MsgId m = []"
  shows "\<exists>db' m'. Store now db m = (db', m', None)"
proof -
  obtain ix' where l: "LoadIndex db = (db\<lparr>db_index := File (index_text log), db_Idx := ix'\<rparr>, None)"
      and ld: "db_loaded (db\<lparr>db_index := File (index_text log), db_Idx := ix'\<rparr>) log"
    using LoadIndex_rep [OF assms(1)] by blast
  have "[] \<notin> set (map m_MsgId log)" using ld by (auto simp: db_loaded_def storable_def)
  then have "newest log [] = None" by (simp add: newest_None_iff spec_exists_def)
  then have n: "map_get (ix_Hash ix') [] = None"
    using mem_loaded_get [of ix' log "[]"] ld by (simp add: db_loaded_def)
  have "db_bundle db = File (bundle_text log) \<or> db_bundle db = NoFile"
    using assms(1) by (auto simp: db_rep_def holds_text_def)
  then show ?thesis
    by (auto simp: Store_def DB_Store_def l n assms(2) append_file_def Let_def split: prod.splits)
qed

lemma DecodeMsgline_id: "DecodeMsgline now s enc = Inr m \<Longrightarrow> m_MsgId m = []"
  by (auto simp: DecodeMsgline_def Let_def split: option.splits if_splits prod.splits)

lemma UserInfo_loaded:
  assumes "udb_loaded db us"
  shows "case UserInfo db secret of
      None \<Rightarrow> \<not> UDB_Access db secret \<and> secret \<notin> us_Secret ` set us
    | Some u \<Rightarrow> UDB_Access db secret \<and> u \<in> set us \<and> us_Secret u = secret \<and> UDB_Id db secret = us_Id u"
proof -
  have mem: "udb_mem db us" "users_ok us" using assms by (auto simp: udb_loaded_def)
  have sec: "ud_Secrets db secret = last_of (map (\<lambda>u. (us_Secret u, us_Name u)) us) secret"
    using mem(1) by (simp add: udb_mem_def)
  show ?thesis
  proof (cases "ud_Secrets db secret")
    case None
    then show ?thesis
      using sec last_of_keys [of us_Secret us_Name us secret] by (simp add: UserInfo_def UDB_Access_def)
  next
    case (Some n)
    then have "(secret, n) \<in> set (map (\<lambda>u. (us_Secret u, us_Name u)) us)"
      using sec last_of_Some_set by fastforce
    then obtain u where u: "u \<in> set us" "us_Secret u = secret" "us_Name u = n" by auto
    then have "map_get (ud_Names db) n = Some u" using udb_mem_user [OF mem] by blast
    then show ?thesis using Some u by (simp add: UserInfo_def user_of_def UDB_Access_def UDB_Id_def)
  qed
qed

text \<open>The message a point's line becomes.\<close>

definition point_msg :: "Node \<Rightarrow> User \<Rightarrow> Msg \<Rightarrow> Msg" where
  "point_msg node u m = m\<lparr>m_From := us_Name u, m_Addr := db_Name (nd_db node) @ '','' @ itoa (us_Id u)\<rparr>"

text \<open>
  The whole of \<^verbatim>\<open>PointMsg\<close> for a known point with a line that decodes: the reply is a
  function of the log, the user and the message.
\<close>

definition point_reply :: "Msg list \<Rightarrow> Node \<Rightarrow> User \<Rightarrow> Msg \<Rightarrow> ii_error option" where
  "point_reply log node u m =
     (if Msg_tag_val m ''repto'' \<noteq> [] \<and> spec_get log (Msg_tag_val m ''repto'') = None then Some EPointRepto
      else if \<not> may_post log u (us_Name u) then Some ENotVerified
      else if \<not> EDB_Access (nd_edb node) (point_msg node u m) \<and> us_Id u \<noteq> 1 then Some EAccessDenied
      else None)"

lemma load_users_rep:
  assumes "udb_rep (nd_udb node) us"
  shows "load_users compile node = (node\<lparr>nd_udb := fst (LoadUsers compile (nd_udb node))\<rparr>, None)"
  using LoadUsers_rep [OF assms, of compile] by (simp add: load_users_def case_prod_unfold)

lemma PointMsg_known:
  assumes rep: "db_rep (nd_db node) log" "udb_rep (nd_udb node) us"
    and u: "UserInfo (fst (LoadUsers compile (nd_udb node))) pauth = Some u" and m: "DecodeMsgline now tmsg True = Inr m"
  shows "\<exists>node' db m'. PointMsg compile now node pauth tmsg = (node', point_reply log node u m) \<and>
    nd_udb node' = fst (LoadUsers compile (nd_udb node)) \<and> db_rep db log \<and>
    (if point_reply log node u m = None then Store now db (point_msg node u m) = (nd_db node', m', None)
     else db_rep (nd_db node') log)"
proof -
  let ?r = "Msg_tag_val m ''repto''" and ?m = "point_msg node u m"
  let ?udb = "fst (LoadUsers compile (nd_udb node))"
  have ld: "udb_loaded ?udb us" using LoadUsers_rep [OF rep(2)] by blast
  have a: "UDB_Access ?udb pauth" "UDB_Id ?udb pauth = us_Id u"
    using UserInfo_loaded [OF ld, of pauth] u by auto
  obtain db1 ok where l: "find_repto (nd_db node) ?r = (db1, ok)"
      and db1: "db_rep db1 log" "db_Name db1 = db_Name (nd_db node)"
      and ok: "ok \<longleftrightarrow> ?r = [] \<or> spec_get log ?r \<noteq> None"
  proof (cases "?r = []")
    case False
    obtain db' mi where d: "DB_Lookup (nd_db node) ?r False True = (db', mi)" "db_loaded db' log"
        "db_Name db' = db_Name (nd_db node)" "mi = None \<longleftrightarrow> spec_get log ?r = None"
      using DB_Lookup_log [OF rep(1), of ?r] by metis
    have "mi \<noteq> None \<longleftrightarrow> ?r = [] \<or> spec_get log ?r \<noteq> None" using d(4) False by simp
    then show ?thesis
      using d(1,3) False db_loaded_rep [OF d(2)]
      by (intro that [of db' "mi \<noteq> None"]) (simp_all add: find_repto_def Lookup_def)
  qed (use that [of "nd_db node" True] rep in \<open>simp add: find_repto_def\<close>)
  obtain db2 where p: "PointPolicy u db1 ?m = (db2, Inr (may_post log u (us_Name u)))" "db_rep db2 log"
    using PointPolicy_log [OF db1(1), of u ?m] by (auto simp: point_msg_def)
  have pm: "m\<lparr>m_From := us_Name u, m_Addr := db_Name db1 @ '','' @ itoa (us_Id u)\<rparr> = ?m"
    by (simp add: point_msg_def db1(2))
  obtain db3 m' where st: "Store now db2 ?m = (db3, m', None)"
    using Store_new_log [OF p(2), of ?m now] DecodeMsgline_id [OF m] by (auto simp: point_msg_def)
  have eq: "PointMsg compile now node pauth tmsg =
    (let node' = node\<lparr>nd_udb := ?udb\<rparr> in
     if \<not> ok then (upd_db node' db1, Some EPointRepto)
     else if \<not> may_post log u (us_Name u) then (upd_db node' db2, Some ENotVerified)
     else if \<not> EDB_Access (nd_edb node) ?m \<and> us_Id u \<noteq> 1 then (upd_db node' db2, Some EAccessDenied)
     else (upd_db node' db3, None))"
    using a u m l p(1) st pm by (simp add: PointMsg_def load_users_rep [OF rep(2)] Let_def upd_db_def)
  have nok: "(\<not> ok) = (?r \<noteq> [] \<and> spec_get log ?r = None)" using ok by blast
  have "PointMsg compile now node pauth tmsg =
    (upd_db (node\<lparr>nd_udb := ?udb\<rparr>) (case point_reply log node u m of
       None \<Rightarrow> db3 | Some e \<Rightarrow> if e = EPointRepto then db1 else db2), point_reply log node u m)"
    unfolding eq nok by (simp add: point_reply_def Let_def)
  then show ?thesis
    using db1(1) p(2) st
    by (cases "point_reply log node u m") (auto simp: upd_db_def)
qed

text \<open>All of \<^verbatim>\<open>PointMsg\<close> on a node that represents a log and a list of users.\<close>

lemma PointMsg_log:
  assumes rep: "db_rep (nd_db node) log" "udb_rep (nd_udb node) us"
    and r: "PointMsg compile now node pauth tmsg = (node', reply)"
  shows "udb_loaded (nd_udb node') us \<and>
    (case reply of
       Some e \<Rightarrow> db_rep (nd_db node') log
     | None \<Rightarrow> \<exists>u m. u \<in> set us \<and> us_Secret u = pauth \<and> DecodeMsgline now tmsg True = Inr m \<and>
         (Msg_tag_val m ''repto'' \<noteq> [] \<longrightarrow> spec_get log (Msg_tag_val m ''repto'') \<noteq> None) \<and>
         may_post log u (us_Name u) \<and>
         (EDB_Access (nd_edb node) (point_msg node u m) \<or> us_Id u = 1) \<and>
         (\<exists>db m'. db_rep db log \<and> Store now db (point_msg node u m) = (nd_db node', m', None)))"
proof -
  let ?udb = "fst (LoadUsers compile (nd_udb node))"
  have ld: "udb_loaded ?udb us" using LoadUsers_rep [OF rep(2)] by blast
  note ui = UserInfo_loaded [OF ld, of pauth]
  show ?thesis
  proof (cases "UserInfo ?udb pauth")
    case None
    then show ?thesis using r rep ui ld by (auto simp: PointMsg_def load_users_rep [OF rep(2)] Let_def)
  next
    case (Some u)
    then have u: "UDB_Access ?udb pauth" "u \<in> set us" "us_Secret u = pauth" using ui by auto
    show ?thesis
    proof (cases "DecodeMsgline now tmsg True")
      case (Inl e)
      then show ?thesis using r rep u ld by (auto simp: PointMsg_def load_users_rep [OF rep(2)] Let_def)
    next
      case (Inr m)
      obtain node1 db m' where p: "PointMsg compile now node pauth tmsg = (node1, point_reply log node u m)"
          "nd_udb node1 = ?udb" "db_rep db log"
          "if point_reply log node u m = None then Store now db (point_msg node u m) = (nd_db node1, m', None)
           else db_rep (nd_db node1) log"
        using PointMsg_known [OF rep Some Inr] by blast
      have e: "node1 = node'" "reply = point_reply log node u m" using p(1) r by auto
      show ?thesis
      proof (cases reply)
        case None
        then have "Store now db (point_msg node u m) = (nd_db node', m', None)" using p(4) e by simp
        moreover from None e(2) have "point_reply log node u m = None" by simp
        ultimately show ?thesis
          using None p(2,3) e(1) ld u Inr by (auto simp: point_reply_def split: if_splits)
      next
        case (Some e')
        then show ?thesis using p(2,4) e ld by simp
      qed
    qed
  qed
qed

lemma UserInfo_secret:
  assumes "udb_rep db us" "u \<in> set us" "us_Secret u = pauth" "distinct (map us_Secret us)"
  shows "UserInfo (fst (LoadUsers compile db)) pauth = Some u"
proof -
  have ld: "udb_loaded (fst (LoadUsers compile db)) us" using LoadUsers_rep [OF assms(1)] by blast
  show ?thesis
    using UserInfo_loaded [OF ld, of pauth] assms(2-4)
    by (auto simp: distinct_map inj_on_def split: option.splits)
qed

end
