(* ===== verification/II_Net.thy ===== *)
theory II_Net
  imports II_Node
begin

text \<open>
  Talking to another node (\<^verbatim>\<open>ii/net.go\<close>): reading answers line by line, finding out what is
  new, fetching bundles in batches of eight, and sending messages of a point. The other node is the
  parameter \<open>get\<close>: for a URL no answer, or a body and whether it was read to its end. The goroutines
  that \<^verbatim>\<open>Fetch\<close> starts, one for an area, are run one after the other here; they share
  nothing but the database, whose operations exclude each other.
\<close>

section \<open>Answers\<close>

datatype http_reply = NoReply | Reply string bool

type_synonym http = "string \<Rightarrow> http_reply"

record Remote =
  rm_Host :: string
  rm_Features :: "string set"
  rm_Force :: bool

text \<open>The lines passed on: the complete ones, and an unterminated last one that is not empty.\<close>

definition reply_lines :: "string \<Rightarrow> bool \<Rightarrow> string list" where
  "reply_lines body ok =
     text_lines body @ (let l = last (Split NL body) in if ok \<and> l \<noteq> [] then [l] else [])"

text \<open>\<^verbatim>\<open>http_req_lines\<close> with a callback that never stops, as all its callers have.\<close>

definition http_req_lines :: "http \<Rightarrow> string \<Rightarrow> (string \<Rightarrow> 's \<Rightarrow> 's) \<Rightarrow> 's \<Rightarrow> 's \<times> ii_error option" where
  "http_req_lines get url fn st =
     (case get url of
        NoReply \<Rightarrow> (st, Some EIO)
      | Reply body ok \<Rightarrow> (fold fn (reply_lines body ok) st, if ok then None else Some EIO))"

definition http_get_id :: "http \<Rightarrow> string \<Rightarrow> ii_error + string" where
  "http_get_id get url =
     (case http_req_lines get url (\<lambda>line res. if Contains line ''.'' then res else res @ line) [] of
        (res, Some e) \<Rightarrow> Inl e
      | (res, None) \<Rightarrow> Inr res)"

definition IsFeature :: "Remote \<Rightarrow> string \<Rightarrow> bool" where
  "IsFeature n f = (f \<in> rm_Features n)"

definition Connect :: "http \<Rightarrow> string \<Rightarrow> ii_error + Remote" where
  "Connect get addr =
     (let host = TrimSuffix addr ''/'' in
      case http_req_lines get (host @ ''/x/features'') (\<lambda>line fs. insert line fs) {} of
        (fs, Some e) \<Rightarrow> Inl e
      | (fs, None) \<Rightarrow> Inr \<lparr>rm_Host = host, rm_Features = fs, rm_Force = False\<rparr>)"

definition Net_List :: "http \<Rightarrow> Remote \<Rightarrow> string list \<times> ii_error option" where
  "Net_List get n =
     (if \<not> IsFeature n ''list.txt'' then ([], None)
      else http_req_lines get (rm_Host n @ ''/list.txt'') (\<lambda>line l. l @ [Split (CHR '':'') line ! 0]) [])"

section \<open>Fetching\<close>

definition store_line :: "int \<Rightarrow> string \<Rightarrow> DB \<Rightarrow> DB" where
  "store_line now b db =
     (case DecodeBundle b of
        Inl _ \<Rightarrow> db
      | Inr m \<Rightarrow> fst (Store now db m))"

text \<open>The loop of \<^verbatim>\<open>Store\<close>: the request so far and how many ids it names.\<close>

fun net_store :: "http \<Rightarrow> int \<Rightarrow> string \<Rightarrow> string list \<Rightarrow> string \<Rightarrow> nat \<Rightarrow> DB \<Rightarrow> DB \<times> ii_error option" where
  "net_store get now host [] req nreq db = (db, None)"
| "net_store get now host (i # ids) req nreq db =
     (let req = req @ ''/'' @ i; nreq = nreq + 1 in
      if nreq < 8 \<and> ids \<noteq> [] then net_store get now host ids req nreq db
      else (case http_req_lines get (host @ ''/u/m'' @ req) (store_line now) db of
              (db, Some e) \<Rightarrow> (db, Some e)
            | (db, None) \<Rightarrow> net_store get now host ids [] 0 db))"

definition Net_Store :: "http \<Rightarrow> int \<Rightarrow> Remote \<Rightarrow> DB \<Rightarrow> string list \<Rightarrow> DB \<times> ii_error option" where
  "Net_Store get now n db ids = net_store get now (rm_Host n) ids [] 0 db"

text \<open>
  The adaptive search for the number of messages to fetch, with the tries that are left. 0 stands for
  a full fetch.
\<close>

fun adaptive :: "http \<Rightarrow> string \<Rightarrow> string \<Rightarrow> nat \<Rightarrow> int \<Rightarrow> DB \<Rightarrow> DB \<times> int" where
  "adaptive get host echo 0 limit db = (db, 0)"
| "adaptive get host echo (Suc tries) limit db =
     (case http_get_id get (host @ ''/u/e/'' @ echo @ ''/'' @ itoa (wrap64 (- limit)) @ '':1'') of
        Inl _ \<Rightarrow> (db, 0)
      | Inr mid \<Rightarrow>
          if \<not> IsMsgId mid then (db, 0)
          else (case Exists db mid of
            (db, Some _) \<Rightarrow> (db, limit)
          | (db, None) \<Rightarrow> adaptive get host echo tries (wrap64 (limit * 2)) db))"

text \<open>Whether a synchronization is needed: the newest message of the area is not known here.\<close>

definition sync_needed :: "http \<Rightarrow> Remote \<Rightarrow> string \<Rightarrow> DB \<Rightarrow> DB \<times> bool" where
  "sync_needed get n echo db =
     (if rm_Force n then (db, True)
      else (case http_get_id get (rm_Host n @ ''/u/e/'' @ echo @ ''/-1:1'') of
        Inl _ \<Rightarrow> (db, False)
      | Inr mid \<Rightarrow>
          if \<not> IsMsgId mid then (db, False)
          else (case Exists db mid of (db, mi) \<Rightarrow> (db, mi = None))))"

definition new_ids :: "string \<Rightarrow> DB \<times> string list \<Rightarrow> DB \<times> string list" where
  "new_ids line st =
     (case st of (db, res) \<Rightarrow>
        if Contains line ''.'' then (db, res)
        else (case Exists db line of (db, mi) \<Rightarrow> (db, if mi = None then res @ [line] else res)))"

definition fetch_area :: "http \<Rightarrow> int \<Rightarrow> Remote \<Rightarrow> DB \<Rightarrow> string \<Rightarrow> int \<Rightarrow> DB" where
  "fetch_area get now n db echo limit =
     (let req = rm_Host n @ ''/u/e/'' @ echo;
          req = (if limit > 0 then req @ ''/'' @ itoa (- limit) @ '':'' @ itoa limit else req) in
      case http_req_lines get req new_ids (db, []) of
        ((db, res), Some e) \<Rightarrow> db
      | ((db, res), None) \<Rightarrow> fst (Net_Store get now n db res))"

definition Fetcher :: "http \<Rightarrow> int \<Rightarrow> Remote \<Rightarrow> DB \<Rightarrow> string \<Rightarrow> int \<Rightarrow> DB" where
  "Fetcher get now n db echo limit =
     (if IsFeature n ''u/e'' then
        (case sync_needed get n echo db of
           (db, False) \<Rightarrow> db
         | (db, True) \<Rightarrow>
             (let (db, limit) = (if limit < 0 then adaptive get (rm_Host n) echo 17 (wrap64 (- limit)) db
                                 else (db, limit))
              in fetch_area get now n db echo limit))
      else fetch_area get now n db echo 0)"

definition Fetch :: "http \<Rightarrow> int \<Rightarrow> Remote \<Rightarrow> DB \<Rightarrow> string list \<Rightarrow> int \<Rightarrow> DB" where
  "Fetch get now n db echolist limit =
     (let es = (if echolist = [] then fst (Net_List get n) else echolist)
      in fold (\<lambda>e db. Fetcher get now n db e limit) (filter IsEcho es) db)"

section \<open>Sending\<close>

text \<open>What the answer to a post means; \<open>None\<close> is success.\<close>

definition post_result :: "http_reply \<Rightarrow> ii_error option" where
  "post_result r =
     (case r of
        NoReply \<Rightarrow> Some EIO
      | Reply buf ok \<Rightarrow>
          if HasPrefix buf ''msg ok'' then None
          else if buf \<noteq> [] then Some (EServer buf)
          else if ok then Some ENotAccepted else Some EIO)"

definition Send :: "http \<Rightarrow> Remote \<Rightarrow> string \<Rightarrow> string \<Rightarrow> ii_error option" where
  "Send get n pauth msg = post_result (get (rm_Host n @ ''/u/point/'' @ pauth @ ''/'' @ URLEncode msg))"

text \<open>\<open>post\<close> is the form POST of package \<^verbatim>\<open>net/http\<close>: a URL and the form's fields.\<close>

definition Post :: "(string \<Rightarrow> (string \<times> string) list \<Rightarrow> http_reply) \<Rightarrow> Remote \<Rightarrow> string \<Rightarrow> string \<Rightarrow> ii_error option" where
  "Post post n pauth msg =
     post_result (post (rm_Host n @ ''/u/point'') [(''pauth'', pauth), (''tmsg'', StdEncode msg)])"

section \<open>Fetched messages never replace stored ones\<close>

text \<open>The messages the other node can deliver as bundles, as they would be stored.\<close>

definition fetched :: "http \<Rightarrow> string \<Rightarrow> int \<Rightarrow> Msg set" where
  "fetched get host now =
     {filled now m |m. \<exists>req body ok b. get (host @ ''/u/m'' @ req) = Reply body ok \<and>
        b \<in> set (reply_lines body ok) \<and> DecodeBundle b = Inr m}"

definition new_only :: "Msg list \<Rightarrow> Msg list \<Rightarrow> bool" where
  "new_only log ms = (distinct (map m_MsgId ms) \<and> (\<forall>m\<in>set ms. \<not> spec_exists log (m_MsgId m)))"

text \<open>
  The database represents the log, extended by delivered messages with new ids; the ids in \<open>S\<close> are
  stored.
\<close>

definition extends :: "http \<Rightarrow> string \<Rightarrow> int \<Rightarrow> Msg list \<Rightarrow> string set \<Rightarrow> DB \<Rightarrow> bool" where
  "extends get host now log S db =
     (\<exists>ms. db_rep db (log @ ms) \<and> new_only log ms \<and> set ms \<subseteq> fetched get host now \<and>
        S \<subseteq> m_MsgId ` set (log @ ms))"

text \<open>
  What has to hold of the other node: no field of a message breaks the index record, and what it can
  deliver fits in a file.
\<close>

definition good_remote :: "http \<Rightarrow> string \<Rightarrow> int \<Rightarrow> Msg list \<Rightarrow> bool" where
  "good_remote get host now log =
     (in64 now \<and> (\<forall>m\<in>fetched get host now. indexable m) \<and>
      (\<forall>ms. new_only log ms \<and> set ms \<subseteq> fetched get host now \<longrightarrow>
         int (length (bundle_text (log @ ms))) < 2 ^ 63))"

lemma extends_mono: "extends get host now log S db \<Longrightarrow> T \<subseteq> S \<Longrightarrow> extends get host now log T db"
  unfolding extends_def by blast

lemma store_line_extends:
  assumes good: "good_remote get host now log" and ext: "extends get host now log S db"
    and b: "get (host @ ''/u/m'' @ req) = Reply body ok" "b \<in> set (reply_lines body ok)"
  shows "extends get host now log (case DecodeBundle b of Inl _ \<Rightarrow> S | Inr m \<Rightarrow> insert (m_MsgId m) S) (store_line now b db)"
proof (cases "DecodeBundle b")
  case (Inr m)
  let ?f = "filled now m"
  obtain ms where ms: "db_rep db (log @ ms)" "new_only log ms" "set ms \<subseteq> fetched get host now"
      "S \<subseteq> m_MsgId ` set (log @ ms)"
    using ext by (auto simp: extends_def)
  have f: "?f \<in> fetched get host now" unfolding fetched_def using b Inr by blast
  have ok: "bundle_ok m" "m_MsgId m \<noteq> []" using DecodeBundle_ok [OF Inr] by auto
  then have mid: "m_MsgId ?f = m_MsgId m" by (simp add: filled_def stamped_def Let_def)
  have st: "storable ?f"
    using bundle_ok_filled [OF ok(1)] good f ok(2) mid by (simp add: storable_def good_remote_def)
  show ?thesis
  proof (cases "spec_exists (log @ ms) (m_MsgId m)")
    case False
    then have new: "new_only log (ms @ [?f])"
      using ms(2) mid by (auto simp: new_only_def spec_exists_def)
    moreover have sub: "set (ms @ [?f]) \<subseteq> fetched get host now" using ms(3) f by simp
    ultimately have "int (length (bundle_text (log @ (ms @ [?f])))) < 2 ^ 63"
      using good unfolding good_remote_def by blast
    then have "int (length (bundle_text ((log @ ms) @ [?f]))) < 2 ^ 63" by (simp only: append_assoc)
    then have "db_rep (fst (Store now db m)) (log @ (ms @ [?f]))"
      using DB_Store_rep [OF ms(1) st, of False] False by (auto simp: Store_def split: prod.splits)
    moreover have "insert (m_MsgId m) S \<subseteq> m_MsgId ` set (log @ (ms @ [?f]))" using ms(4) mid by auto
    ultimately have "extends get host now log (insert (m_MsgId m) S) (fst (Store now db m))"
      unfolding extends_def using new sub by blast
    then show ?thesis using Inr by (simp add: store_line_def)
  next
    case True
    have "db_rep (fst (Store now db m)) (log @ ms)"
    proof -
      obtain ix' where l: "LoadIndex db = (db\<lparr>db_index := File (index_text (log @ ms)), db_Idx := ix'\<rparr>, None)"
          and ld: "db_loaded (db\<lparr>db_index := File (index_text (log @ ms)), db_Idx := ix'\<rparr>) (log @ ms)"
        using LoadIndex_rep [OF ms(1)] by blast
      have "map_get (ix_Hash ix') (m_MsgId m) \<noteq> None"
        using mem_loaded_get [of ix' "log @ ms" "m_MsgId m"] ld True newest_None_iff [of "log @ ms" "m_MsgId m"]
        by (auto simp: db_loaded_def split: option.splits)
      then have "fst (Store now db m) = db\<lparr>db_index := File (index_text (log @ ms)), db_Idx := ix'\<rparr>"
        by (simp add: Store_def DB_Store_def l)
      then show ?thesis using db_loaded_rep [OF ld] by simp
    qed
    moreover have "insert (m_MsgId m) S \<subseteq> m_MsgId ` set (log @ ms)"
      using ms(4) True by (auto simp: spec_exists_def)
    ultimately have "extends get host now log (insert (m_MsgId m) S) (fst (Store now db m))"
      unfolding extends_def using ms(2,3) by blast
    then show ?thesis using Inr by (simp add: store_line_def)
  qed
qed (use ext in \<open>simp add: store_line_def\<close>)

text \<open>The ids of the lines that decode.\<close>

definition line_ids :: "string list \<Rightarrow> string set" where
  "line_ids bs = {m_MsgId m |m b. b \<in> set bs \<and> DecodeBundle b = Inr m}"

lemma fold_store_extends:
  assumes "good_remote get host now log" and "get (host @ ''/u/m'' @ req) = Reply body ok"
  shows "extends get host now log S db \<Longrightarrow> set bs \<subseteq> set (reply_lines body ok) \<Longrightarrow>
    extends get host now log (S \<union> line_ids bs) (fold (store_line now) bs db)"
proof (induction bs arbitrary: S db)
  case (Cons b bs)
  let ?S = "case DecodeBundle b of Inl _ \<Rightarrow> S | Inr m \<Rightarrow> insert (m_MsgId m) S"
  have "extends get host now log ?S (store_line now b db)"
    using store_line_extends [OF assms(1) Cons.prems(1) assms(2), of b] Cons.prems(2) by simp
  from Cons.IH [OF this] have "extends get host now log (?S \<union> line_ids bs) (fold (store_line now) (b # bs) db)"
    using Cons.prems(2) by simp
  moreover have "S \<union> line_ids (b # bs) \<subseteq> ?S \<union> line_ids bs"
    by (auto simp: line_ids_def split: sum.splits)
  ultimately show ?case by (rule extends_mono)
qed (simp add: line_ids_def)

lemma http_lines_extends:
  assumes "good_remote get host now log" and "extends get host now log S db"
  shows "extends get host now log S (fst (http_req_lines get (host @ ''/u/m'' @ req) (store_line now) db))"
proof (cases "get (host @ ''/u/m'' @ req)")
  case (Reply body ok)
  show ?thesis
    using extends_mono [OF fold_store_extends [OF assms(1) Reply assms(2) subset_refl]] Reply
    by (simp add: http_req_lines_def)
qed (use assms in \<open>simp add: http_req_lines_def\<close>)

lemma net_store_extends:
  "good_remote get host now log \<Longrightarrow> extends get host now log S db \<Longrightarrow>
     extends get host now log S (fst (net_store get now host ids req n db))"
proof (induction ids arbitrary: req n db)
  case (Cons i ids)
  show ?case
  proof (cases "n + 1 < 8 \<and> ids \<noteq> []")
    case False
    let ?r = "http_req_lines get (host @ ''/u/m'' @ req @ ''/'' @ i) (store_line now) db"
    have "extends get host now log S (fst ?r)" using http_lines_extends [OF Cons.prems] .
    then show ?thesis using Cons False
      by (cases ?r) (auto simp: Let_def split: option.splits)
  qed (use Cons in simp)
qed simp

lemma Exists_extends: "extends get host now log S db \<Longrightarrow> extends get host now log S (fst (Exists db mid))"
  unfolding extends_def using Exists_rep db_loaded_rep by blast

lemma adaptive_extends:
  "extends get host now log S db \<Longrightarrow> extends get host now log S (fst (adaptive get host' echo tries limit db))"
proof (induction tries arbitrary: limit db)
  case (Suc tries)
  show ?case
  proof (cases "http_get_id get (host' @ ''/u/e/'' @ echo @ ''/'' @ itoa (wrap64 (- limit)) @ '':1'')")
    case (Inr mid)
    then show ?thesis
      using Exists_extends [OF Suc.prems, of mid] Suc.prems Suc.IH
      by (cases "Exists db mid") (auto split: option.splits)
  qed (use Suc.prems in simp)
qed simp

lemma sync_needed_extends:
  "extends get host now log S db \<Longrightarrow> extends get host now log S (fst (sync_needed get n echo db))"
  using Exists_extends [of get host now log S db]
  by (auto simp: sync_needed_def split: sum.splits prod.splits) (metis fst_conv)

lemma new_ids_extends:
  "extends get host now log S (fst st) \<Longrightarrow> extends get host now log S (fst (fold new_ids ls st))"
proof (induction ls arbitrary: st)
  case (Cons l ls)
  have "extends get host now log S (fst (new_ids l st))"
    using Cons.prems Exists_extends [of get host now log S "fst st" l]
    by (cases st) (auto simp: new_ids_def split: prod.splits)
  then show ?case using Cons.IH by simp
qed simp

lemma fetch_area_extends:
  assumes "good_remote get (rm_Host n) now log" "extends get (rm_Host n) now log S db"
  shows "extends get (rm_Host n) now log S (fetch_area get now n db echo limit)"
proof -
  have "extends get (rm_Host n) now log S (fst (fst (http_req_lines get url new_ids (db, []))))" for url
    using assms(2) new_ids_extends [of get "rm_Host n" now log S "(db, [])"]
    by (simp add: http_req_lines_def split: http_reply.split)
  then show ?thesis
    using net_store_extends [OF assms(1)]
    by (auto simp: fetch_area_def Net_Store_def Let_def split: prod.splits option.splits) (metis fst_conv)+
qed

lemma Fetcher_extends:
  assumes "good_remote get (rm_Host n) now log" "extends get (rm_Host n) now log S db"
  shows "extends get (rm_Host n) now log S (Fetcher get now n db echo limit)"
proof -
  obtain d s where s: "sync_needed get n echo db = (d, s)" by fastforce
  have d: "extends get (rm_Host n) now log S d" using sync_needed_extends [OF assms(2), of n echo] s by simp
  obtain d' l where a: "adaptive get (rm_Host n) echo 17 (wrap64 (- limit)) d = (d', l)" by fastforce
  have d': "extends get (rm_Host n) now log S d'"
    using adaptive_extends [OF d, of "rm_Host n" echo 17 "wrap64 (- limit)"] a by simp
  show ?thesis
    using fetch_area_extends [OF assms(1)] assms(2) d d' s a by (cases s) (simp_all add: Fetcher_def)
qed

lemma extends_start: "db_rep db log \<Longrightarrow> extends get host now log {} db"
  by (auto simp: extends_def new_only_def intro!: exI [of _ "[]"])

lemma Fetch_extends:
  assumes "good_remote get (rm_Host n) now log" "db_rep db log"
  shows "extends get (rm_Host n) now log {} (Fetch get now n db echolist limit)"
proof -
  have "extends get (rm_Host n) now log {} db" by (rule extends_start [OF assms(2)])
  then have "extends get (rm_Host n) now log {} (fold (\<lambda>e db. Fetcher get now n db e limit) es db)" for es
    using Fetcher_extends [OF assms(1)] by (induction es arbitrary: db) auto
  then show ?thesis by (simp add: Fetch_def Let_def)
qed

lemma spec_get_new_only: "new_only log ms \<Longrightarrow> spec_exists log k \<Longrightarrow> spec_get (log @ ms) k = spec_get log k"
proof (induction ms rule: rev_induct)
  case (snoc m ms)
  have "m_MsgId m \<noteq> k" using snoc.prems by (auto simp: new_only_def)
  then show ?case using snoc spec_get_snoc [of "log @ ms" m k] by (simp add: new_only_def)
qed simp

section \<open>The requests of a fetch\<close>

text \<open>Every id is asked for once, in order, at most eight in a request.\<close>

fun chunks :: "nat \<Rightarrow> 'a list \<Rightarrow> 'a list list" where
  "chunks 0 xs = []"
| "chunks (Suc n) xs = (if xs = [] then [] else take 8 xs # chunks n (drop 8 xs))"

definition batches :: "'a list \<Rightarrow> 'a list list" where
  "batches xs = chunks (length xs) xs"

lemma concat_chunks: "length xs \<le> n \<Longrightarrow> concat (chunks n xs) = xs"
  by (induction n arbitrary: xs) auto

lemma chunks_size: "b \<in> set (chunks n xs) \<Longrightarrow> 0 < length b \<and> length b \<le> 8"
  by (induction n arbitrary: xs) (auto split: if_splits)

lemma chunks_fuel: "length xs \<le> n \<Longrightarrow> length xs \<le> k \<Longrightarrow> chunks n xs = chunks k xs"
proof (induction n arbitrary: xs k)
  case 0
  then show ?case by (cases k) simp_all
next
  case (Suc n)
  then show ?case by (cases k) (auto intro!: Suc.IH)
qed

lemma batches_step: "xs \<noteq> [] \<Longrightarrow> batches xs = take 8 xs # batches (drop 8 xs)"
  unfolding batches_def by (cases xs) (auto intro!: chunks_fuel simp del: drop_Suc_Cons take_Suc_Cons)

definition um_request :: "string \<Rightarrow> string list \<Rightarrow> string" where
  "um_request host b = host @ ''/u/m'' @ concat (map (\<lambda>i. ''/'' @ i) b)"

text \<open>One request for each batch, stopping at the first that fails.\<close>

fun run_batches :: "http \<Rightarrow> int \<Rightarrow> string \<Rightarrow> string list list \<Rightarrow> DB \<Rightarrow> DB \<times> ii_error option" where
  "run_batches get now host [] db = (db, None)"
| "run_batches get now host (b # bs) db =
     (case http_req_lines get (um_request host b) (store_line now) db of
        (db, Some e) \<Rightarrow> (db, Some e)
      | (db, None) \<Rightarrow> run_batches get now host bs db)"

lemma net_store_batch:
  "ids \<noteq> [] \<Longrightarrow> n < 8 \<Longrightarrow>
     net_store get now host ids req n db =
       (case http_req_lines get (host @ ''/u/m'' @ req @ concat (map (\<lambda>i. ''/'' @ i) (take (8 - n) ids))) (store_line now) db of
          (db, Some e) \<Rightarrow> (db, Some e)
        | (db, None) \<Rightarrow> net_store get now host (drop (8 - n) ids) [] 0 db)"
proof (induction ids arbitrary: req n db)
  case (Cons i ids)
  have s: "8 - n = Suc (8 - (n + 1))" using Cons.prems(2) by simp
  show ?case
  proof (cases "n + 1 < 8 \<and> ids \<noteq> []")
    case True
    then have "net_store get now host (i # ids) req n db = net_store get now host ids (req @ ''/'' @ i) (n + 1) db" by simp
    then show ?thesis using Cons.IH [of "n + 1" "req @ ''/'' @ i" db] True unfolding s by simp
  next
    case False
    then have "take (8 - (n + 1)) ids = []" "drop (8 - (n + 1)) ids = ids" using Cons.prems(2) by auto
    then show ?thesis using False unfolding s by (auto simp: Let_def)
  qed
qed simp

lemma net_store_batches: "net_store get now host ids [] 0 db = run_batches get now host (batches ids) db"
proof (induction "length ids" arbitrary: ids db rule: less_induct)
  case less
  show ?case
  proof (cases "ids = []")
    case True
    then show ?thesis by (simp add: batches_def)
  next
    case False
    then have "length (drop 8 ids) < length ids" by simp
    then show ?thesis
      using net_store_batch [OF False, of 0 get now host "[]" db] less.hyps
      by (simp add: batches_step [OF False] um_request_def split: prod.splits option.splits)
  qed
qed

end
