(* ===== verification/II_Sync.thy ===== *)
theory II_Sync
  imports II_Net
begin

text \<open>
  Two nodes: the client of one (\<^verbatim>\<open>ii/net.go\<close>) reading the handlers of the other
  (\<^verbatim>\<open>ii-node/main.go\<close>). The answers of the other node are computed by its handlers on its database;
  the lemmas show that what a fetch asks for arrives.
\<close>

section \<open>The handlers as the other side of a connection\<close>

text \<open>
  The paths a client can send as they are: no escapes, and no segments the server's multiplexer
  would clean up.
\<close>

definition url_char :: "char \<Rightarrow> bool" where
  "url_char c = (is_digit c \<or> c \<in> set ''ABCDEFGHIJKLMNOPQRSTUVWXYZabcdefghijklmnopqrstuvwxyz-_.~:'')"

lemma not_url_char: "\<not> url_char CHR ''/''" "\<not> url_char NL"
  by (simp_all add: url_char_def is_digit_def)

lemma url_char_number: "url_char CHR ''-''" "url_char CHR '':''" "is_digit c \<Longrightarrow> url_char c"
  by (simp_all add: url_char_def)

definition plain_segment :: "string \<Rightarrow> bool" where
  "plain_segment w = (w \<notin> {[], ''.'', ''..''} \<and> list_all url_char w)"

definition plain_path :: "string \<Rightarrow> bool" where
  "plain_path p = list_all plain_segment (Split (CHR ''/'') p)"

text \<open>What the handlers registered in \<^verbatim>\<open>main\<close> answer to the requests of a fetch.\<close>

definition serve :: "(string list \<Rightarrow> string list) \<Rightarrow> string \<Rightarrow> Node \<Rightarrow> http" where
  "serve order host node url =
     (let um = host @ ''/u/m/''; ue = host @ ''/u/e/'' in
      if HasPrefix url um \<and> plain_path (TrimPrefix url um)
      then Reply (snd (handle_um (TrimPrefix url um) (nd_db node))) True
      else if HasPrefix url ue \<and> plain_path (TrimPrefix url ue)
      then (case snd (handle_ue (TrimPrefix url ue) (nd_db node)) of Inl _ \<Rightarrow> NoReply | Inr out \<Rightarrow> Reply out True)
      else if url = host @ ''/x/features'' then Reply handle_features True
      else if url = host @ ''/list.txt'' then Reply (snd (handle_list order node)) True
      else NoReply)"

lemma serve_um:
  "plain_path p \<Longrightarrow> serve order host node (host @ ''/u/m/'' @ p) = Reply (snd (handle_um p (nd_db node))) True"
  using HasPrefix_append [of "host @ ''/u/m/''" p] TrimPrefix_append [of "host @ ''/u/m/''" p]
  by (simp add: serve_def Let_def)

lemma serve_ue:
  assumes "plain_path p"
  shows "serve order host node (host @ ''/u/e/'' @ p) =
    (case snd (handle_ue p (nd_db node)) of Inl _ \<Rightarrow> NoReply | Inr out \<Rightarrow> Reply out True)"
  using HasPrefix_append [of "host @ ''/u/e/''" p] TrimPrefix_append [of "host @ ''/u/e/''" p] assms
  by (simp add: serve_def Let_def HasPrefix_iff)

lemma serve_um_only:
  assumes "serve order host node (host @ ''/u/m'' @ req) = Reply body ok"
  shows "\<exists>p. body = snd (handle_um p (nd_db node))"
  using assms by (auto simp: serve_def Let_def HasPrefix_iff split: if_splits)

section \<open>Reading what was printed\<close>

lemma Split_print_lines: "\<forall>l\<in>set ls. NL \<notin> set l \<Longrightarrow> Split NL (print_lines ls) = ls @ [[]]"
  by (induction ls) (auto simp: print_lines_def Split_append)

lemma reply_lines_print: "\<forall>l\<in>set ls. NL \<notin> set l \<Longrightarrow> reply_lines (print_lines ls) ok = ls"
  by (simp add: reply_lines_def text_lines_def Split_print_lines)

section \<open>What the other node answers to a fetch\<close>

lemma plain_segment_no_slash: "plain_segment w \<Longrightarrow> CHR ''/'' \<notin> set w \<and> NL \<notin> set w"
  using not_url_char by (auto simp: plain_segment_def list_all_iff)

lemma plain_path_Join:
  assumes "ws \<noteq> []" "\<forall>w\<in>set ws. plain_segment w"
  shows "plain_path (Join ''/'' ws) \<and> Split (CHR ''/'') (Join ''/'' ws) = ws"
proof -
  have "Split (CHR ''/'') (Join ''/'' ws) = ws"
    using assms plain_segment_no_slash by (intro Split_Join) auto
  then show ?thesis using assms(2) by (simp add: plain_path_def list_all_iff)
qed

text \<open>The ids of an area a fetch with this limit asks for: all, or the last \<open>limit\<close>.\<close>

definition wanted :: "Msg list \<Rightarrow> string \<Rightarrow> int \<Rightarrow> string list" where
  "wanted log e limit =
     log_slice log (nil_query\<lparr>q_Echo := e, q_Start := (if limit > 0 then - limit else 0), q_Lim := max 0 limit\<rparr>)"

lemma wanted_shown:
  assumes "mid \<in> set (wanted log e limit)" "e \<noteq> []"
  shows "\<exists>m. spec_get log mid = Some m \<and> m_MsgId m = mid \<and> m_Echo m = e \<and> \<not> IsPrivate e"
proof -
  obtain m where m: "spec_get log mid = Some m" "may_read nil_user m" "m_Echo m = e"
    using log_slice_readable [OF assms(1) [unfolded wanted_def]] assms(2) by (auto simp: nil_query_def)
  have "m_MsgId m = mid"
    using m(1) newest_Some [of log mid] by (auto simp: spec_get_def split: option.splits if_splits)
  then show ?thesis using m by (auto simp: may_read_def nil_user_def)
qed

lemma spec_get_mem: "spec_get log mid = Some m \<Longrightarrow> m \<in> set log \<and> m_MsgId m = mid"
  using newest_Some [of log mid] by (fastforce simp: spec_get_def split: option.splits if_splits)

text \<open>The path of the request for the ids.\<close>

definition ue_path :: "string \<Rightarrow> int \<Rightarrow> string" where
  "ue_path e limit = (if limit > 0 then e @ ''/'' @ itoa (- limit) @ '':'' @ itoa limit else e)"

lemma plain_itoa: "plain_segment (itoa a @ '':'' @ itoa b)"
proof -
  have "list_all url_char (itoa i)" for i
    using itoa_chars [of _ i] url_char_number by (auto simp: list_all_iff)
  moreover have "itoa a @ '':'' @ itoa b \<notin> {[], ''.'', ''..''}"
    by (cases "itoa a"; cases "itoa b") auto
  ultimately show ?thesis using url_char_number by (simp add: plain_segment_def)
qed

lemma serve_wanted:
  assumes "db_rep (nd_db node) rlog" "IsEcho e" "plain_segment e" "in64 limit" "0 \<le> limit"
  shows "serve order host node (host @ ''/u/e/'' @ ue_path e limit) = Reply (print_lines (e # wanted rlog e limit)) True"
proof -
  let ?ws = "if limit > 0 then [e, itoa (- limit) @ '':'' @ itoa limit] else [e]"
  have path: "ue_path e limit = Join ''/'' ?ws" by (simp add: ue_path_def)
  have ok: "plain_path (ue_path e limit)" "Split (CHR ''/'') (ue_path e limit) = ?ws"
    using plain_path_Join [of ?ws] assms(3) plain_itoa [of "- limit" limit] unfolding path by auto
  have colon: "CHR '':'' \<notin> set e" using assms(2) by (auto simp: IsEcho_def Let_def)
  have scan: "sscan_dd (last ?ws) = (if limit > 0 then (Some (- limit), Some limit) else (fst (sscan_dd e), None))"
    using sscan_dd_pair [of "- limit" limit] sscan_dd_no_colon [OF colon] assms(4)
    by (cases "sscan_dd e") (auto simp: in_range_def)
  have q: "nil_query\<lparr>q_Echo := e, q_Start := a, q_Lim := b, q_User := nil_user\<rparr> =
      nil_query\<lparr>q_Echo := e, q_Start := a, q_Lim := b\<rparr>" for a b
    by (simp add: nil_query_def)
  have one: "snd (ue_echoes (nd_db node) nil_user a b [e]) =
      Inr (print_lines (e # log_slice rlog (nil_query\<lparr>q_Echo := e, q_Start := a, q_Lim := b\<rparr>)))" for a b
    using ue_echoes_log [OF assms(1), of nil_user a b "[e]"] assms(2) by (auto simp: q simp del: ue_echoes.simps)
  have "snd (handle_ue (ue_path e limit) (nd_db node)) = Inr (print_lines (e # wanted rlog e limit))"
    using scan assms(5) one by (auto simp: handle_ue_def get_ue_def ok(2) wanted_def split: option.split)
  then show ?thesis using serve_ue [OF ok(1)] by simp
qed

section \<open>What the client makes of it\<close>

lemma fold_new_ids:
  assumes "db_rep db log" "\<forall>i\<in>set ids. CHR ''.'' \<notin> set i"
  shows "\<exists>db'. fold new_ids ids (db, res) = (db', res @ filter (\<lambda>i. \<not> spec_exists log i) ids) \<and> db_rep db' log"
  using assms
proof (induction ids arbitrary: db res)
  case (Cons i ids)
  obtain d mi where d: "Exists db i = (d, mi)" by fastforce
  have e: "db_rep d log" "mi \<noteq> None \<longleftrightarrow> spec_exists log i"
    using Exists_rep [OF Cons.prems(1), of i] d db_loaded_rep by auto
  have "new_ids i (db, res) = (d, if spec_exists log i then res else res @ [i])"
    using Cons.prems(2) d e(2) by (auto simp: new_ids_def)
  moreover obtain db' where "fold new_ids ids (d, if spec_exists log i then res else res @ [i]) =
      (db', (if spec_exists log i then res else res @ [i]) @ filter (\<lambda>i. \<not> spec_exists log i) ids)" "db_rep db' log"
    using Cons.IH [OF e(1)] Cons.prems(2) by fastforce
  ultimately show ?case by simp
qed simp

lemma um_request_path:
  assumes "b \<noteq> []"
  shows "um_request host b = host @ ''/u/m/'' @ Join ''/'' b"
proof -
  have "concat (map (\<lambda>i. ''/'' @ i) b) = ''/'' @ Join ''/'' b"
    using assms by (induction b rule: list_nonempty_induct) (simp_all add: Join_Cons)
  then show ?thesis by (simp add: um_request_def)
qed

lemma shown_bundles_lines:
  "shown_bundles log may ids =
     print_lines (map msg_line (filter may (List.map_filter (spec_get log) ids)))"
  by (induction ids) (auto simp: shown_bundles_def print_lines_def List.map_filter_simps split: option.split)

lemma handle_um_log:
  "db_rep db log \<Longrightarrow> snd (handle_um p db) = shown_bundles log (\<lambda>m. \<not> IsPrivate (m_Echo m)) (Split (CHR ''/'') p)"
  using um_ids_log [of db log "\<lambda>info. \<not> IsPrivate (mi_Echo info)" "\<lambda>m. \<not> IsPrivate (m_Echo m)"
      "Split (CHR ''/'') p"]
  by (auto simp: handle_um_def)

lemma db_rep_storable: "db_rep db log \<Longrightarrow> m \<in> set log \<Longrightarrow> storable m"
  by (simp add: db_rep_def)

lemma shown_lines_read:
  assumes "db_rep db log"
  shows "reply_lines (shown_bundles log may ids) True = map msg_line (filter may (List.map_filter (spec_get log) ids))"
proof -
  have "m \<in> set log" if "m \<in> set (List.map_filter (spec_get log) ids)" for m
    using that spec_get_mem by (fastforce simp: map_filter_def)
  then have "\<forall>l\<in>set (map msg_line (filter may (List.map_filter (spec_get log) ids))). NL \<notin> set l"
    using db_rep_storable [OF assms] msg_line_no_NL by auto
  then show ?thesis unfolding shown_bundles_lines by (rule reply_lines_print)
qed

lemma fetched_serve:
  assumes "db_rep (nd_db node) rlog"
  shows "fetched (serve order host node) host now \<subseteq>
    {filled now m |m. spec_get rlog (m_MsgId m) = Some m}"
proof
  fix x assume "x \<in> fetched (serve order host node) host now"
  then obtain req body ok b m where x: "x = filled now m"
      "serve order host node (host @ ''/u/m'' @ req) = Reply body ok" "b \<in> set (reply_lines body ok)"
      "DecodeBundle b = Inr m"
    unfolding fetched_def by blast
  obtain p where "body = shown_bundles rlog (\<lambda>m. \<not> IsPrivate (m_Echo m)) (Split (CHR ''/'') p)" "ok"
    using serve_um_only [OF x(2)] handle_um_log [OF assms] x(2) by (auto simp: serve_def Let_def split: if_splits sum.splits)
  then obtain i m' where m': "b = msg_line m'" "spec_get rlog i = Some m'"
    using x(3) shown_lines_read [OF assms] by (auto simp: map_filter_def)
  then have "DecodeBundle b = Inr m'"
    using spec_get_mem [OF m'(2)] db_rep_storable [OF assms] DecodeBundle_msg_line by blast
  then show "x \<in> {filled now m |m. spec_get rlog (m_MsgId m) = Some m}"
    using x(1,4) m'(2) spec_get_mem [OF m'(2)] by auto
qed

text \<open>What is enough for the remote node to be a good one.\<close>

lemma distinct_sum_le:
  fixes f :: "'a \<Rightarrow> nat"
  assumes "distinct xs" "set xs \<subseteq> set ys"
  shows "sum_list (map f xs) \<le> sum_list (map f ys)"
proof -
  have "sum_list (map f xs) = sum f (set xs)" using assms(1) by (simp add: sum_list_distinct_conv_sum_set)
  also have "\<dots> \<le> sum f (set (remdups ys))" using assms(2) by (intro sum_mono2) auto
  also have "\<dots> = sum_list (map f (remdups ys))" by (simp add: sum_list_distinct_conv_sum_set)
  also have "\<dots> \<le> sum_list (map f ys)" by (induction ys) auto
  finally show ?thesis .
qed

lemma length_bundle_sum: "length (bundle_text log) = sum_list (map (\<lambda>m. length (msg_line m) + 1) log)"
  by (induction log) (auto simp: length_bundle_text_Cons simp del: bundle_text_simps(2))

lemma serve_good:
  assumes "db_rep (nd_db node) rlog" "in64 now"
    and "int (length (bundle_text log) + length (bundle_text (map (filled now) rlog))) < 2 ^ 63"
  shows "good_remote (serve order host node) host now log"
  unfolding good_remote_def
proof (intro conjI ballI allI impI)
  fix m assume "m \<in> fetched (serve order host node) host now"
  then obtain m' where m': "m = filled now m'" "m' \<in> set rlog"
    using fetched_serve [OF assms(1)] spec_get_mem by blast
  then have "storable m'" using db_rep_storable [OF assms(1)] by blast
  then show "indexable m"
    using m'(1) by (auto simp: storable_def indexable_def filled_def stamped_def Let_def Msg_tag_val_def Msg_Tag_def)
next
  fix ms assume ms: "new_only log ms \<and> set ms \<subseteq> fetched (serve order host node) host now"
  have "fetched (serve order host node) host now \<subseteq> filled now ` set rlog"
    using fetched_serve [OF assms(1), of order host now] spec_get_mem by blast
  then have "set ms \<subseteq> set (map (filled now) rlog)" using ms unfolding set_map by blast
  moreover have "distinct ms" using ms by (auto simp: new_only_def distinct_map)
  ultimately have "length (bundle_text ms) \<le> length (bundle_text (map (filled now) rlog))"
    unfolding length_bundle_sum by (intro distinct_sum_le)
  then show "int (length (bundle_text (log @ ms))) < 2 ^ 63" using assms(3) by simp
qed (rule assms(2))

text \<open>An id a fetch may ask for: it can stand in a path, and the other node shows its message to all.\<close>

definition open_id :: "Msg list \<Rightarrow> string \<Rightarrow> bool" where
  "open_id rlog i = (plain_segment i \<and> (\<exists>m. spec_get rlog i = Some m \<and> \<not> IsPrivate (m_Echo m)))"

text \<open>The answer to a batch of such ids holds them all.\<close>

lemma batch_reply:
  assumes rep: "db_rep (nd_db node) rlog" and b: "b \<noteq> []" "\<forall>i\<in>set b. open_id rlog i"
  obtains body where "serve order host node (um_request host b) = Reply body True"
    "set b \<subseteq> line_ids (reply_lines body True)"
proof -
  let ?p = "Join ''/'' b" and ?body = "shown_bundles rlog (\<lambda>m. \<not> IsPrivate (m_Echo m)) b"
  have p: "plain_path ?p" "Split (CHR ''/'') ?p = b" using plain_path_Join [OF b(1)] b(2) by (auto simp: open_id_def)
  have "serve order host node (um_request host b) = Reply ?body True"
    using serve_um [OF p(1), of order host node] handle_um_log [OF rep, of ?p] p(2)
    by (simp add: um_request_path [OF b(1)])
  moreover have "set b \<subseteq> line_ids (reply_lines ?body True)"
  proof
    fix i assume i: "i \<in> set b"
    then obtain m where m: "spec_get rlog i = Some m" "\<not> IsPrivate (m_Echo m)" using b(2) by (auto simp: open_id_def)
    then have "DecodeBundle (msg_line m) = Inr m" "m_MsgId m = i"
      using spec_get_mem [OF m(1)] db_rep_storable [OF rep] DecodeBundle_msg_line by blast+
    moreover have "msg_line m \<in> set (reply_lines ?body True)"
      using m i unfolding shown_lines_read [OF rep] by (force simp: map_filter_def)
    ultimately show "i \<in> line_ids (reply_lines ?body True)" unfolding line_ids_def by blast
  qed
  ultimately show ?thesis by (rule that)
qed

lemma batch_arrives:
  assumes rep: "db_rep (nd_db node) rlog" and good: "good_remote (serve order host node) host now log"
    and b: "b \<noteq> []" "\<forall>i\<in>set b. open_id rlog i"
    and ext: "extends (serve order host node) host now log S db"
  shows "\<exists>db'. http_req_lines (serve order host node) (um_request host b) (store_line now) db = (db', None) \<and>
    extends (serve order host node) host now log (S \<union> set b) db'"
proof -
  let ?get = "serve order host node"
  obtain body where r: "?get (um_request host b) = Reply body True" "set b \<subseteq> line_ids (reply_lines body True)"
    using batch_reply [OF rep b] .
  let ?ls = "reply_lines body True"
  have reply: "?get (host @ ''/u/m'' @ ''/'' @ Join ''/'' b) = Reply body True"
    using r(1) by (simp add: um_request_path [OF b(1)])
  have "extends ?get host now log (S \<union> line_ids ?ls) (fold (store_line now) ?ls db)"
    by (rule fold_store_extends [OF good reply ext subset_refl])
  then have "extends ?get host now log (S \<union> set b) (fold (store_line now) ?ls db)"
    using r(2) by (auto intro: extends_mono)
  then show ?thesis using r(1) by (simp add: http_req_lines_def)
qed

lemma batches_arrive:
  assumes rep: "db_rep (nd_db node) rlog" and good: "good_remote (serve order host node) host now log"
  shows "\<forall>b\<in>set bs. b \<noteq> [] \<and> (\<forall>i\<in>set b. open_id rlog i) \<Longrightarrow>
    extends (serve order host node) host now log S db \<Longrightarrow>
    extends (serve order host node) host now log (S \<union> set (concat bs))
      (fst (run_batches (serve order host node) now host bs db))"
proof (induction bs arbitrary: S db)
  case (Cons b bs)
  obtain db' where "http_req_lines (serve order host node) (um_request host b) (store_line now) db = (db', None)"
      "extends (serve order host node) host now log (S \<union> set b) db'"
    using batch_arrives [OF rep good _ _ Cons.prems(2), of b] Cons.prems(1) by auto
  then show ?case using Cons.IH [of "S \<union> set b" db'] Cons.prems(1) by (simp add: Un_assoc)
qed simp

section \<open>A fetch mirrors the area\<close>

lemma wanted_open:
  assumes rep: "db_rep (nd_db node) rlog" and ids: "\<forall>m\<in>set rlog. plain_segment (m_MsgId m)"
    and e: "plain_segment e" and i: "i \<in> set (wanted rlog e limit)"
  shows "open_id rlog i \<and> CHR ''.'' \<notin> set i \<and> NL \<notin> set i"
proof -
  have "e \<noteq> []" using e by (simp add: plain_segment_def)
  from wanted_shown [OF i this] obtain m
    where m: "spec_get rlog i = Some m" "m_MsgId m = i" "\<not> IsPrivate (m_Echo m)" by blast
  then have mem: "m \<in> set rlog" using spec_get_mem by blast
  then have "plain_segment i" "IsMsgId i" using ids m(2) db_rep_storable [OF rep mem] storable_id by auto
  then show ?thesis using m(1,3) plain_segment_no_slash [of i] by (auto simp: IsMsgId_def open_id_def)
qed

text \<open>The lines of the answer to the first request of a fetch.\<close>

lemma wanted_lines:
  assumes "db_rep (nd_db node) rlog" "\<forall>m\<in>set rlog. plain_segment (m_MsgId m)" "plain_segment e"
  shows "reply_lines (print_lines (e # wanted rlog e limit)) True = e # wanted rlog e limit"
  using wanted_open [OF assms] plain_segment_no_slash [OF assms(3)] by (intro reply_lines_print) auto

lemma ue_path_request:
  "(let req = host @ ''/u/e/'' @ e in if limit > 0 then req @ ''/'' @ itoa (- limit) @ '':'' @ itoa limit else req) =
   host @ ''/u/e/'' @ ue_path e limit"
  by (simp add: ue_path_def Let_def)

lemma fetch_area_wanted:
  assumes rep: "db_rep (nd_db node) rlog" and good: "good_remote (serve order (rm_Host n) node) (rm_Host n) now log"
    and e: "IsEcho e" "plain_segment e" and lim: "in64 limit" "0 \<le> limit"
    and ids: "\<forall>m\<in>set rlog. plain_segment (m_MsgId m)" and db: "db_rep db log"
  shows "extends (serve order (rm_Host n) node) (rm_Host n) now log
      (set (filter (\<lambda>i. \<not> spec_exists log i) (wanted rlog e limit)))
      (fetch_area (serve order (rm_Host n) node) now n db e limit) \<and>
    (set (wanted rlog e limit) \<subseteq> m_MsgId ` set log \<longrightarrow>
      db_rep (fetch_area (serve order (rm_Host n) node) now n db e limit) log)"
proof -
  let ?get = "serve order (rm_Host n) node" and ?w = "wanted rlog e limit"
  let ?new = "filter (\<lambda>i. \<not> spec_exists log i) ?w"
  note shown = wanted_open [OF rep ids e(2)]
  have "CHR ''.'' \<in> set e" using e(1) by (auto simp: IsEcho_def Let_def)
  moreover obtain d where d: "fold new_ids ?w (db, []) = (d, ?new)" "db_rep d log"
    using fold_new_ids [OF db, of ?w "[]"] shown by auto
  ultimately have r: "http_req_lines ?get (rm_Host n @ ''/u/e/'' @ ue_path e limit) new_ids (db, []) = ((d, ?new), None)"
    using serve_wanted [OF rep e lim, of order "rm_Host n"] wanted_lines [OF rep ids e(2), of limit]
    by (simp add: http_req_lines_def new_ids_def)
  have path: "(if limit > 0 then (rm_Host n @ ''/u/e/'' @ e) @ ''/'' @ itoa (- limit) @ '':'' @ itoa limit
      else rm_Host n @ ''/u/e/'' @ e) = rm_Host n @ ''/u/e/'' @ ue_path e limit"
    by (rule ue_path_request [unfolded Let_def])
  have fa: "fetch_area ?get now n db e limit = fst (run_batches ?get now (rm_Host n) (batches ?new) d)"
    unfolding fetch_area_def Let_def path r by (simp add: Net_Store_def net_store_batches)
  have bs: "concat (batches ?new) = ?new" "\<forall>b\<in>set (batches ?new). b \<noteq> []"
    using concat_chunks [of ?new "length ?new"] chunks_size [of _ "length ?new" ?new] by (auto simp: batches_def)
  have "set b \<subseteq> set ?w" if "b \<in> set (batches ?new)" for b
  proof -
    have "set b \<subseteq> set (concat (batches ?new))" using that by auto
    then show ?thesis unfolding bs(1) by auto
  qed
  then have "\<forall>b\<in>set (batches ?new). b \<noteq> [] \<and> (\<forall>i\<in>set b. open_id rlog i)"
    using shown bs(2) by blast
  from batches_arrive [OF rep good this extends_start [OF d(2)]]
  have "extends ?get (rm_Host n) now log (set ?new) (fetch_area ?get now n db e limit)"
    unfolding fa bs(1) by simp
  moreover have "?new = []" if "set ?w \<subseteq> m_MsgId ` set log"
    using that by (auto simp: filter_empty_conv spec_exists_def)
  then have "db_rep (fetch_area ?get now n db e limit) log" if "set ?w \<subseteq> m_MsgId ` set log"
    using that d(2) unfolding fa by (simp add: batches_def)
  ultimately show ?thesis by blast
qed

lemma Fetch_one: "IsEcho e \<Longrightarrow> Fetch get now n db [e] limit = Fetcher get now n db e limit"
  by (simp add: Fetch_def)

lemma Fetcher_area:
  "0 \<le> limit \<Longrightarrow> rm_Force n \<or> \<not> IsFeature n ''u/e'' \<Longrightarrow>
   Fetcher get now n db e limit = fetch_area get now n db e (if IsFeature n ''u/e'' then limit else 0)"
  by (auto simp: Fetcher_def sync_needed_def)

lemma sync_needed_rep:
  assumes "db_rep db log" "sync_needed get n e db = (d, b)"
  shows "db_rep d log"
proof -
  have "db_rep (fst (Exists db mid)) log" for mid
    using Exists_rep [OF assms(1), of mid] db_loaded_rep by blast
  then show ?thesis using assms by (auto simp: sync_needed_def split: if_splits sum.splits prod.splits) (metis fst_conv)+
qed

end
