(* ===== verification/II_Lock.thy ===== *)
theory II_Lock
  imports Go_Prelude
begin

text \<open>
  The lock file of a message base (\<^verbatim>\<open>Lock\<close> and \<^verbatim>\<open>Unlock\<close> in \<^verbatim>\<open>ii/db.go\<close>): a directory
  made by \<^verbatim>\<open>mkdir\<close>, so that two processes do not work on the files at once, with a depth that counts
  the calls within a process. The threads of a process are kept apart by the mutex \<^verbatim>\<open>db.Sync\<close>, which
  writers take alone and readers share; the operations take it before the lock file and release it after.
  The steps are those another thread can observe: taking the mutex with the increment of the depth, one
  call of \<^verbatim>\<open>mkdir\<close>, the decrement of the depth, removing the directory with the release of the mutex.
\<close>

section \<open>States and steps\<close>

datatype mode = Reader | Writer

text \<open>A thread is outside, trying with a number of tries left, inside, or about to remove the directory.\<close>

datatype pc = Out | Trying mode nat | Inside mode | Removing mode

fun pc_mode :: "pc \<Rightarrow> mode option" where
  "pc_mode Out = None"
| "pc_mode (Trying m n) = Some m"
| "pc_mode (Inside m) = Some m"
| "pc_mode (Removing m) = Some m"

definition is_trying :: "pc \<Rightarrow> bool" where "is_trying c = (case c of Trying _ _ \<Rightarrow> True | _ \<Rightarrow> False)"
definition is_inside :: "pc \<Rightarrow> bool" where "is_inside c = (case c of Inside _ \<Rightarrow> True | _ \<Rightarrow> False)"
definition is_removing :: "pc \<Rightarrow> bool" where "is_removing c = (case c of Removing _ \<Rightarrow> True | _ \<Rightarrow> False)"

lemmas pc_tests = is_trying_def is_inside_def is_removing_def

record locks =
  lk_dir :: bool
  lk_depth :: "nat \<Rightarrow> int"
  lk_pc :: "nat \<Rightarrow> nat \<Rightarrow> pc"

definition no_locks :: locks where
  "no_locks = \<lparr>lk_dir = False, lk_depth = (\<lambda>_. 0), lk_pc = (\<lambda>_ _. Out)\<rparr>"

definition set_pc :: "nat \<Rightarrow> nat \<Rightarrow> pc \<Rightarrow> locks \<Rightarrow> locks" where
  "set_pc p t c s = s\<lparr>lk_pc := (lk_pc s)(p := (lk_pc s p)(t := c))\<rparr>"

definition set_depth :: "nat \<Rightarrow> int \<Rightarrow> locks \<Rightarrow> locks" where
  "set_depth p d s = s\<lparr>lk_depth := (lk_depth s)(p := d)\<rparr>"

text \<open>The mutex admits a writer when the process is idle, a reader when no writer is in.\<close>

definition admits :: "locks \<Rightarrow> nat \<Rightarrow> mode \<Rightarrow> bool" where
  "admits s p m = (\<forall>u. lk_pc s p u = Out \<or> m = Reader \<and> pc_mode (lk_pc s p u) = Some Reader)"

text \<open>
  The label says whether the step is the one that gives up after 16 tries: \<^verbatim>\<open>Lock\<close> returns
  \<open>False\<close>, which no caller looks at.
\<close>

inductive lock_step :: "bool \<Rightarrow> locks \<Rightarrow> locks \<Rightarrow> bool" where
  enter_first: "lk_pc s p t = Out \<Longrightarrow> admits s p m \<Longrightarrow> lk_depth s p + 1 \<le> 1 \<Longrightarrow>
    lock_step False s (set_pc p t (Trying m 16) (set_depth p (lk_depth s p + 1) s))"
| enter_again: "lk_pc s p t = Out \<Longrightarrow> admits s p m \<Longrightarrow> lk_depth s p + 1 > 1 \<Longrightarrow>
    lock_step False s (set_pc p t (Inside m) (set_depth p (lk_depth s p + 1) s))"
| mkdir_made: "lk_pc s p t = Trying m (Suc n) \<Longrightarrow> \<not> lk_dir s \<Longrightarrow>
    lock_step False s (set_pc p t (Inside m) (s\<lparr>lk_dir := True\<rparr>))"
| mkdir_exists: "lk_pc s p t = Trying m (Suc n) \<Longrightarrow> lk_dir s \<Longrightarrow>
    lock_step False s (set_pc p t (Trying m n) s)"
| give_up: "lk_pc s p t = Trying m 0 \<Longrightarrow> lock_step True s (set_pc p t (Inside m) s)"
| leave_again: "lk_pc s p t = Inside m \<Longrightarrow> lk_depth s p - 1 > 0 \<Longrightarrow>
    lock_step False s (set_pc p t Out (set_depth p (lk_depth s p - 1) s))"
| leave_last: "lk_pc s p t = Inside m \<Longrightarrow> lk_depth s p - 1 \<le> 0 \<Longrightarrow>
    lock_step False s (set_pc p t (Removing m) (set_depth p (lk_depth s p - 1) s))"
| rmdir: "lk_pc s p t = Removing m \<Longrightarrow> lock_step False s (set_pc p t Out (s\<lparr>lk_dir := False\<rparr>))"

inductive_cases gives_upE: "lock_step True s s'"
inductive_simps gives_up_iff: "lock_step True s s'"

text \<open>The states reached, without a step that gives up or with such steps.\<close>

inductive lock_reach :: "bool \<Rightarrow> locks \<Rightarrow> bool" for gave where
  idle: "lock_reach gave no_locks"
| step: "lock_reach gave s \<Longrightarrow> lock_step g s s' \<Longrightarrow> (g \<Longrightarrow> gave) \<Longrightarrow> lock_reach gave s'"

lemma set_pc_sel [simp]:
  "lk_pc (set_pc p t c s) p' t' = (if p' = p \<and> t' = t then c else lk_pc s p' t')"
  "lk_dir (set_pc p t c s) = lk_dir s" "lk_depth (set_pc p t c s) = lk_depth s"
  by (simp_all add: set_pc_def)

lemma set_depth_sel [simp]:
  "lk_pc (set_depth p d s) = lk_pc s" "lk_dir (set_depth p d s) = lk_dir s"
  "lk_depth (set_depth p d s) p' = (if p' = p then d else lk_depth s p')"
  by (simp_all add: set_depth_def)

section \<open>The invariant\<close>

text \<open>
  The depth of a process counts its threads that try or are inside. It has the directory if one of them
  is about to remove it, or if some are inside and none is trying: threads that come in while another
  one tries are let in by the depth alone.
\<close>

definition at_lock :: "(nat \<Rightarrow> pc) \<Rightarrow> nat set" where
  "at_lock f = {t. is_trying (f t) \<or> is_inside (f t)}"

definition has_dir :: "(nat \<Rightarrow> pc) \<Rightarrow> bool" where
  "has_dir f = ((\<exists>t. is_removing (f t)) \<or> (\<exists>t. is_inside (f t)) \<and> \<not> (\<exists>t. is_trying (f t)))"

definition count_ok :: "(nat \<Rightarrow> pc) \<Rightarrow> int \<Rightarrow> bool" where
  "count_ok f d = (finite (at_lock f) \<and> d = int (card (at_lock f)))"

definition orderly :: "(nat \<Rightarrow> pc) \<Rightarrow> bool" where
  "orderly f =
     ((\<forall>t u. is_trying (f t) \<longrightarrow> is_trying (f u) \<longrightarrow> t = u) \<and>
      (\<forall>t u. is_removing (f t) \<longrightarrow> is_removing (f u) \<longrightarrow> t = u) \<and>
      (\<forall>t u. is_removing (f t) \<longrightarrow> is_inside (f u) \<longrightarrow> (\<exists>v. is_trying (f v))) \<and>
      (\<forall>t u. pc_mode (f t) = Some Writer \<longrightarrow> f u \<noteq> Out \<longrightarrow> u = t))"

definition lock_inv :: "locks \<Rightarrow> bool" where
  "lock_inv s =
     ((\<forall>p. count_ok (lk_pc s p) (lk_depth s p) \<and> orderly (lk_pc s p)) \<and> (\<forall>p. has_dir (lk_pc s p) \<longrightarrow> lk_dir s) \<and>
      (\<forall>p q. has_dir (lk_pc s p) \<longrightarrow> has_dir (lk_pc s q) \<longrightarrow> p = q))"

lemma pc_test_simps [simp]:
  "is_trying Out = False" "is_trying (Trying m n) = True" "is_trying (Inside m) = False" "is_trying (Removing m) = False"
  "is_inside Out = False" "is_inside (Trying m n) = False" "is_inside (Inside m) = True" "is_inside (Removing m) = False"
  "is_removing Out = False" "is_removing (Trying m n) = False" "is_removing (Inside m) = False"
  "is_removing (Removing m) = True"
  by (simp_all add: pc_tests)

lemma pc_test_disjoint:
  "is_trying c \<Longrightarrow> \<not> is_inside c \<and> \<not> is_removing c \<and> c \<noteq> Out"
  "is_inside c \<Longrightarrow> \<not> is_trying c \<and> \<not> is_removing c \<and> c \<noteq> Out"
  "is_removing c \<Longrightarrow> \<not> is_inside c \<and> \<not> is_trying c \<and> c \<noteq> Out"
  by (cases c; simp)+

lemma at_lock_upd:
  "at_lock (f(t := c)) = (if is_trying c \<or> is_inside c then insert t (at_lock f) else at_lock f - {t})"
  by (auto simp: at_lock_def)

text \<open>Whether some thread passes a test, before and after a step of the thread \<open>t\<close>.\<close>

lemma ex_upd: "(\<exists>u. P ((f(t := c)) u)) \<longleftrightarrow> P c \<or> (\<exists>u. u \<noteq> t \<and> P (f u))"
  by (auto simp: fun_upd_apply)

lemma ex_other: "(\<exists>u. P (f u)) \<longleftrightarrow> P (f t) \<or> (\<exists>u. u \<noteq> t \<and> P (f u))"
  by metis

lemma has_dir_upd:
  "has_dir (f(t := c)) \<longleftrightarrow> is_removing c \<or> (\<exists>u. u \<noteq> t \<and> is_removing (f u)) \<or>
     (is_inside c \<or> (\<exists>u. u \<noteq> t \<and> is_inside (f u))) \<and> \<not> is_trying c \<and> \<not> (\<exists>u. u \<noteq> t \<and> is_trying (f u))"
  unfolding has_dir_def ex_upd by blast

lemma has_dir_other:
  "has_dir f \<longleftrightarrow> is_removing (f t) \<or> (\<exists>u. u \<noteq> t \<and> is_removing (f u)) \<or>
     (is_inside (f t) \<or> (\<exists>u. u \<noteq> t \<and> is_inside (f u))) \<and> \<not> is_trying (f t) \<and> \<not> (\<exists>u. u \<noteq> t \<and> is_trying (f u))"
  unfolding has_dir_def using ex_other [of is_removing f t] ex_other [of is_inside f t] ex_other [of is_trying f t] by blast

lemma at_lock_step:
  assumes "count_ok f d"
  shows "t \<notin> at_lock f \<Longrightarrow> is_trying c \<or> is_inside c \<Longrightarrow> count_ok (f(t := c)) (d + 1)"
    and "t \<in> at_lock f \<Longrightarrow> is_trying c \<or> is_inside c \<Longrightarrow> count_ok (f(t := c)) d"
    and "t \<in> at_lock f \<Longrightarrow> \<not> is_trying c \<Longrightarrow> \<not> is_inside c \<Longrightarrow> count_ok (f(t := c)) (d - 1)"
    and "t \<notin> at_lock f \<Longrightarrow> \<not> is_trying c \<Longrightarrow> \<not> is_inside c \<Longrightarrow> count_ok (f(t := c)) d"
proof -
  have f: "finite (at_lock f)" "d = int (card (at_lock f))" using assms by (auto simp: count_ok_def)
  show "t \<notin> at_lock f \<Longrightarrow> is_trying c \<or> is_inside c \<Longrightarrow> count_ok (f(t := c)) (d + 1)"
    using f by (auto simp: count_ok_def at_lock_upd)
  show "t \<in> at_lock f \<Longrightarrow> is_trying c \<or> is_inside c \<Longrightarrow> count_ok (f(t := c)) d"
    using f by (auto simp: count_ok_def at_lock_upd insert_absorb)
  show "t \<notin> at_lock f \<Longrightarrow> \<not> is_trying c \<Longrightarrow> \<not> is_inside c \<Longrightarrow> count_ok (f(t := c)) d"
    using f by (simp add: count_ok_def at_lock_upd)
  assume t: "t \<in> at_lock f" "\<not> is_trying c" "\<not> is_inside c"
  then have "card (at_lock f) > 0" using f(1) by (auto simp: card_gt_0_iff)
  then show "count_ok (f(t := c)) (d - 1)" using f t by (simp add: count_ok_def at_lock_upd card_Diff_singleton)
qed

lemma orderlyD:
  assumes "orderly f"
  shows "is_trying (f t) \<Longrightarrow> is_trying (f u) \<Longrightarrow> t = u"
    and "is_removing (f t) \<Longrightarrow> is_removing (f u) \<Longrightarrow> t = u"
    and "is_removing (f t) \<Longrightarrow> is_inside (f u) \<Longrightarrow> \<exists>v. is_trying (f v)"
    and "pc_mode (f t) = Some Writer \<Longrightarrow> f u \<noteq> Out \<Longrightarrow> u = t"
  using assms unfolding orderly_def by blast+

lemma orderly_upd:
  assumes "orderly f"
    and "is_trying c \<Longrightarrow> \<forall>u. u \<noteq> t \<longrightarrow> \<not> is_trying (f u)"
    and "is_removing c \<Longrightarrow> \<forall>u. u \<noteq> t \<longrightarrow> \<not> is_removing (f u)"
    and "\<And>r u. is_removing ((f(t := c)) r) \<Longrightarrow> is_inside ((f(t := c)) u) \<Longrightarrow>
      is_trying c \<or> (\<exists>v. v \<noteq> t \<and> is_trying (f v))"
    and "c \<noteq> Out \<Longrightarrow> \<forall>u. u \<noteq> t \<longrightarrow> pc_mode (f u) \<noteq> Some Writer"
    and "pc_mode c = Some Writer \<Longrightarrow> \<forall>u. u \<noteq> t \<longrightarrow> f u = Out"
  shows "orderly (f(t := c))"
proof -
  have "t' = u" if "is_trying ((f(t := c)) t')" "is_trying ((f(t := c)) u)" for t' u
  proof (cases "t' = t \<or> u = t")
    case True
    then have "is_trying c" using that by auto
    then show ?thesis using assms(2) that True by (metis fun_upd_apply)
  qed (use that orderlyD(1) [OF assms(1)] in auto)
  moreover have "t' = u" if "is_removing ((f(t := c)) t')" "is_removing ((f(t := c)) u)" for t' u
  proof (cases "t' = t \<or> u = t")
    case True
    then have "is_removing c" using that by auto
    then show ?thesis using assms(3) that True by (metis fun_upd_apply)
  qed (use that orderlyD(2) [OF assms(1)] in auto)
  moreover have "\<exists>v. is_trying ((f(t := c)) v)" if "is_removing ((f(t := c)) r)" "is_inside ((f(t := c)) u)" for r u
    unfolding ex_upd using assms(4) [OF that] .
  moreover have "u = t'" if "pc_mode ((f(t := c)) t') = Some Writer" "(f(t := c)) u \<noteq> Out" for t' u
  proof (cases "t' = t")
    case True
    then have "pc_mode c = Some Writer" using that(1) by simp
    then show ?thesis using assms(6) that(2) True by (metis fun_upd_apply)
  next
    case False
    then have w: "pc_mode (f t') = Some Writer" using that(1) by simp
    then have "c = Out" using assms(5) False by blast
    then have "u \<noteq> t" using that(2) by auto
    then show ?thesis using orderlyD(4) [OF assms(1) w] that(2) by simp
  qed
  ultimately show ?thesis unfolding orderly_def by blast
qed

lemma admits_writer:
  assumes "\<forall>u. f u = Out \<or> m = Reader \<and> pc_mode (f u) = Some Reader"
  shows "pc_mode (f u) \<noteq> Some Writer" and "m = Writer \<Longrightarrow> f u = Out"
  using assms [rule_format, of u] by auto

lemma count_ok_none: "count_ok f d \<Longrightarrow> d \<le> 0 \<Longrightarrow> \<not> is_trying (f t) \<and> \<not> is_inside (f t)"
  by (auto simp: count_ok_def at_lock_def)

lemma count_ok_some: "count_ok f d \<Longrightarrow> 0 < d \<Longrightarrow> \<exists>u. is_trying (f u) \<or> is_inside (f u)"
  by (auto simp: count_ok_def at_lock_def dest: card_gt_0_iff [THEN iffD1])

lemma count_ok_other:
  assumes "count_ok f d" "1 < d" "is_trying (f t) \<or> is_inside (f t)"
  shows "\<exists>u. u \<noteq> t \<and> (is_trying (f u) \<or> is_inside (f u))"
proof (rule ccontr)
  assume "\<not> ?thesis"
  then have "at_lock f \<subseteq> {t}" by (auto simp: at_lock_def)
  then have "card (at_lock f) \<le> 1" using card_mono [of "{t}" "at_lock f"] by simp
  then show False using assms(1,2) by (simp add: count_ok_def)
qed

lemma count_ok_last:
  assumes "count_ok f d" "d \<le> 1" "is_trying (f t) \<or> is_inside (f t)" "u \<noteq> t"
  shows "\<not> is_trying (f u) \<and> \<not> is_inside (f u)"
proof (rule ccontr)
  assume "\<not> ?thesis"
  then have "{t, u} \<subseteq> at_lock f" using assms(3) by (auto simp: at_lock_def)
  then have "card {t, u} \<le> card (at_lock f)" using assms(1) by (intro card_mono) (auto simp: count_ok_def)
  then show False using assms(1,2,4) by (simp add: count_ok_def)
qed

section \<open>Every patient step keeps it\<close>

lemma orderly_enter_first:
  assumes "orderly f" "f t = Out" "\<And>u. \<not> is_trying (f u) \<and> \<not> is_inside (f u)"
    and "\<forall>u. f u = Out \<or> m = Reader \<and> pc_mode (f u) = Some Reader"
  shows "orderly (f(t := Trying m n)) \<and> has_dir (f(t := Trying m n)) = has_dir f"
proof
  show "orderly (f(t := Trying m n))"
    using assms(3) admits_writer [OF assms(4)] by (intro orderly_upd [OF assms(1)]) auto
  show "has_dir (f(t := Trying m n)) = has_dir f"
    using assms(2,3) by (simp add: has_dir_upd has_dir_other [of f t])
qed

lemma orderly_enter_again:
  assumes "orderly f" "f t = Out" "v \<noteq> t" "is_trying (f v) \<or> is_inside (f v)"
    and "\<forall>u. f u = Out \<or> m = Reader \<and> pc_mode (f u) = Some Reader"
  shows "orderly (f(t := Inside m)) \<and> has_dir (f(t := Inside m)) = has_dir f"
proof
  have t: "\<exists>u. u \<noteq> t \<and> is_trying (f u)" if "is_removing (f r)" for r
  proof (cases "is_trying (f v)")
    case False
    have "\<exists>w. is_trying (f w)" using orderlyD(3) [OF assms(1) that] assms(4) False by blast
    then obtain w where "is_trying (f w)" ..
    then show ?thesis using assms(2) by (cases "w = t") auto
  qed (use assms(3) in blast)
  show "orderly (f(t := Inside m))"
  proof (rule orderly_upd [OF assms(1)])
    fix r u assume "is_removing ((f(t := Inside m)) r)"
    then show "is_trying (Inside m) \<or> (\<exists>v. v \<noteq> t \<and> is_trying (f v))" using t by (auto split: if_splits)
  qed (use admits_writer [OF assms(5)] in auto)
  show "has_dir (f(t := Inside m)) = has_dir f"
    using assms(2-4) t by (auto simp: has_dir_upd has_dir_other [of f t])
qed

lemma orderly_try:
  assumes "orderly f" "f t = Trying m n"
  shows "orderly (f(t := Trying m k)) \<and> has_dir (f(t := Trying m k)) = has_dir f"
proof
  have m: "pc_mode (f t) = Some m" "is_trying (f t)" "f t \<noteq> Out" using assms(2) by simp_all
  show "orderly (f(t := Trying m k))"
  proof (rule orderly_upd [OF assms(1)])
    show "\<forall>u. u \<noteq> t \<longrightarrow> \<not> is_trying (f u)" using orderlyD(1) [OF assms(1)] m(2) by blast
    show "\<forall>u. u \<noteq> t \<longrightarrow> pc_mode (f u) \<noteq> Some Writer" using orderlyD(4) [OF assms(1)] m(3) by blast
    show "pc_mode (Trying m k) = Some Writer \<Longrightarrow> \<forall>u. u \<noteq> t \<longrightarrow> f u = Out"
      using orderlyD(4) [OF assms(1)] m(1) by auto
  qed simp_all
  show "has_dir (f(t := Trying m k)) = has_dir f" using assms(2) by (simp add: has_dir_upd has_dir_other [of f t])
qed

lemma orderly_made:
  assumes "orderly f" "f t = Trying m n" "\<not> has_dir f"
  shows "orderly (f(t := Inside m)) \<and> has_dir (f(t := Inside m))"
proof
  have m: "pc_mode (f t) = Some m" "is_trying (f t)" "f t \<noteq> Out" using assms(2) by simp_all
  have r: "\<not> is_removing (f u)" for u using assms(3) by (auto simp: has_dir_def)
  have o: "u \<noteq> t \<Longrightarrow> \<not> is_trying (f u)" for u using orderlyD(1) [OF assms(1)] m(2) by blast
  show "orderly (f(t := Inside m))"
  proof (rule orderly_upd [OF assms(1)])
    fix v u assume "is_removing ((f(t := Inside m)) v)"
    then show "is_trying (Inside m) \<or> (\<exists>v. v \<noteq> t \<and> is_trying (f v))" using r by (auto split: if_splits)
  next
    show "\<forall>u. u \<noteq> t \<longrightarrow> pc_mode (f u) \<noteq> Some Writer" using orderlyD(4) [OF assms(1)] m(3) by blast
    show "pc_mode (Inside m) = Some Writer \<Longrightarrow> \<forall>u. u \<noteq> t \<longrightarrow> f u = Out"
      using orderlyD(4) [OF assms(1)] m(1) by auto
  qed simp_all
  show "has_dir (f(t := Inside m))" using o by (auto simp: has_dir_upd)
qed

lemma orderly_leave_again:
  assumes "orderly f" "f t = Inside m" "v \<noteq> t" "is_trying (f v) \<or> is_inside (f v)"
  shows "orderly (f(t := Out)) \<and> (has_dir (f(t := Out)) \<longrightarrow> has_dir f)"
proof
  have t: "is_inside (f t)" "\<not> is_trying (f t)" using assms(2) by simp_all
  show "orderly (f(t := Out))"
  proof (rule orderly_upd [OF assms(1)])
    fix r u assume "is_removing ((f(t := Out)) r)"
    then have "is_removing (f r)" by (auto split: if_splits)
    then obtain w where "is_trying (f w)" using orderlyD(3) [OF assms(1)] t(1) by blast
    then show "is_trying Out \<or> (\<exists>v. v \<noteq> t \<and> is_trying (f v))" using t(2) by (cases "w = t") auto
  qed simp_all
  show "has_dir (f(t := Out)) \<longrightarrow> has_dir f" using assms(2) by (auto simp: has_dir_upd has_dir_other [of f t])
qed

lemma orderly_leave_last:
  assumes "orderly f" "f t = Inside m" "\<And>u. u \<noteq> t \<Longrightarrow> \<not> is_trying (f u) \<and> \<not> is_inside (f u)"
  shows "orderly (f(t := Removing m)) \<and> has_dir f"
proof
  have m: "pc_mode (f t) = Some m" "is_inside (f t)" "f t \<noteq> Out" "\<not> is_trying (f t)" using assms(2) by simp_all
  have nt: "\<not> is_trying (f u)" for u using assms(3) m(4) by (cases "u = t") auto
  then have r: "\<not> is_removing (f u)" for u using orderlyD(3) [OF assms(1) _ m(2)] by blast
  show "orderly (f(t := Removing m))"
  proof (rule orderly_upd [OF assms(1)])
    fix v u assume "is_inside ((f(t := Removing m)) u)"
    then show "is_trying (Removing m) \<or> (\<exists>v. v \<noteq> t \<and> is_trying (f v))" using assms(3) by (auto split: if_splits)
  next
    show "\<forall>u. u \<noteq> t \<longrightarrow> pc_mode (f u) \<noteq> Some Writer" using orderlyD(4) [OF assms(1)] m(3) by blast
    show "pc_mode (Removing m) = Some Writer \<Longrightarrow> \<forall>u. u \<noteq> t \<longrightarrow> f u = Out"
      using orderlyD(4) [OF assms(1)] m(1) by auto
  qed (use r in simp_all)
  show "has_dir f" using m(2) nt by (auto simp: has_dir_def)
qed

lemma orderly_rmdir:
  assumes "orderly f" "f t = Removing m"
  shows "orderly (f(t := Out)) \<and> has_dir f \<and> \<not> has_dir (f(t := Out))"
proof (intro conjI)
  have m: "is_removing (f t)" "\<not> is_trying (f t)" using assms(2) by simp_all
  have r: "u \<noteq> t \<Longrightarrow> \<not> is_removing (f u)" for u using orderlyD(2) [OF assms(1)] m(1) by blast
  have i: "\<exists>v. v \<noteq> t \<and> is_trying (f v)" if "is_inside (f u)" for u
    using orderlyD(3) [OF assms(1) m(1) that] m(2) by metis
  show "orderly (f(t := Out))"
  proof (rule orderly_upd [OF assms(1)])
    fix v u assume "is_removing ((f(t := Out)) v)"
    then show "is_trying Out \<or> (\<exists>v. v \<noteq> t \<and> is_trying (f v))" using r by (auto split: if_splits)
  qed simp_all
  show "has_dir f" using m(1) by (auto simp: has_dir_def)
  show "\<not> has_dir (f(t := Out))" using r i by (auto simp: has_dir_upd)
qed

text \<open>A step of one process keeps the invariant if that process takes the directory only when it is free.\<close>

lemma lock_inv_proc:
  assumes "lock_inv s"
    and "lk_pc s' = (lk_pc s)(p := f)" "lk_depth s' = (lk_depth s)(p := d)" "count_ok f d" "orderly f"
    and "has_dir f \<Longrightarrow> has_dir (lk_pc s p) \<or> \<not> lk_dir s" "has_dir f \<Longrightarrow> lk_dir s'"
    and "lk_dir s \<Longrightarrow> \<not> lk_dir s' \<Longrightarrow> has_dir (lk_pc s p)"
  shows "lock_inv s'"
proof -
  have inv: "count_ok (lk_pc s q) (lk_depth s q)" "orderly (lk_pc s q)" "has_dir (lk_pc s q) \<Longrightarrow> lk_dir s"
      "has_dir (lk_pc s q) \<Longrightarrow> has_dir (lk_pc s r) \<Longrightarrow> q = r" for q r
    using assms(1) unfolding lock_inv_def by blast+
  have "count_ok (lk_pc s' q) (lk_depth s' q) \<and> orderly (lk_pc s' q)" for q
    using assms(2-5) inv(1,2) by simp
  moreover have "lk_dir s'" if "has_dir (lk_pc s' q)" for q
  proof (cases "q = p")
    case False
    then have "has_dir (lk_pc s q)" using that assms(2) by simp
    then show ?thesis using inv(3,4) assms(8) False by blast
  qed (use that assms(2,7) in simp)
  moreover have "q = r" if q: "has_dir (lk_pc s' q)" and r: "has_dir (lk_pc s' r)" for q r
  proof -
    have "q' = p" if "has_dir (lk_pc s' q')" "has_dir f" for q'
    proof (rule ccontr)
      assume "q' \<noteq> p"
      then have h: "has_dir (lk_pc s q')" using that(1) assms(2) by simp
      then have "has_dir (lk_pc s p)" using assms(6) [OF that(2)] inv(3) by blast
      then show False using inv(4) [OF h] \<open>q' \<noteq> p\<close> by simp
    qed
    moreover have "has_dir f" if "q = p \<or> r = p" using that q r assms(2) by auto
    moreover have "q = r" if "q \<noteq> p" "r \<noteq> p"
    proof (rule inv(4))
      show "has_dir (lk_pc s q)" "has_dir (lk_pc s r)" using q r that assms(2) by simp_all
    qed
    ultimately show ?thesis using q r by blast
  qed
  ultimately show ?thesis unfolding lock_inv_def by blast
qed

lemma set_pc_fun: "lk_pc (set_pc p t c s) = (lk_pc s)(p := (lk_pc s p)(t := c))"
  by (simp add: set_pc_def)

lemma set_depth_fun: "lk_depth (set_depth p d s) = (lk_depth s)(p := d)"
  by (simp add: set_depth_def)

lemma set_pc_at_lock:
  "is_trying (lk_pc s p t) \<or> is_inside (lk_pc s p t) \<longleftrightarrow> t \<in> at_lock (lk_pc s p)"
  by (simp add: at_lock_def)

lemma patient_step_inv:
  assumes "lock_step g s s'" "\<not> g" "lock_inv s"
  shows "lock_inv s'"
proof -
  have inv: "count_ok (lk_pc s q) (lk_depth s q)" "orderly (lk_pc s q)" "has_dir (lk_pc s q) \<Longrightarrow> lk_dir s" for q
    using assms(3) unfolding lock_inv_def by blast+
  show ?thesis using assms(1)
  proof cases
    case (enter_first p t m)
    have "\<not> is_trying (lk_pc s p u) \<and> \<not> is_inside (lk_pc s p u)" for u
      using count_ok_none [OF inv(1)] enter_first(5) by simp
    note o = orderly_enter_first [OF inv(2) enter_first(3) this enter_first(4) [unfolded admits_def]]
    show ?thesis
      using o at_lock_step(1) [OF inv(1), of t p "Trying m 16"] enter_first(2,3) inv(3)
      by (intro lock_inv_proc [OF assms(3)]) (auto simp: set_pc_fun set_depth_fun at_lock_def)
  next
    case (enter_again p t m)
    obtain v where v: "is_trying (lk_pc s p v) \<or> is_inside (lk_pc s p v)"
      using count_ok_some [OF inv(1), of p] enter_again(5) by auto
    then have "v \<noteq> t" using enter_again(3) by auto
    note o = orderly_enter_again [OF inv(2) enter_again(3) this v enter_again(4) [unfolded admits_def]]
    show ?thesis
      using o at_lock_step(1) [OF inv(1), of t p "Inside m"] enter_again(2,3) inv(3)
      by (intro lock_inv_proc [OF assms(3)]) (auto simp: set_pc_fun set_depth_fun at_lock_def)
  next
    case (mkdir_made p t m n)
    have "\<not> has_dir (lk_pc s p)" using inv(3) mkdir_made(4) by blast
    note o = orderly_made [OF inv(2) mkdir_made(3) this]
    show ?thesis
      using o at_lock_step(2) [OF inv(1), of t p "Inside m"] mkdir_made(2-4)
      by (intro lock_inv_proc [OF assms(3)]) (auto simp: set_pc_fun at_lock_def)
  next
    case (mkdir_exists p t m n)
    note o = orderly_try [OF inv(2) mkdir_exists(3), of n]
    show ?thesis
      using o at_lock_step(2) [OF inv(1), of t p "Trying m n"] mkdir_exists(2-4)
      by (intro lock_inv_proc [OF assms(3), where p = p and f = "(lk_pc s p)(t := Trying m n)" and d = "lk_depth s p"]) (auto simp: set_pc_fun at_lock_def)
  next
    case (give_up p t m)
    then show ?thesis using assms(2) by simp
  next
    case (leave_again p t m)
    obtain v where "v \<noteq> t" "is_trying (lk_pc s p v) \<or> is_inside (lk_pc s p v)"
      using count_ok_other [OF inv(1), of p t] leave_again(3,4) by auto
    note o = orderly_leave_again [OF inv(2) leave_again(3) this]
    show ?thesis
      using o at_lock_step(3) [OF inv(1), of t p Out] leave_again(2,3) inv(3)
      by (intro lock_inv_proc [OF assms(3)]) (auto simp: set_pc_fun set_depth_fun at_lock_def)
  next
    case (leave_last p t m)
    have "u \<noteq> t \<Longrightarrow> \<not> is_trying (lk_pc s p u) \<and> \<not> is_inside (lk_pc s p u)" for u
      using count_ok_last [OF inv(1), of p t u] leave_last(3,4) by auto
    note o = orderly_leave_last [OF inv(2) leave_last(3) this]
    show ?thesis
      using o at_lock_step(3) [OF inv(1), of t p "Removing m"] leave_last(2,3) inv(3)
      by (intro lock_inv_proc [OF assms(3)]) (auto simp: set_pc_fun set_depth_fun at_lock_def)
  next
    case (rmdir p t m)
    note o = orderly_rmdir [OF inv(2) rmdir(3)]
    show ?thesis
      using o at_lock_step(4) [OF inv(1), of t p Out] rmdir(2,3)
      by (intro lock_inv_proc [OF assms(3)]) (auto simp: set_pc_fun at_lock_def)
  qed
qed

lemma no_locks_inv: "lock_inv no_locks"
  by (simp add: lock_inv_def no_locks_def count_ok_def orderly_def at_lock_def has_dir_def)

lemma lock_reach_inv: "lock_reach False s \<Longrightarrow> lock_inv s"
  by (induction rule: lock_reach.induct) (auto intro: no_locks_inv patient_step_inv)

section \<open>What the lock excludes\<close>

lemma writer_holds:
  assumes "lock_inv s" "lk_pc s p t = Inside Writer"
  shows "has_dir (lk_pc s p) \<and> (\<forall>u. u \<noteq> t \<longrightarrow> lk_pc s p u = Out)"
proof -
  have o: "orderly (lk_pc s p)" using assms(1) by (simp add: lock_inv_def)
  have w: "lk_pc s p u = Out" if "u \<noteq> t" for u
    using orderlyD(4) [OF o, of t u] assms(2) that by auto
  have "\<not> is_trying (lk_pc s p u)" for u using w [of u] assms(2) by (cases "u = t") auto
  then have "has_dir (lk_pc s p)" using assms(2) by (auto simp: has_dir_def intro!: exI [of _ t])
  then show ?thesis using w by blast
qed

lemma writer_excludes:
  assumes "lock_inv s" "lk_pc s p t = Inside Writer" "is_inside (lk_pc s q u)" "(p, t) \<noteq> (q, u)"
  shows "q \<noteq> p \<and> lk_pc s q u = Inside Reader \<and> (\<exists>v. is_trying (lk_pc s q v))"
proof -
  have q: "q \<noteq> p"
    using writer_holds [OF assms(1,2)] assms(3,4) by (cases "u = t") auto
  have "\<not> has_dir (lk_pc s q)"
    using writer_holds [OF assms(1,2)] assms(1) q unfolding lock_inv_def by blast
  then have v: "\<exists>v. is_trying (lk_pc s q v)" using assms(3) by (auto simp: has_dir_def)
  obtain m where m: "lk_pc s q u = Inside m" using assms(3) by (cases "lk_pc s q u") auto
  have "m \<noteq> Writer"
    using writer_holds [OF assms(1), of q u] m \<open>\<not> has_dir (lk_pc s q)\<close> by auto
  then show ?thesis using q v m by (cases m) auto
qed

section \<open>Runs\<close>

lemma patient_reach: "lock_reach g s \<Longrightarrow> lock_step False s s' \<Longrightarrow> lock_reach g s'"
  by (rule lock_reach.step [where g = False]) auto

lemma tries_run_out:
  "lock_reach g s \<Longrightarrow> lk_pc s p t = Trying m n \<Longrightarrow> lk_dir s \<Longrightarrow> lock_reach g (set_pc p t (Trying m 0) s)"
proof (induction n arbitrary: s)
  case 0
  then have "set_pc p t (Trying m 0) s = s" by (simp add: set_pc_def fun_upd_idem)
  then show ?case using 0 by simp
next
  case (Suc n)
  let ?s = "set_pc p t (Trying m n) s"
  have "lock_reach g ?s"
    using lock_reach.step [OF Suc.prems(1) mkdir_exists [OF Suc.prems(2,3)]] by simp
  then have "lock_reach g (set_pc p t (Trying m 0) ?s)" using Suc.prems(3) by (intro Suc.IH) simp_all
  moreover have "set_pc p t (Trying m 0) ?s = set_pc p t (Trying m 0) s" by (simp add: set_pc_def)
  ultimately show ?case by simp
qed

text \<open>A writer of an idle process takes a free lock.\<close>

lemma writer_enters:
  assumes "lock_reach g s" "\<forall>u. lk_pc s p u = Out" "lk_depth s p = 0" "\<not> lk_dir s"
  shows "\<exists>s'. lock_reach g s' \<and> lk_pc s' = (lk_pc s)(p := (lk_pc s p)(t := Inside Writer)) \<and>
    lk_depth s' = (lk_depth s)(p := 1) \<and> lk_dir s'"
proof -
  let ?s1 = "set_pc p t (Trying Writer 16) (set_depth p (lk_depth s p + 1) s)"
  have "lock_reach g ?s1"
    by (rule patient_reach [OF assms(1)], rule enter_first) (use assms in \<open>auto simp: admits_def\<close>)
  from patient_reach [OF this mkdir_made, of p t Writer 15]
  have "lock_reach g (set_pc p t (Inside Writer) (?s1\<lparr>lk_dir := True\<rparr>))" using assms by simp
  moreover have "lk_pc (set_pc p t (Inside Writer) (?s1\<lparr>lk_dir := True\<rparr>)) = (lk_pc s)(p := (lk_pc s p)(t := Inside Writer))"
    by (simp add: set_pc_def set_depth_def)
  moreover have "lk_depth (set_pc p t (Inside Writer) (?s1\<lparr>lk_dir := True\<rparr>)) = (lk_depth s)(p := 1)"
    using assms(3) by (simp add: set_pc_def set_depth_def)
  moreover have "lk_dir (set_pc p t (Inside Writer) (?s1\<lparr>lk_dir := True\<rparr>))" by (simp add: set_pc_def)
  ultimately show ?thesis by blast
qed

lemma writer_inside:
  "\<exists>s. lock_reach g s \<and> lk_dir s \<and> lk_depth s = (\<lambda>_. 0)(p := 1) \<and> lk_pc s = (\<lambda>_ _. Out)(p := (\<lambda>_. Out)(0 := Inside Writer))"
  using writer_enters [OF lock_reach.idle, of p g 0] by (auto simp: no_locks_def)

end
