(* ===== verification/II_Pool.thy ===== *)
theory II_Pool
  imports II_Msg
begin

text \<open>
  The goroutines of a fetch (\<^verbatim>\<open>Fetch\<close> and the end of \<^verbatim>\<open>Fetcher\<close> in \<^verbatim>\<open>ii/net.go\<close>): the loop starts one
  fetcher for an area, and from the connection limit on it sleeps after each start on a condition variable
  until some fetcher that ends wakes it. The loop holds the lock of the variable from before the start until
  it sleeps. A step is what another goroutine can observe; what a fetcher does is in \<^verbatim>\<open>II_Net\<close>.
\<close>

section \<open>States and steps\<close>

text \<open>A fetcher works, has called \<^verbatim>\<open>wait.Done\<close> and has still to broadcast, or has ended.\<close>

datatype worker = Working | Leaving | Ended

datatype boss = Looping | Holding | Sleeping | Woken | Joining | Returned

record pool =
  pl_todo :: "string list"
  pl_num :: nat
  pl_workers :: "(string \<times> worker) list"
  pl_boss :: boss

definition pool_start :: "string list \<Rightarrow> pool" where
  "pool_start areas = \<lparr>pl_todo = areas, pl_num = 0, pl_workers = [], pl_boss = Looping\<rparr>"

text \<open>Starting the fetcher of the next area; \<open>mx\<close> is \<^verbatim>\<open>MaxConnections\<close>.\<close>

definition start_worker :: "int \<Rightarrow> string \<Rightarrow> string list \<Rightarrow> pool \<Rightarrow> pool" where
  "start_worker mx v vs s =
     s\<lparr>pl_todo := vs, pl_num := pl_num s + 1, pl_workers := pl_workers s @ [(v, Working)],
       pl_boss := if int (pl_num s + 1) \<ge> mx then Holding else Looping\<rparr>"

definition set_worker :: "nat \<Rightarrow> worker \<Rightarrow> pool \<Rightarrow> pool" where
  "set_worker i w s = s\<lparr>pl_workers := (pl_workers s)[i := (fst (pl_workers s ! i), w)]\<rparr>"

definition woken :: "boss \<Rightarrow> boss" where
  "woken b = (if b = Sleeping then Woken else b)"

inductive pool_step :: "int \<Rightarrow> pool \<Rightarrow> pool \<Rightarrow> bool" for mx where
  skip: "pl_boss s = Looping \<Longrightarrow> pl_todo s = v # vs \<Longrightarrow> \<not> IsEcho v \<Longrightarrow> pool_step mx s (s\<lparr>pl_todo := vs\<rparr>)"
| begin_one: "pl_boss s = Looping \<Longrightarrow> pl_todo s = v # vs \<Longrightarrow> IsEcho v \<Longrightarrow> pool_step mx s (start_worker mx v vs s)"
| sleep: "pl_boss s = Holding \<Longrightarrow> pool_step mx s (s\<lparr>pl_boss := Sleeping\<rparr>)"
| finish: "i < length (pl_workers s) \<Longrightarrow> snd (pl_workers s ! i) = Working \<Longrightarrow> pool_step mx s (set_worker i Leaving s)"
| broadcast: "i < length (pl_workers s) \<Longrightarrow> snd (pl_workers s ! i) = Leaving \<Longrightarrow> pl_boss s \<noteq> Holding \<Longrightarrow>
    pool_step mx s ((set_worker i Ended s)\<lparr>pl_boss := woken (pl_boss s)\<rparr>)"
| wake: "pl_boss s = Woken \<Longrightarrow> pool_step mx s (s\<lparr>pl_boss := Looping\<rparr>)"
| last: "pl_boss s = Looping \<Longrightarrow> pl_todo s = [] \<Longrightarrow> pool_step mx s (s\<lparr>pl_boss := Joining\<rparr>)"
| join: "pl_boss s = Joining \<Longrightarrow> \<forall>w\<in>set (pl_workers s). snd w \<noteq> Working \<Longrightarrow> pool_step mx s (s\<lparr>pl_boss := Returned\<rparr>)"

inductive pool_reach :: "int \<Rightarrow> string list \<Rightarrow> pool \<Rightarrow> bool" for mx areas where
  start: "pool_reach mx areas (pool_start areas)"
| step: "pool_reach mx areas s \<Longrightarrow> pool_step mx s s' \<Longrightarrow> pool_reach mx areas s'"

section \<open>The invariant\<close>

definition alive :: "pool \<Rightarrow> nat" where
  "alive s = length (filter (\<lambda>w. snd w \<noteq> Ended) (pl_workers s))"

definition room :: "int \<Rightarrow> nat" where "room mx = max 1 (nat mx)"

definition pool_inv :: "int \<Rightarrow> string list \<Rightarrow> pool \<Rightarrow> bool" where
  "pool_inv mx areas s =
     (map fst (pl_workers s) @ filter IsEcho (pl_todo s) = filter IsEcho areas \<and>
      pl_num s = length (pl_workers s) \<and>
      alive s \<le> room mx \<and>
      (pl_boss s \<in> {Looping, Woken} \<longrightarrow> alive s < room mx) \<and>
      (pl_boss s \<in> {Holding, Sleeping} \<longrightarrow> 0 < alive s) \<and>
      (pl_boss s \<in> {Joining, Returned} \<longrightarrow> pl_todo s = []) \<and>
      (pl_boss s = Returned \<longrightarrow> (\<forall>w\<in>set (pl_workers s). snd w \<noteq> Working)))"

lemma alive_le: "alive s \<le> length (pl_workers s)"
  by (simp add: alive_def)

lemma length_filter_update:
  "i < length xs \<Longrightarrow> length (filter P (xs[i := x])) + (if P (xs ! i) then 1 else 0) =
     length (filter P xs) + (if P x then 1 else 0)"
proof (induction xs arbitrary: i)
  case (Cons y ys)
  then show ?case by (cases i) (auto split: if_splits)
qed simp

lemma alive_set:
  assumes "i < length (pl_workers s)"
  shows "alive (set_worker i w s) + (if snd (pl_workers s ! i) \<noteq> Ended then 1 else 0) =
    alive s + (if w \<noteq> Ended then 1 else 0)"
  using length_filter_update [OF assms, of "\<lambda>w. snd w \<noteq> Ended" "(fst (pl_workers s ! i), w)"]
  by (simp add: alive_def set_worker_def)

lemma set_worker_fst: "map fst (pl_workers (set_worker i w s)) = map fst (pl_workers s)"
  by (simp add: set_worker_def map_update)
     (metis list_update_id map_update)

lemma set_worker_sel [simp]:
  "pl_todo (set_worker i w s) = pl_todo s" "pl_num (set_worker i w s) = pl_num s"
  "pl_boss (set_worker i w s) = pl_boss s" "length (pl_workers (set_worker i w s)) = length (pl_workers s)"
  by (simp_all add: set_worker_def)

lemma alive_boss [simp]: "alive (s\<lparr>pl_boss := b\<rparr>) = alive s" "alive (s\<lparr>pl_todo := vs\<rparr>) = alive s"
  by (simp_all add: alive_def)

lemma set_worker_none:
  "\<forall>x\<in>set (pl_workers s). snd x \<noteq> Working \<Longrightarrow> w \<noteq> Working \<Longrightarrow>
   \<forall>x\<in>set (pl_workers (set_worker i w s)). snd x \<noteq> Working"
  by (auto simp: set_worker_def dest!: set_update_subset_insert [THEN subsetD])

lemma pool_step_inv: "pool_step mx s s' \<Longrightarrow> pool_inv mx areas s \<Longrightarrow> pool_inv mx areas s'"
proof (induction rule: pool_step.induct)
  case (begin_one s v vs)
  have a: "alive (start_worker mx v vs s) = alive s + 1" by (simp add: start_worker_def alive_def)
  have "int (pl_num s + 1) < mx \<Longrightarrow> alive s + 1 < room mx"
    using alive_le [of s] begin_one.prems by (auto simp: pool_inv_def room_def)
  then show ?case
    using begin_one a by (auto simp: pool_inv_def start_worker_def alive_def)
next
  case (finish i s)
  then show ?case
    using alive_set [OF finish(1), of Leaving] set_worker_fst [of i Leaving s] set_worker_none [of s Leaving i]
    by (cases "pl_boss s") (auto simp: pool_inv_def)
next
  case (broadcast i s)
  have "alive (set_worker i Ended s) + 1 = alive s"
    using alive_set [OF broadcast(1), of Ended] broadcast(2) by simp
  then show ?case
    using broadcast set_worker_fst [of i Ended s] set_worker_none [of s Ended i]
    by (cases "pl_boss s") (auto simp: pool_inv_def woken_def)
qed (auto simp: pool_inv_def)

lemma pool_reach_inv: "pool_reach mx areas s \<Longrightarrow> pool_inv mx areas s"
proof (induction rule: pool_reach.induct)
  case start
  show ?case by (simp add: pool_inv_def pool_start_def alive_def room_def)
qed (rule pool_step_inv)

section \<open>It ends\<close>

text \<open>As long as the fetch has not returned, some goroutine can go on.\<close>

lemma pool_progress:
  assumes "pool_inv mx areas s" and "pl_boss s \<noteq> Returned"
  shows "\<exists>s'. pool_step mx s s'"
proof (cases "\<exists>i<length (pl_workers s). snd (pl_workers s ! i) = Working")
  case True
  then show ?thesis using pool_step.finish by blast
next
  case False
  then have w: "\<forall>w\<in>set (pl_workers s). snd w \<noteq> Working" by (metis in_set_conv_nth)
  show ?thesis
  proof (cases "pl_boss s")
    case Looping
    then show ?thesis
      using pool_step.skip [of s] pool_step.begin_one [of s] pool_step.last [of s] by (cases "pl_todo s") blast+
  next
    case Sleeping
    then have "0 < alive s" using assms(1) by (simp add: pool_inv_def)
    then obtain w where "w \<in> set (pl_workers s)" "snd w \<noteq> Ended"
      by (auto simp: alive_def filter_empty_conv)
    moreover from this have "snd w = Leaving" using \<open>\<forall>w\<in>set (pl_workers s). snd w \<noteq> Working\<close> by (cases "snd w") auto
    ultimately obtain i where i: "i < length (pl_workers s)" "snd (pl_workers s ! i) = Leaving"
      by (metis in_set_conv_nth)
    have "pl_boss s \<noteq> Holding" using Sleeping by simp
    from pool_step.broadcast [OF i this] show ?thesis by blast
  qed (use pool_step.sleep pool_step.wake pool_step.join w assms(2) in blast)+
qed

text \<open>Every step uses up some of the work that is left.\<close>

fun worker_left :: "worker \<Rightarrow> nat" where
  "worker_left Working = 2"
| "worker_left Leaving = 1"
| "worker_left Ended = 0"

fun boss_left :: "boss \<Rightarrow> nat" where
  "boss_left Looping = 2"
| "boss_left Holding = 5"
| "boss_left Sleeping = 4"
| "boss_left Woken = 3"
| "boss_left Joining = 1"
| "boss_left Returned = 0"

definition work_left :: "pool \<Rightarrow> nat" where
  "work_left s = 6 * length (pl_todo s) + sum_list (map (worker_left \<circ> snd) (pl_workers s)) + boss_left (pl_boss s)"

lemma sum_list_less_update:
  "i < length xs \<Longrightarrow> f x < f (xs ! i) \<Longrightarrow> sum_list (map f (xs[i := x])) < (sum_list (map f xs) :: nat)"
proof (induction xs arbitrary: i)
  case (Cons y ys)
  then show ?case by (cases i) auto
qed simp

lemma pool_step_less: "pool_step mx s s' \<Longrightarrow> work_left s' < work_left s"
proof (induction rule: pool_step.induct)
  case (finish i s)
  then show ?case
    using sum_list_less_update [of i "pl_workers s" "worker_left \<circ> snd" "(fst (pl_workers s ! i), Leaving)"]
    by (simp add: work_left_def set_worker_def)
next
  case (broadcast i s)
  have "boss_left (woken (pl_boss s)) \<le> boss_left (pl_boss s)" by (simp add: woken_def)
  then show ?case
    using broadcast sum_list_less_update [of i "pl_workers s" "worker_left \<circ> snd" "(fst (pl_workers s ! i), Ended)"]
    by (simp add: work_left_def set_worker_def)
qed (auto simp: work_left_def start_worker_def)

inductive pool_run :: "int \<Rightarrow> nat \<Rightarrow> pool \<Rightarrow> pool \<Rightarrow> bool" for mx where
  none: "pool_run mx 0 s s"
| more: "pool_step mx s s' \<Longrightarrow> pool_run mx n s' t \<Longrightarrow> pool_run mx (Suc n) s t"

lemma pool_run_bound: "pool_run mx n s t \<Longrightarrow> n + work_left t \<le> work_left s"
proof (induction rule: pool_run.induct)
  case (more s s' n t)
  then show ?case using pool_step_less [OF more(1)] by simp
qed simp

lemma pool_run_reach: "pool_run mx n s t \<Longrightarrow> pool_reach mx areas s \<Longrightarrow> pool_reach mx areas t"
proof (induction rule: pool_run.induct)
  case (more s s' n t)
  then show ?case using pool_reach.step by blast
qed

end
