(* ===== verification/Go_Runes.thy ===== *)
theory Go_Runes
  imports Go_Numbers
begin

text \<open>
  Go's conversion of a string to its runes (\<^verbatim>\<open>[]rune(s)\<close>) and back, on UTF-8 bytes, and
  \<^verbatim>\<open>strings.Split\<close> with a separator of several bytes. A rune is kept as its encoding; a byte that
  belongs to no valid encoding gives the replacement character U+FFFD.
\<close>

section \<open>Runes\<close>

definition in_bytes :: "nat \<Rightarrow> nat \<Rightarrow> char \<Rightarrow> bool" where
  "in_bytes a b c = (a \<le> of_char c \<and> of_char c \<le> b)"

definition cont :: "char \<Rightarrow> bool" where "cont = in_bytes 0x80 0xBF"

text \<open>Whether the string starts with a valid encoding of 1, 2, 3 or 4 bytes.\<close>

definition enc1 :: "string \<Rightarrow> bool" where "enc1 s = (1 \<le> length s \<and> in_bytes 0 0x7F (s ! 0))"

definition enc2 :: "string \<Rightarrow> bool" where
  "enc2 s = (2 \<le> length s \<and> in_bytes 0xC2 0xDF (s ! 0) \<and> cont (s ! 1))"

definition enc3 :: "string \<Rightarrow> bool" where
  "enc3 s = (3 \<le> length s \<and> cont (s ! 2) \<and>
     (in_bytes 0xE0 0xE0 (s ! 0) \<and> in_bytes 0xA0 0xBF (s ! 1) \<or> in_bytes 0xE1 0xEC (s ! 0) \<and> cont (s ! 1) \<or>
      in_bytes 0xED 0xED (s ! 0) \<and> in_bytes 0x80 0x9F (s ! 1) \<or> in_bytes 0xEE 0xEF (s ! 0) \<and> cont (s ! 1)))"

definition enc4 :: "string \<Rightarrow> bool" where
  "enc4 s = (4 \<le> length s \<and> cont (s ! 2) \<and> cont (s ! 3) \<and>
     (in_bytes 0xF0 0xF0 (s ! 0) \<and> in_bytes 0x90 0xBF (s ! 1) \<or> in_bytes 0xF1 0xF3 (s ! 0) \<and> cont (s ! 1) \<or>
      in_bytes 0xF4 0xF4 (s ! 0) \<and> in_bytes 0x80 0x8F (s ! 1)))"

definition rune_len :: "string \<Rightarrow> nat" where
  "rune_len s = (if enc1 s then 1 else if enc2 s then 2 else if enc3 s then 3 else if enc4 s then 4 else 0)"

lemma enc_append:
  shows "1 \<le> length r \<Longrightarrow> enc1 (r @ s) = enc1 r" and "2 \<le> length r \<Longrightarrow> enc2 (r @ s) = enc2 r"
    and "3 \<le> length r \<Longrightarrow> enc3 (r @ s) = enc3 r" and "4 \<le> length r \<Longrightarrow> enc4 (r @ s) = enc4 r"
proof -
  have e: "(r @ s) ! k = r ! k" if "k < length r" for k using that by (simp add: nth_append)
  show "1 \<le> length r \<Longrightarrow> enc1 (r @ s) = enc1 r" unfolding enc1_def using e [of 0] by (cases r) simp_all
  show "2 \<le> length r \<Longrightarrow> enc2 (r @ s) = enc2 r"
    unfolding enc2_def using e [of 0] e [of 1] by (cases "r = []") simp_all
  show "3 \<le> length r \<Longrightarrow> enc3 (r @ s) = enc3 r"
    unfolding enc3_def using e [of 0] e [of 1] e [of 2] by (cases "r = []") simp_all
  show "4 \<le> length r \<Longrightarrow> enc4 (r @ s) = enc4 r"
    unfolding enc4_def using e [of 0] e [of 1] e [of 2] e [of 3] by (cases "r = []") simp_all
qed

lemma rune_len_cases:
  assumes "rune_len s \<noteq> 0"
  obtains "rune_len s = 1" "enc1 s" | "rune_len s = 2" "\<not> enc1 s" "enc2 s"
    | "rune_len s = 3" "\<not> enc1 s" "\<not> enc2 s" "enc3 s" | "rune_len s = 4" "\<not> enc1 s" "\<not> enc2 s" "\<not> enc3 s" "enc4 s"
  using assms unfolding rune_len_def by presburger

lemma enc_length:
  "enc1 s \<Longrightarrow> 1 \<le> length s" "enc2 s \<Longrightarrow> 2 \<le> length s" "enc3 s \<Longrightarrow> 3 \<le> length s" "enc4 s \<Longrightarrow> 4 \<le> length s"
  by (simp_all add: enc1_def enc2_def enc3_def enc4_def)

lemma rune_len_bound: "rune_len s \<le> length s"
  using enc_length [of s] by (auto simp: rune_len_def)

lemma rune_len_append: "rune_len r \<noteq> 0 \<Longrightarrow> rune_len (r @ s) = rune_len r"
  using enc_append [of r s] enc_length [of r] by (auto simp: rune_len_def split: if_splits)

lemma enc_take:
  assumes "k \<le> length s"
  shows "1 \<le> k \<Longrightarrow> enc1 (take k s) = enc1 s" and "2 \<le> k \<Longrightarrow> enc2 (take k s) = enc2 s"
    and "3 \<le> k \<Longrightarrow> enc3 (take k s) = enc3 s" and "4 \<le> k \<Longrightarrow> enc4 (take k s) = enc4 s"
  using enc_append [of "take k s" "drop k s"] assms by simp_all

lemma rune_len_take:
  assumes "rune_len s \<noteq> 0"
  shows "rune_len (take (rune_len s) s) = rune_len s"
  using assms
proof (cases rule: rune_len_cases)
  case 1
  then show ?thesis using enc_take [of 1 s] rune_len_bound [of s] by (simp add: rune_len_def [of "take (Suc 0) s"])
next
  case 2
  then show ?thesis using enc_take [of 2 s] rune_len_bound [of s] by (simp add: rune_len_def [of "take 2 s"])
next
  case 3
  then show ?thesis using enc_take [of 3 s] rune_len_bound [of s] by (simp add: rune_len_def [of "take 3 s"])
next
  case 4
  then show ?thesis using enc_take [of 4 s] rune_len_bound [of s] by (simp add: rune_len_def [of "take 4 s"])
qed

definition rune_error :: string where "rune_error = [CHR 0xEF, CHR 0xBF, CHR 0xBD]"

function runes :: "string \<Rightarrow> string list" where
  "runes [] = []"
| "runes (a # s) =
     (let n = rune_len (a # s) in
      if n = 0 then rune_error # runes s else take n (a # s) # runes (drop (n - 1) s))"
  by pat_completeness auto
termination by (relation "measure length") auto

definition valid_rune :: "string \<Rightarrow> bool" where
  "valid_rune r = (r \<noteq> [] \<and> rune_len r = length r)"

lemma valid_rune_error: "valid_rune rune_error"
  by (simp add: valid_rune_def rune_error_def rune_len_def enc1_def enc2_def enc3_def in_bytes_def cont_def)

lemma valid_runes: "r \<in> set (runes s) \<Longrightarrow> valid_rune r"
proof (induction s arbitrary: r rule: runes.induct)
  case (2 a s)
  let ?n = "rune_len (a # s)"
  show ?case
  proof (cases "?n = 0")
    case True
    then show ?thesis using 2 valid_rune_error by auto
  next
    case False
    have "valid_rune (take ?n (a # s))"
      using rune_len_take [OF False] rune_len_bound [of "a # s"] False by (auto simp: valid_rune_def)
    then show ?thesis using 2 False by (auto simp: Let_def)
  qed
qed simp

text \<open>Runes written out and read again.\<close>

lemma runes_concat: "\<forall>r\<in>set rs. valid_rune r \<Longrightarrow> runes (concat rs) = rs"
proof (induction rs)
  case (Cons r rs)
  then have r: "r \<noteq> []" "rune_len r = length r" by (simp_all add: valid_rune_def)
  then obtain a t where a: "r = a # t" by (cases r) auto
  have "rune_len (r @ concat rs) = length r" using rune_len_append [of r] r by simp
  then show ?case using Cons a by (simp add: Let_def)
qed simp

lemma valid_rune_ascii: "in_bytes 0 0x7F c \<Longrightarrow> valid_rune [c]"
  by (simp add: valid_rune_def rune_len_def enc1_def)

lemma runes_ascii: "\<forall>c\<in>set s. in_bytes 0 0x7F c \<Longrightarrow> runes s = map (\<lambda>c. [c]) s"
  using runes_concat [of "map (\<lambda>c. [c]) s"] valid_rune_ascii by simp

section \<open>Splitting at a longer separator\<close>

text \<open>\<^verbatim>\<open>strings.Split(s, sep)\<close> for a separator that is not empty.\<close>

fun split_at :: "string \<Rightarrow> string \<Rightarrow> string \<times> string option" where
  "split_at sep [] = ([], None)"
| "split_at sep (x # xs) =
     (if HasPrefix (x # xs) sep then ([], Some (drop (length sep) (x # xs)))
      else (case split_at sep xs of (w, r) \<Rightarrow> (x # w, r)))"

lemma split_at_shorter: "split_at sep s = (w, Some r) \<Longrightarrow> sep \<noteq> [] \<Longrightarrow> length r < length s"
proof (induction s arbitrary: w r)
  case (Cons x xs)
  then show ?case by (cases "split_at sep xs") (auto split: if_splits simp: neq_Nil_conv less_Suc_eq)
qed simp

function SplitStr :: "string \<Rightarrow> string \<Rightarrow> string list" where
  "SplitStr sep s =
     (if sep = [] then [s]
      else (case split_at sep s of (w, None) \<Rightarrow> [w] | (w, Some r) \<Rightarrow> w # SplitStr sep r))"
  by pat_completeness auto
termination
  by (relation "measure (length \<circ> snd)") (auto dest: split_at_shorter [OF sym])

declare SplitStr.simps [simp del]

lemma split_at_here: "split_at (c # cs) ((c # cs) @ s) = ([], Some s)"
  using HasPrefix_append [of "c # cs" s] by simp

end
