(* ===== verification/II_Xpm.thy ===== *)
theory II_Xpm
  imports Go_Runes II_Tags
begin

text \<open>
  Reading XPM pictures out of message text (\<^verbatim>\<open>ii-node/xpm.go\<close>). The loop over the lines is a fold over
  \<open>xpm_line\<close> with the loop's variables as a record; the result is the picture, if one was read, and the
  number of lines used, or the panic the code stops with.
\<close>

section \<open>Pictures\<close>

datatype rgba = RGBA nat nat nat nat

record image =
  im_w :: int
  im_h :: int
  im_pix :: "int \<times> int \<Rightarrow> rgba"

text \<open>
  \<^verbatim>\<open>image.NewRGBA\<close> panics when a side is negative or the buffer's size is no int; whether
  there is enough memory is not modelled.
\<close>

definition NewRGBA :: "int \<Rightarrow> int \<Rightarrow> ii_error + image" where
  "NewRGBA w h =
     (if w < 0 \<or> h < 0 \<or> \<not> in64 (4 * w * h) then Inl (EPanic PHuge)
      else Inr \<lparr>im_w = w, im_h = h, im_pix = (\<lambda>_. RGBA 0 0 0 0)\<rparr>)"

text \<open>\<^verbatim>\<open>Set\<close> ignores points outside.\<close>

definition img_set :: "int \<Rightarrow> int \<Rightarrow> rgba \<Rightarrow> image \<Rightarrow> image" where
  "img_set x y c img =
     (if 0 \<le> x \<and> x < im_w img \<and> 0 \<le> y \<and> y < im_h img
      then img\<lparr>im_pix := (im_pix img)((x, y) := c)\<rparr> else img)"

section \<open>Colours\<close>

definition hex_val :: "char \<Rightarrow> nat option" where
  "hex_val c =
     (let n = (of_char c :: nat) in
      if 48 \<le> n \<and> n \<le> 57 then Some (n - 48)
      else if 97 \<le> n \<and> n \<le> 102 then Some (n - 87)
      else if 65 \<le> n \<and> n \<le> 70 then Some (n - 55) else None)"

text \<open>
  \<^verbatim>\<open>%02x\<close>: a field of at most two runes, in which spaces may come first, then at least one
  digit.
\<close>

fun skip_space_w :: "nat \<Rightarrow> string \<Rightarrow> (nat \<times> string) option" where
  "skip_space_w 0 s = Some (0, s)"
| "skip_space_w (Suc n) s =
     (if HasPrefix s [NL] then None
      else (case find (HasPrefix s) space_runes of
              None \<Rightarrow> Some (Suc n, s)
            | Some r \<Rightarrow> skip_space_w n (drop (length r) s)))"

fun hex_digits :: "nat \<Rightarrow> nat \<Rightarrow> string \<Rightarrow> nat \<times> string" where
  "hex_digits acc (Suc n) (c # s) =
     (case hex_val c of None \<Rightarrow> (acc, c # s) | Some v \<Rightarrow> hex_digits (acc * 16 + v) n s)"
| "hex_digits acc _ s = (acc, s)"

definition scan_hex2 :: "string \<Rightarrow> (nat \<times> string) option" where
  "scan_hex2 s =
     (case skip_space_w 2 s of
        Some (Suc n, c # t) \<Rightarrow> (case hex_val c of None \<Rightarrow> None | Some v \<Rightarrow> Some (hex_digits v n t))
      | _ \<Rightarrow> None)"

definition scan_rgb :: "string \<Rightarrow> rgba option" where
  "scan_rgb s =
     (if \<not> HasPrefix s ''#'' then None
      else (case scan_hex2 (tl s) of
        None \<Rightarrow> None
      | Some (r, s) \<Rightarrow> (case scan_hex2 s of
          None \<Rightarrow> None
        | Some (g, s) \<Rightarrow> (case scan_hex2 s of
            None \<Rightarrow> None
          | Some (b, _) \<Rightarrow> Some (RGBA r g b 255)))))"

section \<open>The parser\<close>

record xpm =
  xp_nr :: nat
  xp_img :: "image option"
  xp_start :: bool
  xp_cformat :: bool
  xp_last :: bool
  xp_pal :: "string \<rightharpoonup> rgba"
  xp_w :: int
  xp_h :: int
  xp_cols :: int
  xp_cpp :: int
  xp_y :: int

definition xpm_init :: xpm where
  "xpm_init = \<lparr>xp_nr = 0, xp_img = None, xp_start = False, xp_cformat = False, xp_last = False,
     xp_pal = Map.empty, xp_w = 0, xp_h = 0, xp_cols = 0, xp_cpp = 0, xp_y = 0\<rparr>"

text \<open>What a line leads to: the next one, the end of the loop, \<^verbatim>\<open>return nil, 0\<close>, or a panic.\<close>

datatype xpm_next = XNext xpm | XBreak xpm | XNil | XPanic ii_error

text \<open>The inner loop over the bytes of a line of pixels, at index \<open>i\<close> with the rest of the line.\<close>

fun xpm_row :: "(string \<rightharpoonup> rgba) \<Rightarrow> int \<Rightarrow> int \<Rightarrow> int \<Rightarrow> string \<Rightarrow> image \<Rightarrow> (ii_error option) + image" where
  "xpm_row pal cpp y i [] img = Inr img"
| "xpm_row pal cpp y i (c # s) img =
     (let e = wrap64 (i + cpp) in
      if e > i + int (length (c # s)) then Inl None
      else if e < i then Inl (Some (EPanic PSlice))
      else (case pal (take (nat (e - i)) (c # s)) of
        None \<Rightarrow> Inl None
      | Some col \<Rightarrow>
          if cpp = 0 then Inl (Some (EPanic PDivide))
          else xpm_row pal cpp y (i + 1) s (img_set (i div cpp) y col img)))"

text \<open>The description line.\<close>

definition xpm_desc :: "string \<Rightarrow> xpm \<Rightarrow> xpm_next" where
  "xpm_desc l st =
     (let dsc = Split SP l in
      if length dsc \<noteq> 4 then XNil
      else (case map (sscan_d 64) dsc of
        [Some (w, _), Some (h, _), Some (cols, _), Some (cpp, _)] \<Rightarrow>
          (case NewRGBA w h of
             Inl e \<Rightarrow> XPanic e
           | Inr img \<Rightarrow> XNext (st\<lparr>xp_w := w, xp_h := h, xp_cols := cols, xp_cpp := cpp, xp_img := Some img\<rparr>))
      | _ \<Rightarrow> XNil))"

definition xpm_colour :: "string \<Rightarrow> xpm \<Rightarrow> xpm_next" where
  "xpm_colour l st =
     (let dsc = SplitStr '' c '' l in
      if length dsc \<noteq> 2 then XNil
      else (let cols = (if xp_cols st - 1 = 0 then -1 else xp_cols st - 1) in
        case scan_rgb (dsc ! 1) of
          Some c \<Rightarrow> XNext (st\<lparr>xp_pal := (xp_pal st)(dsc ! 0 \<mapsto> c), xp_cols := cols\<rparr>)
        | None \<Rightarrow>
            if dsc ! 1 \<noteq> ''None'' then XNil
            else XNext (st\<lparr>xp_pal := (xp_pal st)(dsc ! 0 \<mapsto> RGBA 255 255 255 0), xp_cols := cols\<rparr>)))"

definition xpm_pixels :: "string \<Rightarrow> xpm \<Rightarrow> xpm_next" where
  "xpm_pixels l st =
     (if xp_y st \<ge> xp_h st \<and> HasPrefix l ''}'' then XBreak st
      else (case xp_img st of
        None \<Rightarrow> XPanic (EPanic PNilPointer)
      | Some img \<Rightarrow>
          (case xpm_row (xp_pal st) (xp_cpp st) (xp_y st) 0 l img of
             Inl None \<Rightarrow> XNil
           | Inl (Some e) \<Rightarrow> XPanic e
           | Inr img \<Rightarrow>
               let st = st\<lparr>xp_img := Some img, xp_y := xp_y st + 1\<rparr> in
               if xp_y st \<ge> xp_h st \<and> (\<not> xp_cformat st \<or> xp_last st) then XBreak st else XNext st)))"

text \<open>What is left of a line of C source: whether it ends the array, and the string's content.\<close>

definition c_line :: "string \<Rightarrow> bool \<times> string" where
  "c_line l =
     (let last = HasSuffix l ''};'';
          l = (if last then TrimRight l ''};'' else l)
      in (last, Trim (TrimRight l '','') [DQ]))"

definition xpm_line :: "string \<Rightarrow> xpm \<Rightarrow> xpm_next" where
  "xpm_line l st =
     (let st = st\<lparr>xp_nr := xp_nr st + 1\<rparr> in
      if \<not> xp_start st \<and> \<not> HasPrefix l ''/* XPM */'' \<and> \<not> HasPrefix l ''! XPM2'' then XNext st
      else if \<not> xp_start st then XNext (st\<lparr>xp_start := True\<rparr>)
      else if Contains l ''static char '' then XNext (st\<lparr>xp_cformat := True\<rparr>)
      else if xp_cformat st \<and> (HasPrefix l ''/*'' \<or> HasPrefix l ''//'') then XNext st
      else
        (let (last, l) = (if xp_cformat st then c_line l else (False, l));
             st = st\<lparr>xp_last := xp_last st \<or> last\<rparr>;
             l = Replace TAB '' '' l in
         if xp_cols st = 0 then xpm_desc l st
         else if xp_cols st > 0 then xpm_colour l st
         else xpm_pixels l st))"

fun xpm_lines :: "string list \<Rightarrow> xpm \<Rightarrow> xpm_next" where
  "xpm_lines [] st = XBreak st"
| "xpm_lines (l # ls) st =
     (case xpm_line l st of XNext st \<Rightarrow> xpm_lines ls st | r \<Rightarrow> r)"

definition ParseXpm :: "string list \<Rightarrow> ii_error + (image option \<times> nat)" where
  "ParseXpm ls =
     (case xpm_lines ls xpm_init of
        XBreak st \<Rightarrow> if xp_y st < xp_h st then Inr (None, 0) else Inr (xp_img st, xp_nr st)
      | XNext st \<Rightarrow> Inr (xp_img st, xp_nr st)
      | XNil \<Rightarrow> Inr (None, 0)
      | XPanic e \<Rightarrow> Inl e)"

section \<open>Writing a picture\<close>

definition hex_digit :: "nat \<Rightarrow> char" where
  "hex_digit n = (if n < 10 then char_of (48 + n) else char_of (87 + n))"

definition hex2 :: "nat \<Rightarrow> string" where "hex2 n = [hex_digit (n div 16), hex_digit (n mod 16)]"

definition colour_line :: "char \<times> nat \<times> nat \<times> nat \<Rightarrow> string" where
  "colour_line p = (case p of (c, r, g, b) \<Rightarrow> [c] @ '' c '' @ ''#'' @ hex2 r @ hex2 g @ hex2 b)"

definition xpm2 :: "nat \<Rightarrow> (char \<times> nat \<times> nat \<times> nat) list \<Rightarrow> string list \<Rightarrow> string list" where
  "xpm2 w pal rows =
     [''! XPM2'', itoa (int w) @ '' '' @ itoa (int (length rows)) @ '' '' @ itoa (int (length pal)) @ '' '' @ itoa 1] @
     map colour_line pal @ rows"

definition pal_ok :: "(char \<times> nat \<times> nat \<times> nat) list \<Rightarrow> bool" where
  "pal_ok pal = (pal \<noteq> [] \<and> in64 (int (length pal)) \<and> distinct (map fst pal) \<and>
     (\<forall>(c, r, g, b)\<in>set pal. c \<noteq> TAB \<and> r < 256 \<and> g < 256 \<and> b < 256))"

lemma hex_val_digit: "n < 16 \<Longrightarrow> hex_val (hex_digit n) = Some n"
  by (auto simp: hex_val_def hex_digit_def Let_def)

lemma hex_no_space: "hex_val c \<noteq> None \<Longrightarrow> find (HasPrefix (c # s)) space_runes = None"
proof -
  assume h: "hex_val c \<noteq> None"
  have "\<not> HasPrefix (c # s) r" if "r \<in> set space_runes" for r
  proof -
    have "hex_val (hd r) = None" "r \<noteq> []" using that by (auto simp: space_runes_def hex_val_def)
    then show ?thesis using h by (cases r) auto
  qed
  then show ?thesis by (auto simp: find_None_iff)
qed

lemma scan_hex2_hex2: "n < 256 \<Longrightarrow> scan_hex2 (hex2 n @ s) = Some (n, s)"
proof -
  assume n: "n < 256"
  then have d: "hex_val (hex_digit (n div 16)) = Some (n div 16)" "hex_val (hex_digit (n mod 16)) = Some (n mod 16)"
    by (simp_all add: hex_val_digit)
  have nl: "hex_digit (n div 16) \<noteq> NL" using d(1) by (auto simp: hex_val_def)
  have "skip_space_w 2 (hex2 n @ s) = Some (2, hex2 n @ s)"
    using hex_no_space [of "hex_digit (n div 16)"] d(1) nl unfolding numeral_2_eq_2 by (simp add: hex2_def)
  then show ?thesis using d by (simp add: scan_hex2_def hex2_def numeral_2_eq_2)
qed

lemma scan_rgb_print:
  "r < 256 \<Longrightarrow> g < 256 \<Longrightarrow> b < 256 \<Longrightarrow> scan_rgb (''#'' @ hex2 r @ hex2 g @ hex2 b) = Some (RGBA r g b 255)"
  using scan_hex2_hex2 [of r "hex2 g @ hex2 b"] scan_hex2_hex2 [of g "hex2 b"] scan_hex2_hex2 [of b "[]"]
  by (simp add: scan_rgb_def)

lemma hex2_no: "n < 256 \<Longrightarrow> hex_val c = None \<Longrightarrow> c \<notin> set (hex2 n)"
  using hex_val_digit [of "n div 16"] hex_val_digit [of "n mod 16"] by (auto simp: hex2_def)

lemma split_at_none: "sep \<noteq> [] \<Longrightarrow> hd sep \<notin> set s \<Longrightarrow> split_at sep s = (s, None)"
  by (induction s) (auto simp: neq_Nil_conv)

lemma hex2_no_special:
  "n < 256 \<Longrightarrow> SP \<notin> set (hex2 n)" "n < 256 \<Longrightarrow> TAB \<notin> set (hex2 n)"
  by (simp_all add: hex2_no hex_val_def)

lemma Split_colour_line:
  assumes "r < 256" "g < 256" "b < 256"
  shows "SplitStr '' c '' (colour_line (c, r, g, b)) = [[c], ''#'' @ hex2 r @ hex2 g @ hex2 b]"
proof -
  let ?t = "''#'' @ hex2 r @ hex2 g @ hex2 b"
  have "split_at '' c '' ?t = (?t, None)"
    by (rule split_at_none) (use hex2_no_special(1) assms in auto)
  then have "SplitStr '' c '' ?t = [?t]" by (subst SplitStr.simps) simp
  moreover have "split_at '' c '' (colour_line (c, r, g, b)) = ([c], Some ?t)"
    using split_at_here [of SP "''c ''" ?t] by (auto simp: colour_line_def)
  ultimately show ?thesis by (subst SplitStr.simps) simp
qed

lemma Contains_length: "Contains s p \<Longrightarrow> length p \<le> length s"
  by (auto simp: Contains_def dest!: Index_Some)

lemma Contains_set: "Contains s p \<Longrightarrow> set p \<subseteq> set s"
proof -
  assume "Contains s p"
  then obtain n where "take (length p) (drop n s) = p" by (auto simp: Contains_def dest!: Index_Some)
  then show ?thesis by (metis set_drop_subset set_take_subset subset_trans)
qed

section \<open>Reading it\<close>

text \<open>What a line of pixels paints when every symbol is one byte and has a colour.\<close>

fun paint :: "(string \<rightharpoonup> rgba) \<Rightarrow> int \<Rightarrow> int \<Rightarrow> string \<Rightarrow> image \<Rightarrow> image" where
  "paint pal y i [] img = img"
| "paint pal y i (c # s) img = paint pal y (i + 1) s (img_set i y (the (pal [c])) img)"

lemma xpm_row_paint:
  "\<forall>c\<in>set s. pal [c] \<noteq> None \<Longrightarrow> 0 \<le> i \<Longrightarrow> in64 (i + int (length s)) \<Longrightarrow>
   xpm_row pal 1 y i s img = Inr (paint pal y i s img)"
proof (induction s arbitrary: i img)
  case (Cons c s)
  then have "wrap64 (i + 1) = i + 1" by (intro wrap64_id) (auto simp: in_range_def)
  moreover have "in64 (i + 1 + int (length s))" using Cons.prems(3) by (simp add: add.assoc)
  ultimately show ?case using Cons.IH [of "i + 1"] Cons.prems by (auto simp: Let_def)
qed simp

lemma img_set_size [simp]: "im_w (img_set x y c img) = im_w img" "im_h (img_set x y c img) = im_h img"
  by (simp_all add: img_set_def)

lemma paint_size [simp]: "im_w (paint pal y i s img) = im_w img" "im_h (paint pal y i s img) = im_h img"
  by (induction pal y i s img rule: paint.induct) simp_all

lemma paint_pix:
  assumes "0 \<le> i" "i + int (length s) \<le> im_w img" "0 \<le> y" "y < im_h img"
  shows "im_pix (paint pal y i s img) (x, y') =
    (if y' = y \<and> i \<le> x \<and> x < i + int (length s) then the (pal [s ! nat (x - i)]) else im_pix img (x, y'))"
  using assms
proof (induction s arbitrary: i img)
  case (Cons c s)
  have p: "im_pix (img_set i y (the (pal [c])) img) (x, y') = (if y' = y \<and> x = i then the (pal [c]) else im_pix img (x, y'))"
    using Cons.prems by (auto simp: img_set_def)
  have n: "nat (x - i) = Suc (nat (x - (i + 1)))" if "i < x" using that by simp
  show ?case
    using Cons.IH [of "i + 1" "img_set i y (the (pal [c])) img"] Cons.prems p n by auto
qed auto

text \<open>The palette.\<close>

lemma xpm_colour_line:
  assumes "c \<noteq> TAB" "r < 256" "g < 256" "b < 256"
    and "xp_start st" "\<not> xp_cformat st" "xp_cols st > 0"
  shows "xpm_line (colour_line (c, r, g, b)) st =
    XNext (st\<lparr>xp_nr := xp_nr st + 1, xp_pal := (xp_pal st)([c] \<mapsto> RGBA r g b 255),
      xp_cols := (if xp_cols st - 1 = 0 then -1 else xp_cols st - 1)\<rparr>)"
proof -
  have len: "length (colour_line (c, r, g, b)) = 11" by (simp add: colour_line_def hex2_def)
  then have "\<not> Contains (colour_line (c, r, g, b)) ''static char ''" using Contains_length by fastforce
  moreover have "TAB \<notin> set (colour_line (c, r, g, b))"
    using assms(1-4) hex2_no_special(2) by (auto simp: colour_line_def)
  moreover have "xp_last st = (xp_last st \<or> False)" by simp
  ultimately show ?thesis
    using assms Split_colour_line [of r g b c] scan_rgb_print [of r g b]
    by (simp add: xpm_line_def xpm_colour_def Let_def Replace_id)
qed

definition pal_map :: "(char \<times> nat \<times> nat \<times> nat) list \<Rightarrow> (string \<rightharpoonup> rgba)" where
  "pal_map pal = (\<lambda>s. case s of [c] \<Rightarrow> map_option (\<lambda>(r, g, b). RGBA r g b 255) (map_of pal c) | _ \<Rightarrow> None)"

lemma pal_map_snoc:
  assumes "c \<notin> fst ` set pal"
  shows "pal_map (pal @ [(c, r, g, b)]) = (pal_map pal)([c] \<mapsto> RGBA r g b 255)"
proof -
  have "map_of pal c = None" using assms by (simp add: map_of_eq_None_iff)
  then show ?thesis by (auto simp: pal_map_def fun_eq_iff map_add_def split: list.split option.split)
qed

lemma xpm_palette:
  assumes "distinct (map fst (done_pal @ pal))" "\<forall>(c, r, g, b)\<in>set pal. c \<noteq> TAB \<and> r < 256 \<and> g < 256 \<and> b < 256"
    and "xp_start st" "\<not> xp_cformat st" "xp_cols st = int (length pal)" "xp_pal st = pal_map done_pal" "pal \<noteq> []"
  shows "xpm_lines (map colour_line pal @ ls) st =
    xpm_lines ls (st\<lparr>xp_nr := xp_nr st + length pal, xp_pal := pal_map (done_pal @ pal), xp_cols := -1\<rparr>)"
  using assms
proof (induction pal arbitrary: done_pal st)
  case (Cons p pal)
  obtain c r g b where p: "p = (c, r, g, b)" by (metis prod_cases4)
  let ?st = "st\<lparr>xp_nr := xp_nr st + 1, xp_pal := (xp_pal st)([c] \<mapsto> RGBA r g b 255),
      xp_cols := (if xp_cols st - 1 = 0 then -1 else xp_cols st - 1)\<rparr>"
  have line: "xpm_line (colour_line p) st = XNext ?st"
    using Cons.prems unfolding p by (intro xpm_colour_line) auto
  have "c \<notin> fst ` set done_pal" using Cons.prems(1) p by auto
  then have pm: "pal_map (done_pal @ [p]) = xp_pal ?st" using Cons.prems(6) pal_map_snoc p by simp
  show ?case
  proof (cases "pal = []")
    case True
    then show ?thesis using line pm [symmetric] Cons.prems(5) by (simp del: fun_upd_apply)
  next
    case False
    have "xpm_lines (map colour_line pal @ ls) ?st =
        xpm_lines ls (?st\<lparr>xp_nr := xp_nr ?st + length pal, xp_pal := pal_map ((done_pal @ [p]) @ pal), xp_cols := -1\<rparr>)"
      using Cons.prems pm False by (intro Cons.IH) auto
    then show ?thesis using line by simp
  qed
qed simp

text \<open>The pixels.\<close>

fun paint_rows :: "(string \<rightharpoonup> rgba) \<Rightarrow> int \<Rightarrow> string list \<Rightarrow> image \<Rightarrow> image" where
  "paint_rows pal y [] img = img"
| "paint_rows pal y (r # rs) img = paint_rows pal (y + 1) rs (paint pal y 0 r img)"

lemma paint_rows_size [simp]:
  "im_w (paint_rows pal y rs img) = im_w img" "im_h (paint_rows pal y rs img) = im_h img"
  by (induction pal y rs img rule: paint_rows.induct) simp_all

lemma paint_rows_pix:
  assumes "0 \<le> y" "y + int (length rs) \<le> im_h img" "\<forall>r\<in>set rs. length r = w" "im_w img = int w"
    and "0 \<le> x" "x < int w"
  shows "im_pix (paint_rows pal y rs img) (x, y') =
    (if y \<le> y' \<and> y' < y + int (length rs) then the (pal [rs ! nat (y' - y) ! nat x]) else im_pix img (x, y'))"
  using assms
proof (induction rs arbitrary: y img)
  case (Cons r rs)
  have p: "im_pix (paint pal y 0 r img) (x, y') = (if y' = y then the (pal [r ! nat x]) else im_pix img (x, y'))"
    using paint_pix [of 0 r img y pal x y'] Cons.prems by auto
  have n: "nat (y' - y) = Suc (nat (y' - (y + 1)))" if "y < y'" using that by simp
  show ?case using Cons.IH [of "y + 1" "paint pal y 0 r img"] Cons.prems p n by auto
qed auto

definition row_ok :: "nat \<Rightarrow> (string \<rightharpoonup> rgba) \<Rightarrow> string \<Rightarrow> bool" where
  "row_ok w pal r = (length r = w \<and> (\<forall>c\<in>set r. pal [c] \<noteq> None \<and> c \<noteq> TAB) \<and> \<not> Contains r ''static char '')"

lemma xpm_line_row:
  assumes "row_ok w (xp_pal st) r" "in64 (int w)" "xp_start st" "\<not> xp_cformat st" "xp_cols st < 0" "xp_cpp st = 1"
    and "xp_y st < xp_h st" "xp_img st = Some img"
  shows "xpm_line r st =
    (let st' = st\<lparr>xp_nr := xp_nr st + 1, xp_img := Some (paint (xp_pal st) (xp_y st) 0 r img), xp_y := xp_y st + 1\<rparr>
     in if xp_y st + 1 \<ge> xp_h st then XBreak st' else XNext st')"
proof -
  have "TAB \<notin> set r" using assms(1) by (auto simp: row_ok_def)
  moreover have "xpm_row (xp_pal st) 1 (xp_y st) 0 r img = Inr (paint (xp_pal st) (xp_y st) 0 r img)"
    using assms(1,2) by (intro xpm_row_paint) (auto simp: row_ok_def)
  ultimately show ?thesis
    using assms by (simp add: xpm_line_def xpm_pixels_def Let_def Replace_id row_ok_def)
qed

lemma xpm_rows:
  assumes "\<forall>r\<in>set rs. row_ok w (xp_pal st) r" "in64 (int w)" "xp_start st" "\<not> xp_cformat st" "xp_cols st < 0" "xp_cpp st = 1"
    and "xp_h st = xp_y st + int (length rs)" "rs \<noteq> []" "xp_img st = Some img"
  shows "xpm_lines (rs @ ls) st =
    XBreak (st\<lparr>xp_nr := xp_nr st + length rs, xp_img := Some (paint_rows (xp_pal st) (xp_y st) rs img), xp_y := xp_h st\<rparr>)"
  using assms
proof (induction rs arbitrary: st img)
  case (Cons r rs)
  let ?st = "st\<lparr>xp_nr := xp_nr st + 1, xp_img := Some (paint (xp_pal st) (xp_y st) 0 r img), xp_y := xp_y st + 1\<rparr>"
  have line: "xpm_line r st = (if xp_y st + 1 \<ge> xp_h st then XBreak ?st else XNext ?st)"
    using xpm_line_row [of w st r img] Cons.prems by (simp add: Let_def)
  show ?case
  proof (cases "rs = []")
    case True
    then show ?thesis using line Cons.prems(7) by simp
  next
    case False
    have "xpm_lines (rs @ ls) ?st = XBreak (?st\<lparr>xp_nr := xp_nr ?st + length rs,
        xp_img := Some (paint_rows (xp_pal ?st) (xp_y ?st) rs (paint (xp_pal st) (xp_y st) 0 r img)), xp_y := xp_h ?st\<rparr>)"
      using Cons.prems False by (intro Cons.IH) auto
    then show ?thesis using line Cons.prems(7) False by (cases rs) auto
  qed
qed simp

lemma xpm_line_desc:
  assumes "in64 (int w)" "in64 (int h)" "in64 (4 * int w * int h)" "in64 (int n)" "xp_start st" "\<not> xp_cformat st" "xp_cols st = 0"
  shows "xpm_line (itoa (int w) @ '' '' @ itoa (int h) @ '' '' @ itoa (int n) @ '' '' @ itoa 1) st =
    XNext (st\<lparr>xp_nr := xp_nr st + 1, xp_w := int w, xp_h := int h, xp_cols := int n, xp_cpp := 1,
      xp_img := Some \<lparr>im_w = int w, im_h = int h, im_pix = (\<lambda>_. RGBA 0 0 0 0)\<rparr>\<rparr>)"
proof -
  let ?l = "itoa (int w) @ '' '' @ itoa (int h) @ '' '' @ itoa (int n) @ '' '' @ itoa 1"
  have chars: "is_digit c \<or> c = CHR ''-'' \<or> c = SP" if "c \<in> set ?l" for c
    using that itoa_chars [of c] by auto
  have "\<not> Contains ?l ''static char ''"
  proof
    assume "Contains ?l ''static char ''"
    then have "CHR ''s'' \<in> set ?l" using Contains_set by fastforce
    then show False using chars [of "CHR ''s''"] by (simp add: is_digit_def)
  qed
  moreover have "TAB \<notin> set ?l" using chars [of TAB] by (auto simp: is_digit_def)
  moreover have "Split SP ?l = [itoa (int w), itoa (int h), itoa (int n), itoa 1]"
    by (simp add: Split_append Split_no_sep)
  moreover have "sscan_d 64 (itoa i) = Some (i, [])" if "in64 i" for i
    using sscan_d_itoa [OF that, of "[]"] by simp
  moreover have "in64 1" by (simp add: in_range_def)
  ultimately show ?thesis
    using assms by (simp add: xpm_line_def xpm_desc_def Let_def Replace_id NewRGBA_def)
qed

lemma ParseXpm_xpm2:
  assumes "pal_ok pal" "rows \<noteq> []" "\<forall>r\<in>set rows. row_ok w (pal_map pal) r"
    and "in64 (int w)" "in64 (int (length rows))" "in64 (4 * int w * int (length rows))"
  shows "ParseXpm (xpm2 w pal rows @ ls) =
    Inr (Some (paint_rows (pal_map pal) 0 rows \<lparr>im_w = int w, im_h = int (length rows), im_pix = (\<lambda>_. RGBA 0 0 0 0)\<rparr>),
      length (xpm2 w pal rows))"
proof -
  let ?img = "\<lparr>im_w = int w, im_h = int (length rows), im_pix = (\<lambda>_. RGBA 0 0 0 0)\<rparr>"
  let ?s1 = "xpm_init\<lparr>xp_nr := 1, xp_start := True\<rparr>"
  let ?s2 = "?s1\<lparr>xp_nr := 2, xp_w := int w, xp_h := int (length rows), xp_cols := int (length pal), xp_cpp := 1, xp_img := Some ?img\<rparr>"
  let ?s3 = "?s2\<lparr>xp_nr := 2 + length pal, xp_pal := pal_map pal, xp_cols := -1\<rparr>"
  let ?s4 = "?s3\<lparr>xp_nr := xp_nr ?s3 + length rows, xp_img := Some (paint_rows (pal_map pal) 0 rows ?img), xp_y := xp_h ?s3\<rparr>"
  have pal: "distinct (map fst ([] @ pal))" "\<forall>(c, r, g, b)\<in>set pal. c \<noteq> TAB \<and> r < 256 \<and> g < 256 \<and> b < 256"
      "pal \<noteq> []" "in64 (int (length pal))"
    using assms(1) by (auto simp: pal_ok_def)
  have l1: "xpm_line ''! XPM2'' xpm_init = XNext ?s1" by (simp add: xpm_line_def xpm_init_def Let_def)
  have l2: "xpm_line (itoa (int w) @ '' '' @ itoa (int (length rows)) @ '' '' @ itoa (int (length pal)) @ '' '' @ itoa 1) ?s1 = XNext ?s2"
    using xpm_line_desc [OF assms(4-6) pal(4), of ?s1] by (simp add: xpm_init_def)
  have empty: "pal_map [] = Map.empty" by (auto simp: pal_map_def fun_eq_iff split: list.split)
  have l3: "xpm_lines (map colour_line pal @ rows @ ls) ?s2 = xpm_lines (rows @ ls) ?s3"
    using xpm_palette [OF pal(1,2), of ?s2 "rows @ ls"] pal(3) empty by (simp add: xpm_init_def)
  have l4: "xpm_lines (rows @ ls) ?s3 = XBreak ?s4"
    using xpm_rows [of rows w ?s3 ?img ls] assms(2-4) by (simp add: xpm_init_def)
  have "xpm_lines (xpm2 w pal rows @ ls) xpm_init = XBreak ?s4"
    unfolding xpm2_def using l1 l2 l3 l4 by simp
  then show ?thesis by (simp add: ParseXpm_def xpm_init_def xpm2_def)
qed

end
