(* ===== verification/II_Render.thy ===== *)
theory II_Render
  imports II_Xpm II_Msg Go_Regexp
begin

text \<open>
  What the web interface makes of message text (\<^verbatim>\<open>ii-node/web.go\<close>): escaping, links, quoting, the
  rendering of a message line by line, and the file attached to a message. The encoder of PNG files is
  the parameter \<open>png\<close>.
\<close>

section \<open>Escaping and cleaning\<close>

definition str_esc :: "string \<Rightarrow> string" where
  "str_esc l =
     (let l = Replace (CHR ''&'') ''&amp;'' l;
          l = Replace (CHR ''<'') ''&lt;'' l
      in Replace (CHR ''>'') ''&gt;'' l)"

definition msg_clean :: "string \<Rightarrow> string" where
  "msg_clean txt = TrimRight (TrimLeft (Replace CR [] txt) [NL]) [NL]"

definition trunc :: "string \<Rightarrow> nat \<Rightarrow> string" where
  "trunc s limit = (let result = runes s in if length result > limit then concat (take limit result) else s)"

definition ReverseStr :: "string \<Rightarrow> string" where
  "ReverseStr s = concat (rev (runes s))"

section \<open>Quoting\<close>

text \<open>\<^verbatim>\<open>quoteRegex\<close>, a match of \<^verbatim>\<open>^[^ >]*>\<close>.\<close>

definition is_quote :: "string \<Rightarrow> bool" where
  "is_quote l = HasPrefix (dropWhile (\<lambda>c. c \<noteq> SP \<and> c \<noteq> CHR ''>'') l) ''>''"

text \<open>The initials of an author of at least two words; an empty word has no first rune.\<close>

definition initials :: "string \<Rightarrow> ii_error + string" where
  "initials from =
     (let names = Split SP from in
      if length names \<ge> 2 then
        (if names ! 0 = [] \<or> names ! 1 = [] then Inl (EPanic PIndex)
         else Inr (runes (names ! 0) ! 0 @ runes (names ! 1) ! 0))
      else Inr from)"

definition quote_line :: "string \<Rightarrow> string \<Rightarrow> string" where
  "quote_line from l =
     (if Trim l '' '' = [] then l
      else if is_quote l then
        (case Index l ''>'' of None \<Rightarrow> l | Some s \<Rightarrow> take s l @ ''>>'' @ drop (s + 1) l)
      else from @ ''> '' @ l) @ [NL]"

definition msg_quote :: "string \<Rightarrow> string \<Rightarrow> ii_error + string" where
  "msg_quote txt from =
     (let txt = msg_clean txt in
      case initials from of
        Inl e \<Rightarrow> Inl e
      | Inr from \<Rightarrow> Inr (concat (map (quote_line from) (Split NL txt))))"

section \<open>Links\<close>

text \<open>
  \<^verbatim>\<open>ReplaceAllFunc\<close> for patterns that match no empty string: \<open>m\<close> gives the length of the match at
  the start of the rest, 0 for none; the function replaces it and carries a state.
\<close>

function replace_all :: "(string \<Rightarrow> nat) \<Rightarrow> (string \<Rightarrow> 's \<Rightarrow> string \<times> 's) \<Rightarrow> string \<Rightarrow> 's \<Rightarrow> string \<times> 's" where
  "replace_all m f [] st = ([], st)"
| "replace_all m f (c # s) st =
     (if m (c # s) = 0 then (let (r, st) = replace_all m f s st in (c # r, st))
      else (let (w, st) = f (take (m (c # s)) (c # s)) st;
                (r, st) = replace_all m f (drop (m (c # s)) (c # s)) st
            in (w @ r, st)))"
  by pat_completeness auto
termination by (relation "measure (\<lambda>(m, f, s, st). length s)") auto

text \<open>\<^verbatim>\<open>urlIIRegex\<close>, \<^verbatim>\<open>urlRegex\<close> and \<^verbatim>\<open>url2Regex\<close>.\<close>

definition match_after :: "string \<Rightarrow> (char \<Rightarrow> bool) \<Rightarrow> string \<Rightarrow> nat" where
  "match_after p ok s =
     (if HasPrefix s p then
        (let n = length (takeWhile ok (drop (length p) s)) in if n = 0 then 0 else length p + n)
      else 0)"

definition ii_char :: "char \<Rightarrow> bool" where "ii_char c = (c \<in> set (rx_alnum @ ''_-.''))"
definition url_byte :: "char \<Rightarrow> bool" where "url_byte c = (c \<notin> {SP, CHR ''<'', CHR ''>'', DQ})"

definition ii_len :: "string \<Rightarrow> nat" where "ii_len = match_after ''ii://'' ii_char"

definition url_len :: "string \<Rightarrow> nat" where
  "url_len s =
     (case find (HasPrefix s) [''http://'', ''ftp://'', ''https://'', ''gemini://''] of
        None \<Rightarrow> 0
      | Some p \<Rightarrow> match_after p url_byte s)"

definition href_len :: "string \<Rightarrow> nat" where
  "href_len s =
     (let n = match_after ''{{{href='' is_digit s
      in if n \<noteq> 0 \<and> HasPrefix (drop n s) ''}}}'' then n + 3 else 0)"

definition href :: "nat \<Rightarrow> string" where "href n = ''{{{href='' @ itoa (int n) @ ''}}}''"

definition anchor :: "string \<Rightarrow> string \<Rightarrow> string" where
  "anchor url s = ''<a href='' @ [DQ] @ url @ [DQ] @ '' class='' @ [DQ] @ ''url'' @ [DQ] @ ''>'' @ str_esc s @ ''</a>''"

definition ii_link :: "string \<Rightarrow> string" where
  "ii_link s = (let url = TrimPrefix s ''ii://'' in anchor (''/'' @ url @ ''#'' @ url) s)"

text \<open>A match becomes a placeholder, its link is kept.\<close>

definition put_link :: "(string \<Rightarrow> string) \<Rightarrow> string \<Rightarrow> string list \<Rightarrow> string \<times> string list" where
  "put_link mk s links = (href (length links), links @ [mk s])"

text \<open>\<^verbatim>\<open>Sscanf(s, "{{{href=%d}}}", &n)\<close> leaves 0 when the number is out of range.\<close>

definition href_index :: "string \<Rightarrow> nat" where
  "href_index s = (case sscan_d 64 (drop 8 s) of None \<Rightarrow> 0 | Some (n, _) \<Rightarrow> nat n)"

definition get_link :: "string list \<Rightarrow> string \<Rightarrow> ii_error option \<Rightarrow> string \<times> ii_error option" where
  "get_link links s err =
     (let n = href_index s in if n < length links then (links ! n, err) else ([], Some (EPanic PIndex)))"

definition msg_esc :: "string \<Rightarrow> ii_error + string" where
  "msg_esc l =
     (let (l, links) = replace_all ii_len (put_link ii_link) l [];
          (l, links) = replace_all url_len (put_link (\<lambda>s. anchor s s)) l links
      in case replace_all href_len (get_link links) (str_esc l) None of
           (l, None) \<Rightarrow> Inr l
         | (_, Some e) \<Rightarrow> Inl e)"

section \<open>A message as a page\<close>

definition in_span :: "string \<Rightarrow> string \<Rightarrow> string" where
  "in_span class s = ''<span class='' @ [DQ] @ class @ [DQ] @ ''>'' @ str_esc s @ ''</span>''"

definition starts :: "string list \<Rightarrow> string \<Rightarrow> bool" where
  "starts ps l = (\<exists>p\<in>set ps. HasPrefix l p)"

definition attach_name :: "string \<Rightarrow> string" where
  "attach_name l = (let fname = Trim (TrimPrefix l ''@base64:'') '' '' in if fname = [] then ''file'' else fname)"

definition attach_link :: "string \<Rightarrow> string \<Rightarrow> string" where
  "attach_link mid fname =
     ''<a class='' @ [DQ] @ ''attach'' @ [DQ] @ '' href='' @ [DQ] @ ''/'' @ mid @ ''/base64'' @ [DQ] @ ''>'' @
     str_esc fname @ ''</a><br>'' @ [NL]"

definition attach_html :: "string \<Rightarrow> string \<Rightarrow> string" where
  "attach_html mid fname =
     attach_link mid fname @
     (if HasSuffix fname ''.png'' \<or> HasSuffix fname ''.jpg'' \<or> HasSuffix fname ''.gif''
      then ''<img class='' @ [DQ] @ ''img'' @ [DQ] @ '' alt='' @ [DQ] @ str_esc fname @ [DQ] @ '' src='' @ [DQ] @
           ''/'' @ mid @ ''/base64'' @ [DQ] @ ''>'' @ [NL]
      else attach_link mid fname)"

definition img_html :: "string \<Rightarrow> string" where
  "img_html data =
     ''<img class='' @ [DQ] @ ''img'' @ [DQ] @ '' src='' @ [DQ] @ ''data:image/png;base64,'' @ StdEncode data @ [DQ] @
     ''><br>'' @ [NL]"

definition pre_open :: string where "pre_open = ''<pre class='' @ [DQ] @ ''code'' @ [DQ] @ ''>'' @ [NL]"
definition pre_close :: string where "pre_close = ''</pre>'' @ [NL]"
definition br :: string where "br = ''<br>'' @ [NL]"

text \<open>
  A line outside a block of code becomes text, a picture (with the number of lines it takes), or the link
  to a file, after which nothing is shown.
\<close>

datatype shown = Html string | Picture string nat | Attached string

definition html :: "ii_error + string \<Rightarrow> ii_error + shown" where
  "html r = (case r of Inl e \<Rightarrow> Inl e | Inr t \<Rightarrow> Inr (Html t))"

definition picture :: "(image \<Rightarrow> string option) \<Rightarrow> string \<Rightarrow> string list \<Rightarrow> ii_error + shown" where
  "picture png l ls =
     (case ParseXpm (l # ls) of
        Inl e \<Rightarrow> Inl e
      | Inr (img, n) \<Rightarrow>
          (case Option.bind img png of
             Some data \<Rightarrow> Inr (Picture data n)
           | None \<Rightarrow> html (msg_esc l)))"

definition line_html :: "(image \<Rightarrow> string option) \<Rightarrow> string \<Rightarrow> string list \<Rightarrow> ii_error + shown" where
  "line_html png l ls =
     (if starts [''/* XPM */'', ''! XPM2''] l then picture png l ls
      else if starts [''P.S.'', ''PS:'', ''//'', ''+++ ''] l then Inr (Html (in_span ''comment'' l))
      else if starts [''# '', ''= '', ''## '', ''== '', ''### '', ''=== ''] l then Inr (Html (in_span ''header'' l))
      else if HasPrefix l ''@spoiler:'' then Inr (Html (in_span ''spoiler'' (ReverseStr l)))
      else if is_quote l then Inr (Html (in_span ''quote'' l))
      else if HasPrefix l ''@base64:'' then Inr (Attached (attach_name l))
      else html (msg_esc l))"

text \<open>
  The loop of \<^verbatim>\<open>msg_trunc\<close>: the lines left, how many to skip, whether in a block of code, and the page
  so far; \<open>over\<close> is shown where the page is cut.
\<close>

definition too_long :: "int \<Rightarrow> string \<Rightarrow> bool" where
  "too_long maxlen f = (maxlen > 0 \<and> int (length f) > maxlen)"

fun trunc_loop ::
  "(image \<Rightarrow> string option) \<Rightarrow> string \<Rightarrow> int \<Rightarrow> string \<Rightarrow> string list \<Rightarrow> nat \<Rightarrow> bool \<Rightarrow> string \<Rightarrow> ii_error + string"
where
  "trunc_loop png mid maxlen over [] skip pre f = Inr (if pre then f @ pre_close else f)"
| "trunc_loop png mid maxlen over (l # ls) skip pre f =
     (if skip > 0 then trunc_loop png mid maxlen over ls (skip - 1) pre f
      else if Trim l '' '' = ''===='' then
        (if \<not> pre then trunc_loop png mid maxlen over ls 0 True (f @ pre_open)
         else trunc_loop png mid maxlen over ls 0 False (f @ pre_close))
      else if pre then
        (let f = f @ str_esc l @ [NL] in
         if too_long maxlen f then Inr (f @ pre_close @ over @ br)
         else trunc_loop png mid maxlen over ls 0 True f)
      else
        (case line_html png l ls of
           Inl e \<Rightarrow> Inl e
         | Inr (Picture data n) \<Rightarrow> trunc_loop png mid maxlen over ls (n - 1) False (f @ img_html data)
         | Inr (Attached fname) \<Rightarrow> Inr (f @ attach_html mid fname)
         | Inr (Html t) \<Rightarrow>
             let f = f @ t in
             if too_long maxlen f then Inr (f @ over @ br)
             else trunc_loop png mid maxlen over ls 0 False (f @ br)))"

definition msg_trunc :: "(image \<Rightarrow> string option) \<Rightarrow> Msg option \<Rightarrow> int \<Rightarrow> string \<Rightarrow> ii_error + string" where
  "msg_trunc png m maxlen over =
     (case m of
        None \<Rightarrow> Inr []
      | Some m \<Rightarrow> trunc_loop png (m_MsgId m) maxlen over (Split NL (msg_clean (m_Text m))) 0 False [])"

definition msg_text :: "(image \<Rightarrow> string option) \<Rightarrow> Msg option \<Rightarrow> ii_error + string" where
  "msg_text png m = msg_trunc png m 0 []"

section \<open>Escaped text\<close>

definition esc_char :: "char \<Rightarrow> string" where
  "esc_char c =
     (if c = CHR ''&'' then ''&amp;'' else if c = CHR ''<'' then ''&lt;'' else if c = CHR ''>'' then ''&gt;'' else [c])"

lemma str_esc_chars: "str_esc l = concat (map esc_char l)"
  by (induction l) (auto simp: str_esc_def esc_char_def Replace_def Let_def)

lemma str_esc_append: "str_esc (a @ b) = str_esc a @ str_esc b"
  by (simp add: str_esc_chars)

lemma set_str_esc: "c \<in> set (str_esc l) \<Longrightarrow> c \<in> set l \<or> c \<in> set ''&amp;lt;gt;''"
  by (auto simp: str_esc_chars esc_char_def split: if_splits)

lemma str_esc_plain: "CHR ''<'' \<notin> set (str_esc l)" "CHR ''>'' \<notin> set (str_esc l)"
  by (auto simp: str_esc_chars esc_char_def split: if_splits)

fun unescape :: "string \<Rightarrow> string" where
  "unescape [] = []"
| "unescape (c # s) =
     (if HasPrefix (c # s) ''&amp;'' then CHR ''&'' # unescape (drop 4 s)
      else if HasPrefix (c # s) ''&lt;'' then CHR ''<'' # unescape (drop 3 s)
      else if HasPrefix (c # s) ''&gt;'' then CHR ''>'' # unescape (drop 3 s)
      else c # unescape s)"

lemma unescape_str_esc: "unescape (str_esc l) = l"
  by (induction l) (auto simp: str_esc_chars esc_char_def)

section \<open>What may appear on a page\<close>

text \<open>
  A value of an attribute that stays within its quotes, the tags the code writes, and the text made of
  such tags and of characters that open no tag.
\<close>

definition attr_ok :: "string \<Rightarrow> bool" where
  "attr_ok v = (\<forall>c\<in>set v. c \<noteq> DQ \<and> c \<noteq> CHR ''<'' \<and> c \<noteq> CHR ''>'')"

definition fixed_tags :: "string list" where
  "fixed_tags =
     [''<br>'', ''</a>'', ''</span>'', ''</pre>'',
      ''<pre class='' @ [DQ] @ ''code'' @ [DQ] @ ''>'',
      ''<span class='' @ [DQ] @ ''comment'' @ [DQ] @ ''>'',
      ''<span class='' @ [DQ] @ ''header'' @ [DQ] @ ''>'',
      ''<span class='' @ [DQ] @ ''spoiler'' @ [DQ] @ ''>'',
      ''<span class='' @ [DQ] @ ''quote'' @ [DQ] @ ''>'']"

definition url_tag :: "string \<Rightarrow> string" where
  "url_tag v = ''<a href='' @ [DQ] @ v @ [DQ] @ '' class='' @ [DQ] @ ''url'' @ [DQ] @ ''>''"
definition file_tag :: "string \<Rightarrow> string" where
  "file_tag v = ''<a class='' @ [DQ] @ ''attach'' @ [DQ] @ '' href='' @ [DQ] @ v @ [DQ] @ ''>''"
definition img_tag :: "string \<Rightarrow> string" where
  "img_tag v = ''<img class='' @ [DQ] @ ''img'' @ [DQ] @ '' src='' @ [DQ] @ v @ [DQ] @ ''>''"
definition alt_tag :: "string \<Rightarrow> string \<Rightarrow> string" where
  "alt_tag alt v =
     ''<img class='' @ [DQ] @ ''img'' @ [DQ] @ '' alt='' @ [DQ] @ alt @ [DQ] @ '' src='' @ [DQ] @ v @ [DQ] @ ''>''"

inductive page_safe :: "string \<Rightarrow> bool" where
  page_nil: "page_safe []"
| page_char: "c \<noteq> CHR ''<'' \<Longrightarrow> c \<noteq> CHR ''>'' \<Longrightarrow> page_safe s \<Longrightarrow> page_safe (c # s)"
| page_fixed: "t \<in> set fixed_tags \<Longrightarrow> page_safe s \<Longrightarrow> page_safe (t @ s)"
| page_url: "attr_ok v \<Longrightarrow> page_safe s \<Longrightarrow> page_safe (url_tag v @ s)"
| page_file: "attr_ok v \<Longrightarrow> page_safe s \<Longrightarrow> page_safe (file_tag v @ s)"
| page_img: "attr_ok v \<Longrightarrow> page_safe s \<Longrightarrow> page_safe (img_tag v @ s)"
| page_alt: "attr_ok a \<Longrightarrow> attr_ok v \<Longrightarrow> page_safe s \<Longrightarrow> page_safe (alt_tag a v @ s)"

lemma page_append: "page_safe a \<Longrightarrow> page_safe b \<Longrightarrow> page_safe (a @ b)"
  by (induction rule: page_safe.induct) (auto intro: page_safe.intros)

lemma page_plain: "CHR ''<'' \<notin> set s \<Longrightarrow> CHR ''>'' \<notin> set s \<Longrightarrow> page_safe s"
  by (induction s) (auto intro: page_safe.intros)

lemma page_esc: "page_safe (str_esc l)"
  by (intro page_plain str_esc_plain)

lemma page_tag: "t \<in> set fixed_tags \<Longrightarrow> page_safe t"
  using page_fixed [OF _ page_nil] by simp

lemma page_nl: "page_safe [NL]"
  by (rule page_plain) simp_all

lemma page_br: "page_safe br"
  unfolding br_def by (intro page_append page_nl page_tag) (simp add: fixed_tags_def)

lemma page_pre: "page_safe pre_open" "page_safe pre_close"
proof -
  have "page_safe ((''<pre class='' @ [DQ] @ ''code'' @ [DQ] @ ''>'') @ [NL])"
    by (intro page_append page_nl page_tag) (simp add: fixed_tags_def)
  then show "page_safe pre_open" by (simp add: pre_open_def)
  show "page_safe pre_close"
    unfolding pre_close_def by (intro page_append page_nl page_tag) (simp add: fixed_tags_def)
qed

lemma page_span:
  assumes "class \<in> {''comment'', ''header'', ''spoiler'', ''quote''}"
  shows "page_safe (in_span class s)"
proof -
  have t: "''<span class='' @ [DQ] @ class @ [DQ] @ ''>'' \<in> set fixed_tags"
    using assms unfolding fixed_tags_def by (elim insertE emptyE) (simp_all only: list.set insert_iff, simp_all)
  have "''</span>'' \<in> set fixed_tags" by (simp add: fixed_tags_def)
  then have "page_safe ((''<span class='' @ [DQ] @ class @ [DQ] @ ''>'') @ (str_esc s @ ''</span>''))"
    by (intro page_append page_esc page_tag t)
  then show ?thesis by (simp add: in_span_def)
qed

lemma page_anchor: assumes "attr_ok v" shows "page_safe (anchor v s)"
proof -
  have "page_safe (url_tag v @ (str_esc s @ ''</a>''))"
    using assms by (intro page_url page_append page_esc page_tag) (simp_all add: fixed_tags_def)
  then show ?thesis by (simp add: anchor_def url_tag_def)
qed

section \<open>Links are safe\<close>

lemma replace_all_skip:
  assumes "m (c # s) = 0"
  shows "fst (replace_all m f (c # s) st) = c # fst (replace_all m f s st)"
    and "snd (replace_all m f (c # s) st) = snd (replace_all m f s st)"
  using assms by (simp_all add: case_prod_unfold Let_def)

lemma replace_all_hit:
  assumes "m s \<noteq> 0" and "s \<noteq> []"
  shows "fst (replace_all m f s st) =
      fst (f (take (m s) s) st) @ fst (replace_all m f (drop (m s) s) (snd (f (take (m s) s) st)))"
    and "snd (replace_all m f s st) = snd (replace_all m f (drop (m s) s) (snd (f (take (m s) s) st)))"
proof -
  obtain c t where "s = c # t" using assms(2) by (cases s) auto
  then show "fst (replace_all m f s st) =
      fst (f (take (m s) s) st) @ fst (replace_all m f (drop (m s) s) (snd (f (take (m s) s) st)))"
    and "snd (replace_all m f s st) = snd (replace_all m f (drop (m s) s) (snd (f (take (m s) s) st)))"
    using assms by (simp_all add: case_prod_unfold Let_def)
qed

lemma replace_all_state:
  assumes step: "\<And>t st. m t \<noteq> 0 \<Longrightarrow> P st \<Longrightarrow> P (snd (f (take (m t) t) st))"
  shows "P st \<Longrightarrow> P (snd (replace_all m f s st))"
proof (induction s arbitrary: st rule: length_induct)
  case (1 s)
  show ?case
  proof (cases s)
    case (Cons c t)
    show ?thesis
    proof (cases "m s = 0")
      case True
      then show ?thesis using 1 Cons by (simp add: replace_all_skip del: replace_all.simps)
    next
      case False
      then have "length (drop (m s) s) < length s" using Cons by simp
      then have "P (snd (replace_all m f (drop (m s) s) (snd (f (take (m s) s) st))))"
        using 1 step [OF False] by blast
      then show ?thesis using False Cons by (simp add: replace_all_hit del: replace_all.simps)
    qed
  qed (use 1 in simp)
qed

lemma replace_all_links:
  assumes mk: "\<And>t. m t \<noteq> 0 \<Longrightarrow> Q (mk (take (m t) t))" and "\<forall>x\<in>set links. Q x"
  shows "\<forall>x\<in>set (snd (replace_all m (put_link mk) s links)). Q x"
  by (rule replace_all_state [where P = "\<lambda>links. \<forall>x\<in>set links. Q x"]) (use assms in \<open>auto simp: put_link_def\<close>)

lemma page_replace_all:
  assumes f: "\<And>w st. page_safe (fst (f w st))"
  shows "CHR ''<'' \<notin> set s \<Longrightarrow> CHR ''>'' \<notin> set s \<Longrightarrow> page_safe (fst (replace_all m f s st))"
proof (induction s arbitrary: st rule: length_induct)
  case (1 s)
  show ?case
  proof (cases s)
    case (Cons c t)
    show ?thesis
    proof (cases "m s = 0")
      case True
      have "page_safe (fst (replace_all m f t st))" using 1 Cons by simp
      then have "page_safe (c # fst (replace_all m f t st))" using 1(2,3) Cons by (intro page_char) auto
      then show ?thesis using True Cons by (simp add: replace_all_skip del: replace_all.simps)
    next
      case False
      have "length (drop (m s) s) < length s" using False Cons by simp
      moreover have "CHR ''<'' \<notin> set (drop (m s) s)" "CHR ''>'' \<notin> set (drop (m s) s)"
        using 1(2,3) set_drop_subset [of "m s" s] by auto
      ultimately have "page_safe (fst (replace_all m f (drop (m s) s) (snd (f (take (m s) s) st))))"
        using 1(1) by blast
      then show ?thesis
        using False Cons page_append [OF f] by (simp add: replace_all_hit del: replace_all.simps)
    qed
  qed (simp add: page_nil)
qed

lemma take_match_after:
  assumes "match_after p ok s \<noteq> 0"
  shows "\<exists>u. take (match_after p ok s) s = p @ u \<and> (\<forall>c\<in>set u. ok c)"
proof -
  obtain t where s: "s = p @ t" using assms by (auto simp: match_after_def HasPrefix_iff split: if_splits)
  then have "match_after p ok s = length p + length (takeWhile ok t)"
    using assms by (auto simp: match_after_def Let_def split: if_splits)
  then have "take (match_after p ok s) s = p @ takeWhile ok t"
    using s by (simp add: takeWhile_eq_take [symmetric])
  then show ?thesis using set_takeWhileD [of _ ok t] by blast
qed

lemma attr_ok_append: "attr_ok (a @ b) = (attr_ok a \<and> attr_ok b)"
  by (auto simp: attr_ok_def)

lemma ii_char_attr: "ii_char c \<Longrightarrow> c \<noteq> DQ \<and> c \<noteq> CHR ''<'' \<and> c \<noteq> CHR ''>''"
  by (auto simp: ii_char_def rx_alnum_def)

lemma ii_link_safe: assumes "ii_len t \<noteq> 0" shows "page_safe (ii_link (take (ii_len t) t))"
proof -
  obtain u where u: "take (ii_len t) t = ''ii://'' @ u" "\<forall>c\<in>set u. ii_char c"
    using take_match_after [of "''ii://''" ii_char t] assms by (auto simp: ii_len_def)
  then have "attr_ok u" using ii_char_attr by (auto simp: attr_ok_def)
  then have "attr_ok (''/'' @ u @ ''#'' @ u)" by (simp add: attr_ok_append) (simp add: attr_ok_def)
  then show ?thesis using u by (simp add: ii_link_def TrimPrefix_def page_anchor)
qed

lemma find_set: "find P xs = Some x \<Longrightarrow> x \<in> set xs"
  by (induction xs) (auto split: if_splits)

lemma url_link_safe:
  assumes "url_len t \<noteq> 0" shows "page_safe (anchor (take (url_len t) t) (take (url_len t) t))"
proof -
  obtain p where p: "find (HasPrefix t) [''http://'', ''ftp://'', ''https://'', ''gemini://''] = Some p"
      "url_len t = match_after p url_byte t"
    using assms by (auto simp: url_len_def split: option.splits)
  have "p \<in> set [''http://'', ''ftp://'', ''https://'', ''gemini://'']" by (rule find_set [OF p(1)])
  moreover have "\<forall>p\<in>set [''http://'', ''ftp://'', ''https://'', ''gemini://'']. attr_ok p"
    by (simp add: attr_ok_def)
  ultimately have "attr_ok p" by blast
  moreover obtain u where "take (url_len t) t = p @ u" "\<forall>c\<in>set u. url_byte c"
    using take_match_after [of p url_byte t] assms p by auto
  ultimately show ?thesis by (intro page_anchor) (auto simp: attr_ok_append attr_ok_def url_byte_def)
qed

lemma msg_esc_safe: "case msg_esc l of Inr r \<Rightarrow> page_safe r | Inl e \<Rightarrow> e = EPanic PIndex"
proof -
  obtain l1 k1 where 1: "replace_all ii_len (put_link ii_link) l [] = (l1, k1)" by fastforce
  obtain l2 k2 where 2: "replace_all url_len (put_link (\<lambda>s. anchor s s)) l1 k1 = (l2, k2)" by fastforce
  have "\<forall>x\<in>set (snd (replace_all ii_len (put_link ii_link) l [])). page_safe x"
    by (rule replace_all_links) (use ii_link_safe in auto)
  then have k1: "\<forall>x\<in>set k1. page_safe x" using 1 by simp
  have "\<forall>x\<in>set (snd (replace_all url_len (put_link (\<lambda>s. anchor s s)) l1 k1)). page_safe x"
    by (rule replace_all_links) (rule url_link_safe, assumption, rule k1)
  then have k2: "\<forall>x\<in>set k2. page_safe x" using 2 by simp
  have "page_safe (fst (get_link k2 w st))" for w st
    using k2 by (simp add: get_link_def Let_def page_nil)
  then have r: "page_safe (fst (replace_all href_len (get_link k2) (str_esc l2) None))"
    by (intro page_replace_all str_esc_plain)
  have "snd (replace_all href_len (get_link k2) (str_esc l2) None) \<in> {None, Some (EPanic PIndex)}"
    by (rule replace_all_state) (auto simp: get_link_def Let_def)
  then show ?thesis using 1 2 r by (auto simp: msg_esc_def split: prod.splits option.splits)
qed

section \<open>Pages are safe\<close>

lemma fixed_short: "''</a>'' \<in> set fixed_tags" "''<br>'' \<in> set fixed_tags"
  by (simp_all add: fixed_tags_def)

lemma attr_ok_file: "attr_ok mid \<Longrightarrow> attr_ok (''/'' @ mid @ ''/base64'')"
  by (simp only: attr_ok_append) (simp add: attr_ok_def)

lemma attach_link_safe:
  assumes "attr_ok mid" shows "page_safe (attach_link mid fname)"
proof -
  have "page_safe (file_tag (''/'' @ mid @ ''/base64'') @ str_esc fname @ ''</a>'' @ ''<br>'' @ [NL])"
    using assms by (intro page_file page_append page_esc page_tag page_nl fixed_short attr_ok_file)
  then show ?thesis by (simp add: attach_link_def file_tag_def)
qed

lemma attr_ok_esc: "DQ \<notin> set s \<Longrightarrow> attr_ok (str_esc s)"
  using set_str_esc [of _ s] str_esc_plain [of s] by (fastforce simp: attr_ok_def)

lemma attach_html_safe:
  assumes "attr_ok mid" and "DQ \<notin> set fname"
  shows "page_safe (attach_html mid fname)"
proof -
  have "page_safe (alt_tag (str_esc fname) (''/'' @ mid @ ''/base64'') @ [NL])"
    using assms by (intro page_alt page_nl attr_ok_esc attr_ok_file)
  then have img: "page_safe (''<img class='' @ [DQ] @ ''img'' @ [DQ] @ '' alt='' @ [DQ] @ str_esc fname @ [DQ] @
      '' src='' @ [DQ] @ ''/'' @ mid @ ''/base64'' @ [DQ] @ ''>'' @ [NL])"
    by (simp add: alt_tag_def)
  have "page_safe (attach_link mid fname @ r)" if "page_safe r" for r
    by (intro page_append attach_link_safe assms(1) that)
  from this [OF img] this [OF attach_link_safe [OF assms(1)]] show ?thesis
    by (cases "HasSuffix fname ''.png'' \<or> HasSuffix fname ''.jpg'' \<or> HasSuffix fname ''.gif''")
      (simp_all only: attach_html_def if_True if_False simp_thms)
qed

lemma attr_ok_std: "attr_ok (StdEncode data)"
proof -
  have "DQ \<notin> set (StdEncode data)" "CHR ''<'' \<notin> set (StdEncode data)" "CHR ''>'' \<notin> set (StdEncode data)"
    by (rule StdEncode_avoids; simp add: b64_std_def)+
  then show ?thesis by (auto simp: attr_ok_def)
qed

lemma img_html_safe: "page_safe (img_html data)"
proof -
  have "attr_ok (''data:image/png;base64,'' @ StdEncode data)"
    by (simp only: attr_ok_append attr_ok_std) (simp add: attr_ok_def)
  then have "page_safe (img_tag (''data:image/png;base64,'' @ StdEncode data) @ ''<br>'' @ [NL])"
    by (intro page_img page_append page_tag page_nl fixed_short)
  then show ?thesis by (simp add: img_html_def img_tag_def)
qed

lemma html_Inr: "html r = Inr (Html t) \<Longrightarrow> r = Inr t"
  by (auto simp: html_def split: sum.splits)

lemma html_not_attached: "html r \<noteq> Inr (Attached n)" "html r \<noteq> Inr (Picture d k)"
  by (auto simp: html_def split: sum.splits)

lemma line_html_safe: "line_html png l ls = Inr (Html t) \<Longrightarrow> page_safe t"
proof -
  assume h: "line_html png l ls = Inr (Html t)"
  have esc: "html (msg_esc l) = Inr (Html t) \<Longrightarrow> page_safe t"
    using msg_esc_safe [of l] by (drule_tac html_Inr) simp
  have "picture png l ls = Inr (Html t) \<Longrightarrow> page_safe t"
    using esc by (simp add: picture_def split: sum.splits prod.splits option.splits)
  then show ?thesis
    using h esc page_span by (simp add: line_html_def split: if_splits) auto
qed

lemma line_html_attached:
  assumes "line_html png l ls = Inr (Attached n)"
  shows "n = attach_name l \<and> HasPrefix l ''@base64:''"
proof -
  have "picture png l ls \<noteq> Inr (Attached n)"
    by (auto simp: picture_def html_not_attached split: sum.splits prod.splits option.splits)
  then show ?thesis using assms by (simp add: line_html_def html_not_attached split: if_splits)
qed

lemma DQ_attach_name: "DQ \<notin> set l \<Longrightarrow> DQ \<notin> set (attach_name l)"
proof -
  assume "DQ \<notin> set l"
  then have "DQ \<notin> set (TrimPrefix l ''@base64:'')" using set_drop_subset [of _ l] by (auto simp: TrimPrefix_def)
  then have "DQ \<notin> set (Trim (TrimPrefix l ''@base64:'') '' '')" using set_Trim by blast
  then show ?thesis by (simp add: attach_name_def Let_def)
qed

lemma trunc_loop_safe:
  assumes mid: "attr_ok mid" and over: "page_safe over"
  shows "\<lbrakk>\<forall>l\<in>set ls. HasPrefix l ''@base64:'' \<longrightarrow> DQ \<notin> set l; page_safe f;
      trunc_loop png mid maxlen over ls skip pre f = Inr r\<rbrakk> \<Longrightarrow> page_safe r"
proof (induction ls arbitrary: skip pre f)
  case Nil
  then show ?case using page_append [OF Nil(2) page_pre(2)] by (auto split: if_splits)
next
  case (Cons l ls)
  note IH = Cons.IH [rotated 2]
  have ls: "\<forall>l\<in>set ls. HasPrefix l ''@base64:'' \<longrightarrow> DQ \<notin> set l" using Cons.prems(1) by simp
  show ?case
  proof (cases "skip > 0 \<or> Trim l '' '' = ''====''")
    case True
    then show ?thesis
      using Cons.prems(2,3) IH ls by (simp only: trunc_loop.simps split: if_splits) (blast intro: page_append page_pre)+
  next
    case out: False
    show ?thesis
    proof (cases pre)
      case True
      have "page_safe (f @ str_esc l @ [NL])" using Cons.prems(2) by (intro page_append page_esc page_nl)
      moreover from this have "page_safe ((f @ str_esc l @ [NL]) @ pre_close @ over @ br)"
        using over Cons.prems(2) by (intro page_append page_esc page_nl page_pre page_br)
      ultimately show ?thesis
        using Cons.prems(3) IH ls out True by (auto simp: Let_def split: if_splits)
    next
      case False
      note run = Cons.prems(3) out False
      show ?thesis
      proof (cases "line_html png l ls")
        case (Inl e)
        then show ?thesis using run by simp
      next
        case (Inr s)
        show ?thesis
        proof (cases s)
          case (Html t)
          then have t: "page_safe (f @ t)" using line_html_safe Inr Cons.prems(2) by (auto intro: page_append)
          have "page_safe ((f @ t) @ over @ br)" "page_safe ((f @ t) @ br)"
            by (rule page_append [OF t page_append [OF over page_br]], rule page_append [OF t page_br])
          then show ?thesis using run Inr Html IH ls by (auto simp: Let_def split: if_splits)
        next
          case (Picture d n)
          have "page_safe (f @ img_html d)" using Cons.prems(2) by (intro page_append img_html_safe)
          then show ?thesis using run Inr Picture IH ls by auto
        next
          case (Attached n)
          then have "n = attach_name l" "HasPrefix l ''@base64:''" using line_html_attached Inr by auto
          then have "DQ \<notin> set n" using Cons.prems(1) DQ_attach_name by simp
          then have "page_safe (f @ attach_html mid n)"
            using mid Cons.prems(2) by (intro page_append attach_html_safe)
          then show ?thesis using run Inr Attached by auto
        qed
      qed
    qed
  qed
qed

end
