(* ===== verification/II_Links.thy ===== *)
theory II_Links
  imports II_Render
begin

text \<open>
  The links of a line (\<^verbatim>\<open>msg_esc\<close>): on a line without an opening brace every placeholder that is read
  back was written before, so the table of links is never read out of its bounds.
\<close>

section \<open>Lines as tokens\<close>

text \<open>A line between the passes: its characters and the placeholders put into it.\<close>

lemma no_digits [simp]:
  "\<not> is_digit CHR ''<''" "\<not> is_digit CHR ''>''" "\<not> is_digit DQ" "\<not> is_digit CHR ''}''"
  "\<not> is_digit CHR ''i''" "\<not> is_digit CHR ''h''" "\<not> is_digit CHR ''f''" "\<not> is_digit CHR ''g''"
  "\<not> is_digit CHR ''&''"
  by (simp_all add: is_digit_def)

datatype tok = Ch char | Ln nat

fun tok_text :: "tok \<Rightarrow> string" where
  "tok_text (Ch c) = [c]"
| "tok_text (Ln n) = href n"

definition spell :: "tok list \<Rightarrow> string" where
  "spell ts = concat (map tok_text ts)"

fun tok_ok :: "nat \<Rightarrow> tok \<Rightarrow> bool" where
  "tok_ok k (Ch c) = (c \<noteq> CHR ''{'')"
| "tok_ok k (Ln n) = (n < k)"

lemma spell_simps [simp]:
  "spell [] = []" "spell (Ch c # ts) = c # spell ts" "spell (Ln n # ts) = href n @ spell ts"
  "spell (a @ b) = spell a @ spell b"
  by (simp_all add: spell_def)

lemma spell_chars: "spell (map Ch s) = s"
  by (induction s) auto

lemma href_chars: "c \<in> set (href n) \<Longrightarrow> c \<in> set ''{href=}'' \<or> is_digit c"
  by (auto simp: href_def itoa_def dest: utoa_digits)

lemma href_Cons: "\<exists>t. href n = CHR ''{'' # t"
  by (simp add: href_def)

lemma tok_ok_mono: "tok_ok k t \<Longrightarrow> k \<le> k' \<Longrightarrow> tok_ok k' t"
  by (cases t) auto

lemma spell_prefix:
  assumes "HasPrefix (spell ts) p" and "CHR ''{'' \<notin> set p"
  shows "\<exists>us. ts = map Ch p @ us"
  using assms
proof (induction p arbitrary: ts)
  case (Cons x p)
  show ?case
  proof (cases ts)
    case (Cons t us)
    then obtain c where t: "t = Ch c"
      using Cons.prems href_Cons by (cases t) (auto, metis HasPrefix.simps(3) append_Cons)
    then have "c = x" "HasPrefix (spell us) p" using Cons Cons.prems by auto
    then show ?thesis using Cons.IH [of us] Cons.prems Cons t by auto
  qed (use Cons.prems in simp)
qed simp

fun tok_all :: "(char \<Rightarrow> bool) \<Rightarrow> tok \<Rightarrow> bool" where
  "tok_all ok (Ch c) = ok c"
| "tok_all ok (Ln n) = ok (CHR ''{'')"

lemma takeWhile_spell:
  assumes "ok (CHR ''{'') \<Longrightarrow> (\<forall>c. c \<in> set ''{href=}'' \<or> is_digit c \<longrightarrow> ok c)"
  shows "takeWhile ok (spell ts) = spell (takeWhile (tok_all ok) ts)"
proof (induction ts)
  case (Cons t ts)
  show ?case
  proof (cases t)
    case (Ch c)
    then show ?thesis using Cons by simp
  next
    case (Ln n)
    show ?thesis
    proof (cases "ok (CHR ''{'')")
      case True
      then have "\<forall>c\<in>set (href n). ok c" using assms href_chars by blast
      then have "takeWhile ok (href n @ spell ts) = href n @ takeWhile ok (spell ts)" by simp
      then show ?thesis using Ln Cons True by simp
    next
      case False
      then show ?thesis using Ln href_Cons [of n] by auto
    qed
  qed
qed simp

section \<open>Putting placeholders\<close>

text \<open>A matcher that starts with one of four pairs of letters and takes whole tokens.\<close>

definition pair_start :: "string \<Rightarrow> bool" where
  "pair_start s = (HasPrefix s ''ii'' \<or> HasPrefix s ''ht'' \<or> HasPrefix s ''ft'' \<or> HasPrefix s ''ge'')"

definition whole :: "(string \<Rightarrow> nat) \<Rightarrow> bool" where
  "whole m = ((\<forall>s. m s \<noteq> 0 \<longrightarrow> pair_start s) \<and>
     (\<forall>ts. m (spell ts) \<noteq> 0 \<longrightarrow> (\<exists>us vs. ts = us @ vs \<and> us \<noteq> [] \<and> m (spell ts) = length (spell us))))"

lemma whole_after:
  assumes "p \<in> {''ii://'', ''http://'', ''ftp://'', ''https://'', ''gemini://''}"
    and "ok (CHR ''{'') \<Longrightarrow> (\<forall>c. c \<in> set ''{href=}'' \<or> is_digit c \<longrightarrow> ok c)"
    and m: "match_after p ok (spell ts) \<noteq> 0"
  shows "\<exists>us vs. ts = us @ vs \<and> us \<noteq> [] \<and> match_after p ok (spell ts) = length (spell us)"
proof -
  have p: "CHR ''{'' \<notin> set p" "p \<noteq> []" using assms(1) by auto
  have "HasPrefix (spell ts) p" using m by (auto simp: match_after_def split: if_splits)
  then obtain ws where ws: "ts = map Ch p @ ws" using spell_prefix p by blast
  let ?us = "map Ch p @ takeWhile (tok_all ok) ws"
  have "match_after p ok (spell ts) = length (spell ?us)"
    using m takeWhile_spell [OF assms(2), of ws]
    by (auto simp: match_after_def ws spell_chars Let_def HasPrefix_iff split: if_splits)
  moreover have "ts = ?us @ dropWhile (tok_all ok) ws" using ws by simp
  moreover have "?us \<noteq> []" using p by simp
  ultimately show ?thesis by blast
qed

lemma whole_ii: "whole ii_len"
proof -
  have no: "\<not> ii_char CHR ''{''" by (simp add: ii_char_def rx_alnum_def)
  have "pair_start s" if "ii_len s \<noteq> 0" for s
    using that by (auto simp: ii_len_def match_after_def pair_start_def HasPrefix_iff split: if_splits)
  moreover have "\<exists>us vs. ts = us @ vs \<and> us \<noteq> [] \<and> ii_len (spell ts) = length (spell us)"
    if "ii_len (spell ts) \<noteq> 0" for ts
    using that whole_after [of "''ii://''" ii_char ts] no by (simp add: ii_len_def)
  ultimately show ?thesis by (simp add: whole_def)
qed

lemma whole_url: "whole url_len"
proof -
  have ok: "\<forall>c. c \<in> set ''{href=}'' \<or> is_digit c \<longrightarrow> url_byte c" by (auto simp: url_byte_def)
  have p: "\<exists>p. p \<in> {''ii://'', ''http://'', ''ftp://'', ''https://'', ''gemini://''} \<and>
      HasPrefix s p \<and> url_len s = match_after p url_byte s" if "url_len s \<noteq> 0" for s
    using that by (auto simp: url_len_def split: if_splits)
  have "pair_start s" if "url_len s \<noteq> 0" for s
    using p [OF that] by (auto simp: pair_start_def HasPrefix_iff)
  moreover have "\<exists>us vs. ts = us @ vs \<and> us \<noteq> [] \<and> url_len (spell ts) = length (spell us)"
    if "url_len (spell ts) \<noteq> 0" for ts
    using p [OF that] that whole_after [of _ url_byte ts] ok by metis
  ultimately show ?thesis by (simp add: whole_def)
qed

lemma no_start:
  assumes "whole m" and "\<not> pair_start s"
  shows "m s = 0"
  using assms by (auto simp: whole_def)

lemma skip_word:
  assumes "whole m" and "\<forall>c\<in>set w. is_digit c \<or> c = CHR ''}''"
  shows "replace_all m f (w @ s) st = (w @ fst (replace_all m f s st), snd (replace_all m f s st))"
  using assms(2)
proof (induction w)
  case (Cons c w)
  then have "m (c # w @ s) = 0" by (intro no_start [OF assms(1)]) (auto simp: pair_start_def)
  then show ?case using Cons by simp
qed simp

lemma skip_href:
  assumes m: "whole m"
  shows "replace_all m f (href n @ s) st = (href n @ fst (replace_all m f s st), snd (replace_all m f s st))"
proof -
  let ?w = "itoa (int n) @ ''}}}''"
  obtain d w where d: "?w = d # w" by (cases "?w") auto
  have digits: "\<forall>c\<in>set ?w. is_digit c \<or> c = CHR ''}''" by (auto simp: itoa_def utoa_digits)
  have no: "\<And>s. \<not> pair_start s \<Longrightarrow> m s = 0" using no_start [OF m] .
  have "m (''{{{href='' @ x) = 0" "m (''{{href='' @ x) = 0" "m (''{href='' @ x) = 0" "m (''href='' @ x) = 0"
    "m (''ref='' @ x) = 0" "m (''ef='' @ x) = 0" "m (''f='' @ x) = 0" "m (''='' @ x) = 0" for x
    by (rule no; simp add: pair_start_def)+
  then have "replace_all m f (''{{{href='' @ ?w @ s) st =
      (''{{{href='' @ fst (replace_all m f (?w @ s) st), snd (replace_all m f (?w @ s) st))"
    by (simp add: case_prod_unfold Let_def)
  then show ?thesis using skip_word [OF m digits, of f s st] by (simp add: href_def)
qed

lemma put_links:
  assumes m: "whole m"
  shows "\<forall>t\<in>set ts. tok_ok (length links) t \<Longrightarrow>
    \<exists>us links'. replace_all m (put_link mk) (spell ts) links = (spell us, links') \<and>
      length links \<le> length links' \<and> (\<forall>t\<in>set us. tok_ok (length links') t)"
proof (induction ts arbitrary: links rule: length_induct)
  case (1 ts)
  show ?case
  proof (cases ts)
    case Nil
    then show ?thesis using 1 by (intro exI [of _ "[]"] exI [of _ links]) simp
  next
    case (Cons t rs)
    then have rs: "\<forall>t\<in>set rs. tok_ok (length links) t" using 1 by simp
    obtain us links' where us: "replace_all m (put_link mk) (spell rs) links = (spell us, links')"
        "length links \<le> length links'" "\<forall>t\<in>set us. tok_ok (length links') t"
      using 1 Cons rs by (metis length_Cons lessI)
    show ?thesis
    proof (cases t)
      case (Ln n)
      then have "n < length links" using 1 Cons by simp
      then show ?thesis
        using Cons Ln us skip_href [OF m, of "put_link mk" n "spell rs" links]
        by (intro exI [of _ "Ln n # us"] exI [of _ links']) auto
    next
      case (Ch c)
      show ?thesis
      proof (cases "m (spell ts) = 0")
        case True
        then show ?thesis
          using Cons Ch us 1 by (intro exI [of _ "Ch c # us"] exI [of _ links']) auto
      next
        case False
        then obtain as bs where ab: "ts = as @ bs" "as \<noteq> []" "m (spell ts) = length (spell as)"
          using m unfolding whole_def by blast
        let ?links = "links @ [mk (spell as)]"
        have "\<forall>t\<in>set bs. tok_ok (length ?links) t" using 1 ab tok_ok_mono by fastforce
        moreover have "length bs < length ts" using ab by simp
        ultimately obtain vs links2 where vs: "replace_all m (put_link mk) (spell bs) ?links = (spell vs, links2)"
            "length ?links \<le> length links2" "\<forall>t\<in>set vs. tok_ok (length links2) t"
          using 1 by metis
        have "spell ts \<noteq> []" using Cons Ch by simp
        moreover have "take (length (spell as)) (spell ts) = spell as" "drop (length (spell as)) (spell ts) = spell bs"
          using ab(1) by simp_all
        ultimately have "replace_all m (put_link mk) (spell ts) links = (spell (Ln (length links) # vs), links2)"
          using replace_all_hit [of m "spell ts" "put_link mk" links] False vs ab(3)
          by (simp add: prod_eq_iff put_link_def)
        then show ?thesis
          using vs by (intro exI [of _ "Ln (length links) # vs"] exI [of _ links2]) auto
      qed
    qed
  qed
qed

section \<open>Reading them back\<close>

lemma str_esc_same: "\<forall>c\<in>set s. c \<noteq> CHR ''&'' \<and> c \<noteq> CHR ''<'' \<and> c \<noteq> CHR ''>'' \<Longrightarrow> str_esc s = s"
  by (induction s) (simp_all add: str_esc_chars esc_char_def)

lemma esc_tokens:
  "\<forall>t\<in>set ts. tok_ok k t \<Longrightarrow> \<exists>us. str_esc (spell ts) = spell us \<and> (\<forall>t\<in>set us. tok_ok k t)"
proof (induction ts)
  case Nil
  then show ?case by (intro exI [of _ "[]"]) (simp add: str_esc_chars)
next
  case (Cons t ts)
  then obtain us where us: "str_esc (spell ts) = spell us" "\<forall>t\<in>set us. tok_ok k t" by auto
  show ?case
  proof (cases t)
    case (Ch c)
    then have "\<forall>t\<in>set (map Ch (esc_char c) @ us). tok_ok k t" using Cons.prems us by (auto simp: esc_char_def)
    moreover have "str_esc (spell (t # ts)) = spell (map Ch (esc_char c) @ us)"
      using Ch us by (simp add: str_esc_chars spell_chars)
    ultimately show ?thesis by blast
  next
    case (Ln n)
    have "\<forall>c\<in>set (href n). c \<noteq> CHR ''&'' \<and> c \<noteq> CHR ''<'' \<and> c \<noteq> CHR ''>''"
      using href_chars [of _ n] by force
    then have "str_esc (href n) = href n" by (rule str_esc_same)
    then have "str_esc (spell (t # ts)) = spell (Ln n # us)" using Ln us by (simp add: str_esc_append)
    then show ?thesis using Cons.prems Ln us by (intro exI [of _ "Ln n # us"]) auto
  qed
qed

lemma sscan_d_itoa_over:
  assumes "\<not> in_range w i" and "rest = [] \<or> \<not> is_digit (hd rest)" and "i \<ge> 0"
  shows "sscan_d w (itoa i @ rest) = None"
proof -
  let ?u = "utoa (nat \<bar>i\<bar>)"
  have digits: "\<forall>c\<in>set ?u. is_digit c" by (simp add: utoa_digits)
  have tw: "takeWhile is_digit (?u @ rest) = ?u"
    using assms(2) digits by (cases rest) (simp_all add: takeWhile_id_append)
  obtain x xs where u: "?u = x # xs" by (cases ?u) auto
  then have x: "is_digit x" using digits by simp
  then have xs: "x \<noteq> CHR ''-''" "x \<noteq> CHR ''+''" by auto
  have "skip_space (length (itoa i @ rest)) (itoa i @ rest) = Some (itoa i @ rest)"
    using x u by (intro skip_space_number) (auto simp: itoa_def split: if_splits)
  then show ?thesis
    using assms(1,3) tw digits_val_utoa [of "nat \<bar>i\<bar>"] u xs by (auto simp: sscan_d_def itoa_def Let_def)
qed

lemma href_len_href: "href_len (href n @ s) = length (href n)"
proof -
  have "\<forall>c\<in>set (itoa (int n)). is_digit c" by (auto simp: itoa_def utoa_digits)
  then have "takeWhile is_digit (itoa (int n) @ ''}}}'' @ s) = itoa (int n)" by (simp add: takeWhile_append2 list_all_iff)
  then show ?thesis by (simp add: href_len_def href_def match_after_def Let_def)
qed

lemma href_index_href: "n < k \<Longrightarrow> href_index (href n) < k"
proof (cases "in_range 64 (int n)")
  case True
  assume "n < k"
  then show ?thesis
    using sscan_d_itoa [OF True, of "''}}}''"] by (simp add: href_index_def href_def)
next
  case False
  assume "n < k"
  then show ?thesis
    using sscan_d_itoa_over [OF False, of "''}}}''"] by (simp add: href_index_def href_def)
qed

lemma get_links:
  "\<forall>t\<in>set ts. tok_ok (length links) t \<Longrightarrow> snd (replace_all href_len (get_link links) (spell ts) None) = None"
proof (induction ts)
  case (Cons t ts)
  show ?case
  proof (cases t)
    case (Ch c)
    then have "href_len (c # spell ts) = 0" using Cons.prems by (simp add: href_len_def match_after_def)
    then show ?thesis using Ch Cons by (simp add: case_prod_unfold Let_def)
  next
    case (Ln n)
    then have n: "href_index (href n) < length links" using Cons.prems href_index_href by simp
    have "href n @ spell ts \<noteq> []" "length (href n) \<noteq> 0" by (simp_all add: href_def)
    then show ?thesis
      using Ln Cons n replace_all_hit(2) [of href_len "href n @ spell ts" "get_link links" None]
      by (simp add: href_len_href get_link_def [of links "href n"] Let_def)
  qed
qed simp

text \<open>No line without an opening brace makes \<^verbatim>\<open>msg_esc\<close> fail.\<close>

lemma msg_esc_total: "CHR ''{'' \<notin> set l \<Longrightarrow> \<exists>r. msg_esc l = Inr r"
proof -
  assume l: "CHR ''{'' \<notin> set l"
  then have "\<forall>t\<in>set (map Ch l). tok_ok (length ([] :: string list)) t" by auto
  from put_links [OF whole_ii this, of ii_link] obtain ts k1 where
    1: "replace_all ii_len (put_link ii_link) l [] = (spell ts, k1)" "\<forall>t\<in>set ts. tok_ok (length k1) t"
    by (auto simp: spell_chars)
  from put_links [OF whole_url 1(2), of "\<lambda>s. anchor s s"] obtain us k2 where
    2: "replace_all url_len (put_link (\<lambda>s. anchor s s)) (spell ts) k1 = (spell us, k2)"
      "\<forall>t\<in>set us. tok_ok (length k2) t"
    by auto
  from esc_tokens [OF 2(2)] obtain vs where 3: "str_esc (spell us) = spell vs" "\<forall>t\<in>set vs. tok_ok (length k2) t"
    by auto
  have "snd (replace_all href_len (get_link k2) (str_esc (spell us)) None) = None"
    using get_links [OF 3(2)] 3(1) by simp
  then obtain r where "replace_all href_len (get_link k2) (str_esc (spell us)) None = (r, None)"
    by (metis prod.collapse)
  then show ?thesis using 1(1) 2(1) by (simp add: msg_esc_def)
qed

section \<open>Whole pages\<close>

text \<open>A line that neither starts a picture nor has an opening brace is shown.\<close>

definition tame :: "string \<Rightarrow> bool" where
  "tame l = (CHR ''{'' \<notin> set l \<and> \<not> starts [''/* XPM */'', ''! XPM2''] l)"

lemma line_html_total: "tame l \<Longrightarrow> \<exists>s. line_html png l ls = Inr s \<and> (\<forall>d n. s \<noteq> Picture d n)"
  using msg_esc_total [of l] by (auto simp: tame_def line_html_def html_def)

lemma trunc_loop_total: "\<forall>l\<in>set ls. tame l \<Longrightarrow> \<exists>r. trunc_loop png mid maxlen over ls skip pre f = Inr r"
proof (induction ls arbitrary: skip pre f)
  case (Cons l ls)
  then obtain s where s: "line_html png l ls = Inr s" using line_html_total by fastforce
  have IH: "\<exists>r. trunc_loop png mid maxlen over ls k q g = Inr r" for k q g using Cons by simp
  show ?case using s IH by (cases s) (auto simp: Let_def)
qed simp

lemma Ball_Replace: "\<forall>x\<in>set s. P x \<Longrightarrow> \<forall>x\<in>set r. P x \<Longrightarrow> \<forall>x\<in>set (Replace c r s). P x"
  by (induction s) (auto simp: Replace_Cons)

lemma attr_ok_Replace: "attr_ok s \<Longrightarrow> attr_ok r \<Longrightarrow> attr_ok (Replace c r s)"
  unfolding attr_ok_def by (rule Ball_Replace)

lemma attr_ok_MsgId: "attr_ok (MsgId t)"
proof -
  have "attr_ok (Replace (CHR ''/'') ''Z'' (Replace (CHR ''+'') ''A'' (StdEncode (Sum256 t))))"
    by (intro attr_ok_Replace attr_ok_std) (simp_all add: attr_ok_def)
  then show ?thesis unfolding MsgId_def Let_def attr_ok_def by (meson in_set_takeD)
qed

end
