(* ===== verification/II_Pages.thy ===== *)
theory II_Pages
  imports II_Topics II_Node II_Links
begin

text \<open>
  The reading side of the web interface (\<^verbatim>\<open>ii-node/web.go\<close>): the context of a request, the pager, and the
  handlers that list areas, messages, topics and feeds. A handler takes the node and the context and
  returns them with its reply; a template is the name \<open>c_Template\<close> of the context it is executed on.
\<close>

section \<open>Requests, contexts and replies\<close>

text \<open>
  What the handlers use of the world: the clock and its printed form, the compiler of expressions, the
  encoder of PNG files, the order in which Go ranges over the map of areas and of topics, the fuel of
  \<^verbatim>\<open>GetTopics\<close>, a query to a whois server, and lower case letters outside ASCII.
\<close>

record World =
  w_now :: int
  w_format :: "int \<Rightarrow> string"
  w_compile :: "string \<Rightarrow> (string \<Rightarrow> bool) option"
  w_png :: "image \<Rightarrow> string option"
  w_order :: "string list \<Rightarrow> string list"
  w_keys :: "(string \<rightharpoonup> string list) \<Rightarrow> string list"
  w_fuel :: nat
  w_whois :: "string \<Rightarrow> string \<Rightarrow> string option"
  w_lower :: "string \<Rightarrow> string"

record Req =
  r_Method :: string
  r_Path :: string
  r_Form :: "(string \<Rightarrow> string) option"
  r_Cookie :: "string option"
  r_Forwarded :: string
  r_RemoteAddr :: string
  r_Referer :: string

record Topic =
  tp_Ids :: "string list"
  tp_Count :: nat
  tp_Last :: MsgInfo
  tp_Head :: "Msg option"
  tp_Tail :: "Msg option"

record Ctx =
  c_Echoes :: "Echo list"
  c_Topics :: "Topic list"
  c_Topic :: string
  c_Msg :: "Msg list"
  c_Error :: "ii_error option"
  c_Echo :: string
  c_PfxPath :: string
  c_Page :: int
  c_Pages :: int
  c_Pager :: "int list"
  c_BasePath :: string
  c_User :: User
  c_Admin :: User
  c_Selected :: string
  c_Template :: string
  c_Ref :: string
  c_Info :: string
  c_Sysname :: string
  c_Host :: string
  c_Ip :: string

definition new_ctx :: Ctx where
  "new_ctx = \<lparr>c_Echoes = [], c_Topics = [], c_Topic = [], c_Msg = [], c_Error = None, c_Echo = [],
     c_PfxPath = [], c_Page = 0, c_Pages = 0, c_Pager = [], c_BasePath = [], c_User = nil_user,
     c_Admin = nil_user, c_Selected = [], c_Template = [], c_Ref = [], c_Info = [], c_Sysname = [],
     c_Host = [], c_Ip = []\<rparr>"

text \<open>
  What a handler sends: nothing, the page of the template on the context, a redirection, a redirection
  with a new cookie, bytes with a name for an attachment, a picture, text, or the answer 404.
\<close>

datatype Reply =
    Nothing | Page | Redirect string | SetCookie string string | Download "string option" string
  | Image string | Body string | NotFound

type_synonym outcome = "Node \<times> Ctx \<times> (ii_error + Reply)"

definition render :: "string \<Rightarrow> Node \<Rightarrow> Ctx \<Rightarrow> outcome" where
  "render tpl node ctx = (node, ctx\<lparr>c_Template := tpl\<rparr>, Inr Page)"

definition fail :: "ii_error \<Rightarrow> Node \<Rightarrow> Ctx \<Rightarrow> outcome" where
  "fail e node ctx = (node, ctx, Inl e)"

section \<open>The pager\<close>

definition PAGE_SIZE :: nat where "PAGE_SIZE = 50"
definition PAGER_RANGE :: int where "PAGER_RANGE = 10"

definition pager_step :: "int \<Rightarrow> int \<Rightarrow> int list \<Rightarrow> int \<Rightarrow> int list" where
  "pager_step pages page pager i =
     (if i = 1 \<or> \<bar>wrap64 (i - page)\<bar> \<le> PAGER_RANGE \<or> i = pages then pager @ [i]
      else if last pager \<noteq> 0 then pager @ [0]
      else pager)"

text \<open>The page to show: 0 is the first, a negative page counts from the end.\<close>

definition makePager :: "Ctx \<Rightarrow> nat \<Rightarrow> int \<Rightarrow> int \<times> Ctx" where
  "makePager ctx count page =
     (let pages = int (count div PAGE_SIZE);
          pages = (if count mod PAGE_SIZE \<noteq> 0 then pages + 1 else pages);
          page = (if page = 0 then page + 1 else if page < 0 then wrap64 (pages + page + 1) else page);
          start = wrap64 ((page - 1) * int PAGE_SIZE);
          (start, page) = (if start < 0 then (0, 1) else (start, page));
          ctx = ctx\<lparr>c_Pages := pages, c_Page := page\<rparr>
      in (start, if pages > 1 then ctx\<lparr>c_Pager := c_Pager ctx @ foldl (pager_step pages page) [] [1..pages]\<rparr>
                 else ctx))"

section \<open>Lists of messages\<close>

text \<open>
  The loop of the lists: at most \<open>nr\<close> messages; an id without a message is skipped. The first form
  reads the index before each message, the second does not.
\<close>

fun fill :: "DB \<Rightarrow> string list \<Rightarrow> nat \<Rightarrow> DB \<times> Msg list" where
  "fill db [] nr = (db, [])"
| "fill db (mid # ids) nr =
     (if nr = 0 then (db, [])
      else (case Get db mid of
        (db, None) \<Rightarrow> fill db ids nr
      | (db, Some m) \<Rightarrow> (case fill db ids (nr - 1) of (db, ms) \<Rightarrow> (db, m # ms))))"

fun fill_fast :: "DB \<Rightarrow> string list \<Rightarrow> nat \<Rightarrow> Msg list" where
  "fill_fast db [] nr = []"
| "fill_fast db (mid # ids) nr =
     (if nr = 0 then []
      else (case GetFast db mid of
        None \<Rightarrow> fill_fast db ids nr
      | Some m \<Rightarrow> m # fill_fast db ids (nr - 1)))"

definition Select :: "Ctx \<Rightarrow> Query \<Rightarrow> DB \<Rightarrow> DB \<times> (ii_error + string list)" where
  "Select ctx q db = SelectIDS db (q\<lparr>q_User := c_User ctx\<rparr>)"

fun position :: "(string \<Rightarrow> bool) \<Rightarrow> string list \<Rightarrow> nat option" where
  "position P [] = None"
| "position P (x # xs) = (if P x then Some 0 else map_option Suc (position P xs))"

text \<open>The page of the selected message, else the last page.\<close>

definition page_of :: "string \<Rightarrow> string list \<Rightarrow> int" where
  "page_of sel ids =
     (case position (\<lambda>i. i = sel) ids of
        Some k \<Rightarrow> int (k div PAGE_SIZE + 1)
      | None \<Rightarrow> (if ids = [] then 1 else int ((length ids - 1) div PAGE_SIZE + 1)))"

section \<open>Feeds\<close>

definition quoted :: "string \<Rightarrow> string" where "quoted s = [DQ] @ s @ [DQ]"

definition rss_head :: "string \<Rightarrow> string \<Rightarrow> string \<Rightarrow> string" where
  "rss_head topic host base =
     ''<?xml version='' @ quoted ''1.0'' @ '' encoding='' @ quoted ''UTF-8'' @ ''?>'' @ [NL, TAB] @
     ''<rss version='' @ quoted ''2.0'' @ [NL, TAB] @
     ''xmlns:content='' @ quoted ''http://purl.org/rss/1.0/modules/content/'' @ [NL, TAB] @
     ''xmlns:dc='' @ quoted ''http://purl.org/dc/elements/1.1/'' @ [NL, TAB] @
     ''xmlns:media='' @ quoted ''http://search.yahoo.com/mrss/'' @ [NL, TAB] @
     ''xmlns:atom='' @ quoted ''http://www.w3.org/2005/Atom'' @ [NL, TAB] @
     ''xmlns:georss='' @ quoted ''http://www.georss.org/georss'' @ ''>'' @ [NL, TAB] @
     ''<channel>'' @ [NL, TAB] @
     ''<title>'' @ str_esc topic @ ''</title>'' @ [NL, TAB] @
     ''<link>'' @ host @ ''/'' @ base @ ''</link>'' @ [NL, TAB] @
     ''<description>'' @ [NL, TAB] @
     str_esc topic @ [NL, TAB] @
     ''</description>'' @ [NL, TAB] @
     ''<language>ru</language>'' @ [NL]"

definition rss_item :: "World \<Rightarrow> Ctx \<Rightarrow> Msg \<Rightarrow> ii_error + string" where
  "rss_item w ctx m =
     (case msg_text (w_png w) (Some m) of
        Inl e \<Rightarrow> Inl e
      | Inr page \<Rightarrow> Inr (
          ''<item><title>'' @ str_esc (m_Subj m) @ ''</title><guid>'' @ m_MsgId m @ ''</guid><pubDate>'' @
          w_format w (m_Date m) @ ''</pubDate><author>'' @ str_esc (m_From m) @ ''</author><link>'' @
          c_Host ctx @ c_PfxPath ctx @ ''/'' @ m_MsgId m @ ''#'' @ m_MsgId m @ ''</link>'' @ [NL, TAB, TAB] @
          ''<description>'' @ [NL, TAB, TAB] @
          str_esc (trunc (m_Text m) 280) @ ''...'' @ [NL, TAB, TAB] @
          ''</description>'' @ [NL, TAB, TAB] @
          ''<content:encoded>'' @ [NL] @
          ''<![CDATA['' @ [NL] @
          m_From m @ '' -> '' @ m_To m @ ''<br><br>'' @ [NL] @
          page @ [NL] @
          '']]>'' @ [NL] @
          ''</content:encoded></item>'' @ [NL]))"

fun rss_items :: "World \<Rightarrow> Ctx \<Rightarrow> Msg list \<Rightarrow> ii_error + string" where
  "rss_items w ctx [] = Inr (''</channel></rss>'' @ [NL])"
| "rss_items w ctx (m # ms) =
     (case rss_item w ctx m of
        Inl e \<Rightarrow> Inl e
      | Inr s \<Rightarrow> (case rss_items w ctx ms of Inl e \<Rightarrow> Inl e | Inr t \<Rightarrow> Inr (s @ t)))"

section \<open>Handlers\<close>

definition www_index :: "World \<Rightarrow> Node \<Rightarrow> Ctx \<Rightarrow> outcome" where
  "www_index w node ctx =
     (case Echoes (w_order w) (nd_db node) None (nil_query\<lparr>q_User := c_User ctx\<rparr>) of
        (db, es) \<Rightarrow> render ''index.tpl'' (upd_db node db) (ctx\<lparr>c_Echoes := es\<rparr>))"

definition www_forum :: "World \<Rightarrow> Node \<Rightarrow> Ctx \<Rightarrow> outcome" where
  "www_forum w node ctx =
     (case Echoes (w_order w) (nd_db node) None (nil_query\<lparr>q_User := c_User ctx\<rparr>) of
        (db, es) \<Rightarrow> render ''forum.tpl'' (upd_db node db) (ctx\<lparr>c_Echoes := es\<rparr>))"

text \<open>
  \<^verbatim>\<open>www_query\<close>: newest first when the query counts from the end.
\<close>

definition www_query :: "World \<Rightarrow> Query \<Rightarrow> int \<Rightarrow> bool \<Rightarrow> Node \<Rightarrow> Ctx \<Rightarrow> outcome" where
  "www_query w q page rss node ctx =
     (let q = (if rss then q\<lparr>q_Start := - int PAGE_SIZE\<rparr> else q) in
      case Select ctx q (nd_db node) of
        (db, Inl e) \<Rightarrow> fail e (upd_db node db) ctx
      | (db, Inr ids) \<Rightarrow>
          (case LookupIDS db ids of
             (db, mis) \<Rightarrow>
               (let node = upd_db node db;
                    mis = (if q_Start q < 0 then sort_key (\<lambda>i. - int (mi_Num i)) mis else mis);
                    page = (if page = 0 then page_of (c_Selected ctx) (map mi_Id mis) else page);
                    (start, ctx) = makePager ctx (length mis) page;
                    ms = fill_fast db (map mi_Id (drop (nat start) mis)) PAGE_SIZE;
                    ctx = ctx\<lparr>c_Msg := c_Msg ctx @ ms\<rparr>
                in if rss then
                     (let ctx = ctx\<lparr>c_Topic := db_Name db @ '' :: '' @ c_BasePath ctx\<rparr> in
                      case rss_items w ctx (c_Msg ctx) of
                        Inl e \<Rightarrow> fail e node ctx
                      | Inr s \<Rightarrow> (node, ctx, Inr (Body (rss_head (c_Topic ctx) (c_Host ctx) (c_BasePath ctx) @ s))))
                   else render ''query.tpl'' node ctx)))"

text \<open>A topic of the list; in the blog it is dated by its first message, which must answer none.\<close>

definition topic_entry :: "bool \<Rightarrow> DB \<Rightarrow> string list \<Rightarrow> Topic option" where
  "topic_entry blog db ids =
     (let count = length ids - 1;
          info = LookupFast db (if blog then ids ! 0 else ids ! count) False
      in case info of
           None \<Rightarrow> None
         | Some mi \<Rightarrow>
             if blog \<and> mi_Repto mi \<noteq> [] then None
             else Some \<lparr>tp_Ids = ids, tp_Count = count, tp_Last = mi, tp_Head = None, tp_Tail = None\<rparr>)"

fun fill_topics :: "DB \<Rightarrow> Topic list \<Rightarrow> nat \<Rightarrow> Topic list" where
  "fill_topics db [] nr = []"
| "fill_topics db (t # ts) nr =
     (if nr = 0 then []
      else (case (GetFast db (tp_Ids t ! 0), GetFast db (tp_Ids t ! tp_Count t)) of
        (Some h, Some l) \<Rightarrow> t\<lparr>tp_Head := Some h, tp_Tail := Some l\<rparr> # fill_topics db ts (nr - 1)
      | _ \<Rightarrow> fill_topics db ts nr))"

definition www_topics :: "World \<Rightarrow> int \<Rightarrow> Node \<Rightarrow> Ctx \<Rightarrow> outcome" where
  "www_topics w page node ctx =
     (case Select ctx (nil_query\<lparr>q_Echo := c_Echo ctx\<rparr>) (nd_db node) of
        (db, Inl e) \<Rightarrow> fail e (upd_db node db) ctx
      | (db, Inr ids) \<Rightarrow>
          (case LookupIDS db ids of
             (db, mis) \<Rightarrow>
               (case GetTopics (w_fuel w) db (map mi_Id mis) of
                  None \<Rightarrow> fail (EPanic PLoop) (upd_db node db) ctx
                | Some (db, topics) \<Rightarrow>
                    (let db = fst (LoadIndex db);
                         blog = (c_PfxPath ctx = ''/blog'');
                         ts = List.map_filter (\<lambda>k. topic_entry blog db (topic_list topics k)) (w_keys w topics);
                         ts = sort_key (\<lambda>t. - int (mi_Num (tp_Last t))) ts;
                         (start, ctx) = makePager ctx (length ts) page;
                         ctx = ctx\<lparr>c_Topics := c_Topics ctx @ fill_topics db (drop (nat start) ts) PAGE_SIZE\<rparr>
                     in render (if blog then ''blog.tpl'' else ''topics.tpl'') (upd_db node db) ctx))))"

text \<open>
  \<^verbatim>\<open>www_topic\<close>: the topic of a message, read after \<^verbatim>\<open>GetTopics\<close> through the pointer to its entry.
\<close>

definition topic_name :: "DB \<Rightarrow> string \<Rightarrow> string" where
  "topic_name db mid = (case map_get (ix_Hash (db_Idx db)) mid of None \<Rightarrow> [] | Some mi \<Rightarrow> mi_Topic mi)"

definition www_topic :: "World \<Rightarrow> int \<Rightarrow> Node \<Rightarrow> Ctx \<Rightarrow> outcome" where
  "www_topic w page node ctx =
     (let mid = c_BasePath ctx in
      case Lookup (nd_db node) mid of
        (db, None) \<Rightarrow> fail ENoSuchMsg (upd_db node db) ctx
      | (db, Some mi) \<Rightarrow>
          if \<not> Access mi (c_User ctx) then fail EAccessDenied (upd_db node db) ctx
          else let ctx = (if page = 0 then ctx\<lparr>c_Selected := mid\<rparr> else ctx);
                   ctx = ctx\<lparr>c_Echo := mi_Echo mi\<rparr> in
          (case Select ctx (nil_query\<lparr>q_Echo := mi_Echo mi\<rparr>) db of
             (db, Inl e) \<Rightarrow> fail e (upd_db node db) ctx
           | (db, Inr sel) \<Rightarrow>
               (case LookupIDS db sel of
                  (db, mis) \<Rightarrow>
                    (case GetTopics (w_fuel w) db (map mi_Id mis) of
                       None \<Rightarrow> fail (EPanic PLoop) (upd_db node db) ctx
                     | Some (db, topics) \<Rightarrow>
                         (let topic = topic_name db mid;
                              ids = topic_list topics topic;
                              (page, ctx) =
                                (if ids = [] then (page, ctx\<lparr>c_Topic := topic\<rparr>)
                                 else if topic \<noteq> mi_Id mi \<and> page = 0 then
                                   (case position (\<lambda>i. i = mi_Id mi) ids of
                                      Some k \<Rightarrow> (int (k div PAGE_SIZE + 1), ctx\<lparr>c_Topic := topic, c_Selected := mi_Id mi\<rparr>)
                                    | None \<Rightarrow> (page, ctx\<lparr>c_Topic := topic\<rparr>))
                                 else (page, ctx\<lparr>c_Topic := topic\<rparr>));
                              ids = (if ids = [] then [mid] else ids);
                              (start, ctx) = makePager ctx (length ids) page;
                              (db, ms) = fill db (drop (nat start) ids) PAGE_SIZE;
                              ctx = ctx\<lparr>c_Msg := c_Msg ctx @ ms\<rparr>
                          in render ''topic.tpl'' (upd_db node db) ctx)))))"

end
