(* ===== verification/II_Post.thy ===== *)
theory II_Post
  imports II_Pages
begin

text \<open>
  The writing side of the web interface (\<^verbatim>\<open>ii-node/web.go\<close>): new messages, edits, replies, hiding a
  message, and the file attached to a message.
\<close>

section \<open>Who may change a message\<close>

definition own_addr :: "Node \<Rightarrow> User \<Rightarrow> string" where
  "own_addr node u = db_Name (nd_db node) @ '','' @ itoa (us_Id u)"

definition msg_access :: "Node \<Rightarrow> Msg \<Rightarrow> User \<Rightarrow> bool" where
  "msg_access node m u = (own_addr node u = m_Addr m \<or> us_Id u = 1)"

definition www_blacklist :: "World \<Rightarrow> Node \<Rightarrow> Ctx \<Rightarrow> outcome" where
  "www_blacklist w node ctx =
     (case Get (nd_db node) (c_BasePath ctx) of
        (db, None) \<Rightarrow> fail ENoSuchMsg (upd_db node db) ctx
      | (db, Some m) \<Rightarrow>
          let node = upd_db node db in
          if \<not> msg_access node m (c_User ctx) then fail EAccessDenied node ctx
          else (case Blacklist (w_now w) db m of
            (db, _, Some e) \<Rightarrow> fail e (upd_db node db) ctx
          | (db, _, None) \<Rightarrow> (upd_db node db, ctx, Inr (Redirect (c_PfxPath ctx @ ''/'')))))"

section \<open>New messages and edits\<close>

text \<open>
  \<^verbatim>\<open>www_new\<close>, the part after the form is read: the message is decoded, signed with the account, or,
  when the form names a message, with date, id and author of that message.
\<close>

definition sign :: "Node \<Rightarrow> User \<Rightarrow> string \<Rightarrow> Msg \<Rightarrow> Msg" where
  "sign node u repto m =
     (let m = m\<lparr>m_From := us_Name u, m_Addr := own_addr node u\<rparr>
      in if repto \<noteq> [] then m\<lparr>m_Tags := add_tag (m_Tags m) (''repto/'' @ repto)\<rparr> else m)"

definition take_over :: "User \<Rightarrow> string \<Rightarrow> Msg \<Rightarrow> DB \<Rightarrow> DB \<times> (ii_error + Msg)" where
  "take_over u mid m db =
     (if mid = [] then (db, Inr m)
      else (case Get db mid of
        (db, om) \<Rightarrow>
          if (case om of None \<Rightarrow> True | Some om \<Rightarrow> m_Addr m \<noteq> m_Addr om) \<and> us_Id u \<noteq> 1 then (db, Inl EAccessDenied)
          else (case om of
            None \<Rightarrow> (db, Inl (EPanic PNilPointer))
          | Some om \<Rightarrow>
              (db, Inr (m\<lparr>m_Date := m_Date om, m_MsgId := mid, m_From := m_From om, m_Addr := m_Addr om\<rparr>)))))"

definition submit :: "World \<Rightarrow> bool \<Rightarrow> Msg \<Rightarrow> Node \<Rightarrow> Ctx \<Rightarrow> outcome" where
  "submit w edit m node ctx =
     (case (if edit then Edit (w_now w) (nd_db node) m else Store (w_now w) (nd_db node) m) of
        (db, m, Some e) \<Rightarrow> fail e (upd_db node db) ctx
      | (db, m, None) \<Rightarrow>
          (upd_db node db, ctx, Inr (Redirect (c_PfxPath ctx @ ''/echo/'' @ m_MsgId m @ ''#'' @ m_MsgId m))))"

definition preview :: "bool \<Rightarrow> Msg \<Rightarrow> Node \<Rightarrow> Ctx \<Rightarrow> outcome" where
  "preview edit m node ctx =
     render ''preview.tpl'' node (ctx\<lparr>c_Msg := c_Msg ctx @ [if edit then m else m\<lparr>m_MsgId := []\<rparr>]\<rparr>)"

text \<open>The last checks, then the message is stored or shown.\<close>

definition post :: "World \<Rightarrow> bool \<Rightarrow> string \<Rightarrow> Msg \<Rightarrow> Node \<Rightarrow> Ctx \<Rightarrow> outcome" where
  "post w edit action m node ctx =
     (case PointPolicy (c_User ctx) (nd_db node) m of
        (db, Inl e) \<Rightarrow> fail e (upd_db node db) ctx
      | (db, Inr False) \<Rightarrow> render ''register-verify.tpl'' (upd_db node db) ctx
      | (db, Inr True) \<Rightarrow>
          let node = upd_db node db in
          if \<not> EDB_Access (nd_edb node) m \<and> us_Id (c_User ctx) \<noteq> 1 then fail EAccessDenied node ctx
          else if action = ''Submit'' then submit w edit m node ctx
          else preview edit m node ctx)"

definition send_form :: "World \<Rightarrow> (string \<Rightarrow> string) \<Rightarrow> Node \<Rightarrow> Ctx \<Rightarrow> outcome" where
  "send_form w v node ctx =
     (let edit = (c_BasePath ctx = []);
          repto = (if v ''repto'' = v ''id'' then [] else v ''repto'');
          echo = (if v ''echo'' \<noteq> [] then v ''echo'' else c_BasePath ctx);
          body = echo @ [NL] @ v ''to'' @ [NL] @ v ''subj'' @ [NL, NL] @ v ''msg'' in
      case DecodeMsgline (w_now w) body False of
        Inl e \<Rightarrow> fail e node ctx
      | Inr m \<Rightarrow>
          (case take_over (c_User ctx) (v ''id'') (sign node (c_User ctx) repto m) (nd_db node) of
             (db, Inl e) \<Rightarrow> fail e (upd_db node db) ctx
           | (db, Inr m) \<Rightarrow> post w edit (v ''action'') m (upd_db node db) ctx))"

definition www_new :: "World \<Rightarrow> Req \<Rightarrow> Node \<Rightarrow> Ctx \<Rightarrow> outcome" where
  "www_new w r node ctx =
     (let ctx = ctx\<lparr>c_Echo := c_BasePath ctx\<rparr> in
      if r_Method r = ''GET'' then render ''new.tpl'' node ctx
      else if r_Method r = ''POST'' then
        (case r_Form r of
           None \<Rightarrow> fail EBadForm node ctx
         | Some v \<Rightarrow>
             if us_Name (c_User ctx) = [] then fail EAccessDenied node ctx else send_form w v node ctx)
      else (node, ctx, Inr Nothing))"

text \<open>
  \<^verbatim>\<open>www_edit\<close>: the form for an edit shows the text with a new mark instead of the old one; the form
  itself goes to \<^verbatim>\<open>www_new\<close>.
\<close>

definition edit_mark :: string where "edit_mark = ''P.S. Edited: ''"

definition marked_text :: "string \<Rightarrow> string \<Rightarrow> string" where
  "marked_text txt stamp =
     (let ln = Split NL (msg_clean txt);
          txt = (if HasPrefix (last ln) edit_mark then Join [NL] (butlast ln) else txt)
      in txt @ [NL] @ edit_mark @ stamp)"

definition www_edit :: "World \<Rightarrow> Req \<Rightarrow> Node \<Rightarrow> Ctx \<Rightarrow> outcome" where
  "www_edit w r node ctx =
     (if r_Method r = ''GET'' then
        (case Get (nd_db node) (c_BasePath ctx) of
           (db, None) \<Rightarrow> fail ENoSuchMsg (upd_db node db) ctx
         | (db, Some m) \<Rightarrow>
             let m = m\<lparr>m_Text := marked_text (m_Text m) (w_format w (w_now w))\<rparr>
             in render ''edit.tpl'' (upd_db node db) (ctx\<lparr>c_Msg := c_Msg ctx @ [m]\<rparr>))
      else if r_Method r = ''POST'' then www_new w r node (ctx\<lparr>c_BasePath := []\<rparr>)
      else (node, ctx, Inr Nothing))"

definition www_reply :: "bool \<Rightarrow> Node \<Rightarrow> Ctx \<Rightarrow> outcome" where
  "www_reply quote node ctx =
     (let mid = c_BasePath ctx in
      case Get (nd_db node) mid of
        (db, None) \<Rightarrow> fail ENoSuchMsg (upd_db node db) ctx
      | (db, Some m) \<Rightarrow>
          (case (if quote then msg_quote (m_Text m) (m_From m) else Inr []) of
             Inl e \<Rightarrow> fail e (upd_db node db) ctx
           | Inr txt \<Rightarrow>
               let msg = m\<lparr>m_To := m_From m, m_Subj := ''Re: '' @ TrimPrefix (m_Subj m) ''Re: '',
                           m_Tags := add_tag (m_Tags m) (''repto/'' @ mid), m_Text := txt\<rparr>
               in render ''reply.tpl'' (upd_db node db) (ctx\<lparr>c_Msg := c_Msg ctx @ [msg], c_Echo := m_Echo msg\<rparr>)))"

section \<open>Attached files\<close>

text \<open>\<^verbatim>\<open>base64Regex\<close>: groups of four, the last one possibly padded.\<close>

definition b64_char :: "char \<Rightarrow> bool" where "b64_char c = (c \<in> set (rx_alnum @ ''+/''))"

fun is_base64 :: "string \<Rightarrow> bool" where
  "is_base64 [] = True"
| "is_base64 [a, b, c, d] =
     (b64_char a \<and> b64_char b \<and> (b64_char c \<and> b64_char d \<or> b64_char c \<and> d = CHR ''='' \<or>
        c = CHR ''='' \<and> d = CHR ''=''))"
| "is_base64 (a # b # c # d # s) = (b64_char a \<and> b64_char b \<and> b64_char c \<and> b64_char d \<and> is_base64 s)"
| "is_base64 _ = False"

text \<open>The lines after the name of the file, up to the first that is not base64.\<close>

fun attached_data :: "string list \<Rightarrow> string" where
  "attached_data [] = []"
| "attached_data (v # vs) =
     (let v = Replace SP [] v in if \<not> is_base64 v then [] else v @ attached_data vs)"

fun attached :: "bool \<Rightarrow> string list \<Rightarrow> string \<times> string" where
  "attached pre [] = ([], [])"
| "attached pre (v # vs) =
     (if Trim v '' '' = ''===='' then attached (\<not> pre) vs
      else if pre then attached pre vs
      else if \<not> HasPrefix v ''@base64:'' then attached pre vs
      else (attach_name v, attached_data vs))"

definition decode_attached :: "string \<Rightarrow> string option" where
  "decode_attached b64 =
     (case StdDecode b64 of
        Some b \<Rightarrow> Some b
      | None \<Rightarrow> (case RawStdDecode b64 of Some b \<Rightarrow> Some b | None \<Rightarrow> URLDecode b64))"

text \<open>The types of pictures by their first bytes; the prefixes exclude one another.\<close>

definition magics :: "(string \<times> string) list" where
  "magics =
     [([CHR 0xFF, CHR 0xD8, CHR 0xFF], ''image/jpeg''),
      ([CHR 0x89] @ ''PNG'' @ [CR, NL, CHR 0x1A, NL], ''image/png''),
      (''GIF87a'', ''image/gif''), (''GIF89a'', ''image/gif'')]"

definition check_image :: "string \<Rightarrow> string" where
  "check_image incipit =
     (case find (\<lambda>(magic, mime). HasPrefix incipit magic) magics of Some (_, mime) \<Rightarrow> mime | None \<Rightarrow> [])"

definition www_base64 :: "Node \<Rightarrow> Ctx \<Rightarrow> outcome" where
  "www_base64 node ctx =
     (case Get (nd_db node) (c_BasePath ctx) of
        (db, None) \<Rightarrow> fail ENoSuchMsg (upd_db node db) ctx
      | (db, Some m) \<Rightarrow>
          let node = upd_db node db;
              (fname, b64) = attached False (Split NL (msg_clean (m_Text m))) in
          if b64 = [] then (node, ctx, Inr Nothing)
          else (case decode_attached b64 of
            None \<Rightarrow> fail EBadBase64 node ctx
          | Some b \<Rightarrow> (node, ctx, Inr (Download (if check_image b \<noteq> [] then None else Some fname) b))))"

end
