(* ===== verification/II_Account.thy ===== *)
theory II_Account
  imports II_Post
begin

text \<open>
  Accounts on the web (\<^verbatim>\<open>ii-node/web.go\<close>): registration with the country of the visitor, login, profile
  and avatar, and the list of accounts of the administrator.
\<close>

section \<open>The country of a visitor\<close>

text \<open>\<^verbatim>\<open>getServer\<close>: an answer that ends in the line of the server makes the slice fail.\<close>

fun get_server :: "string list \<Rightarrow> string \<Rightarrow> ii_error + string" where
  "get_server [] s = Inr []"
| "get_server (token # tokens) s =
     (case Index s token of
        None \<Rightarrow> get_server tokens s
      | Some start \<Rightarrow>
          let rest = drop (start + length token) s in
          (case Index rest [NL] of
             None \<Rightarrow> Inl (EPanic PSlice)
           | Some n \<Rightarrow> Inr (TrimSpace (take n rest))))"

definition getServer :: "string \<Rightarrow> ii_error + string" where
  "getServer = get_server [''Registrar WHOIS Server: '', ''whois: '']"

definition Whois :: "World \<Rightarrow> string \<Rightarrow> ii_error + string" where
  "Whois w domain =
     (case w_whois w domain ''whois.iana.org:43'' of
        None \<Rightarrow> Inr []
      | Some result \<Rightarrow>
          (case getServer result of
             Inl e \<Rightarrow> Inl e
           | Inr server \<Rightarrow>
               if server = [] then Inr []
               else (case w_whois w domain (server @ '':43'') of
                 None \<Rightarrow> Inr []
               | Some result \<Rightarrow>
                   (case getServer result of
                      Inl e \<Rightarrow> Inl e
                    | Inr ref \<Rightarrow>
                        if ref = [] \<or> ref = server then Inr result
                        else (case w_whois w domain ref of
                          None \<Rightarrow> Inr result
                        | Some data \<Rightarrow> Inr (result @ data))))))"

text \<open>The lines of a \<^verbatim>\<open>bufio.Scanner\<close>, up to the first that does not fit its buffer.\<close>

definition scan_lines :: "string \<Rightarrow> string list" where
  "scan_lines s =
     (let ls = Split NL s;
          ls = (if last ls = [] then butlast ls else ls)
      in map (\<lambda>l. TrimSuffix l [CR]) (takeWhile (\<lambda>l. length l < 65536) ls))"

definition lower :: "char \<Rightarrow> char" where
  "lower c = (if CHR ''A'' \<le> c \<and> c \<le> CHR ''Z'' then char_of (of_char c + 32 :: nat) else c)"

definition ToLower :: "World \<Rightarrow> string \<Rightarrow> string" where
  "ToLower w s = (if \<forall>c\<in>set s. of_char c < (128 :: nat) then map lower s else w_lower w s)"

fun country_of :: "World \<Rightarrow> string list \<Rightarrow> ii_error + string" where
  "country_of w [] = Inr ''us''"
| "country_of w (l # ls) =
     (let a = Split (CHR '':'') l in
      if a ! 0 = ''country'' then
        (if length a < 2 then Inl (EPanic PIndex) else Inr (ToLower w (TrimSpace (a ! 1))))
      else country_of w ls)"

definition getHostCountry :: "World \<Rightarrow> string \<Rightarrow> ii_error + string" where
  "getHostCountry w ip =
     (if TrimSpace ip = [] then Inr ''us''
      else let ip = (case Index ip ''_'' of None \<Rightarrow> ip | Some pos \<Rightarrow> take pos ip) in
      (case Whois w ip of Inl e \<Rightarrow> Inl e | Inr txt \<Rightarrow> country_of w (scan_lines txt)))"

section \<open>Registration and login\<close>

definition reload :: "World \<Rightarrow> Node \<Rightarrow> Node \<times> ii_error option" where
  "reload w node = load_users (w_compile w) node"

definition www_register_verify :: "Req \<Rightarrow> Node \<Rightarrow> Ctx \<Rightarrow> outcome" where
  "www_register_verify r node ctx =
     (if r_Method r = ''POST'' then render ''register-verify.tpl'' node ctx else (node, ctx, Inr Nothing))"

definition www_register_locked :: "Req \<Rightarrow> Node \<Rightarrow> Ctx \<Rightarrow> outcome" where
  "www_register_locked r node ctx =
     (if r_Method r = ''GET'' then render ''register-locked.tpl'' node ctx else (node, ctx, Inr Nothing))"

text \<open>A new password for the account of a secret.\<close>

definition new_password :: "string \<Rightarrow> string \<Rightarrow> Node \<Rightarrow> Ctx \<Rightarrow> outcome" where
  "new_password auth password node ctx =
     (case UserInfo (nd_udb node) auth of
        None \<Rightarrow> fail EAccessDenied node ctx
      | Some u \<Rightarrow>
          (case UDB_Edit (nd_udb node) (u\<lparr>us_Secret := MakeSecret (us_Name u @ password)\<rparr>) of
             (udb, Some e) \<Rightarrow> fail e (node\<lparr>nd_udb := udb\<rparr>) ctx
           | (udb, None) \<Rightarrow> (node\<lparr>nd_udb := udb\<rparr>, ctx, Inr (Redirect (c_PfxPath ctx @ ''/login'')))))"

definition register :: "World \<Rightarrow> Req \<Rightarrow> (string \<Rightarrow> string) \<Rightarrow> Node \<Rightarrow> Ctx \<Rightarrow> outcome" where
  "register w r v node ctx =
     (case getHostCountry w (c_Ip ctx) of
        Inl e \<Rightarrow> fail e node ctx
      | Inr country \<Rightarrow>
          let info = UserStatus (nd_udb node) (v ''username'') (v ''email'') country in
          if info = ''honeypot'' then www_register_verify r node ctx
          else let info = info @ ''/info/'' @ c_Ip ctx @ '','' @ country in
          (case UDB_Add (nd_udb node) (v ''username'') (v ''email'') (v ''password'') info of
             (udb, Some e) \<Rightarrow> fail e (node\<lparr>nd_udb := udb\<rparr>) ctx
           | (udb, None) \<Rightarrow>
               let node = node\<lparr>nd_udb := udb\<rparr>;
                   tlim = Tags_val (NewTags info) ''limit'';
                   lim = (if tlim \<noteq> [] then Atoi_val tlim else -1) in
               if lim = 0 then www_register_verify r node ctx
               else (node, ctx, Inr (Redirect (c_PfxPath ctx @ ''/login'')))))"

definition www_register :: "World \<Rightarrow> Req \<Rightarrow> Node \<Rightarrow> Ctx \<Rightarrow> outcome" where
  "www_register w r node ctx =
     (if r_Method r = ''GET'' then render ''register.tpl'' node ctx
      else if r_Method r = ''POST'' then
        (case reload w node of
           (node, Some e) \<Rightarrow> fail e node ctx
         | (node, None) \<Rightarrow>
             (case r_Form r of
                None \<Rightarrow> fail EBadForm node ctx
              | Some v \<Rightarrow>
                  if v ''auth'' \<noteq> [] then new_password (v ''auth'') (v ''password'') node ctx
                  else register w r v node ctx))
      else (node, ctx, Inr Nothing))"

definition www_login :: "Req \<Rightarrow> Node \<Rightarrow> Ctx \<Rightarrow> outcome" where
  "www_login r node ctx =
     (if r_Method r = ''GET'' then render ''login.tpl'' node ctx
      else if r_Method r = ''POST'' then
        (case r_Form r of
           None \<Rightarrow> fail EBadForm node ctx
         | Some v \<Rightarrow>
             if \<not> Auth (nd_udb node) (v ''username'') (v ''password'') then fail EAccessDenied node ctx
             else (node, ctx, Inr (SetCookie (Secret (nd_udb node) (v ''username'')) (c_PfxPath ctx @ ''/''))))
      else fail EWrongMethod node ctx)"

definition www_logout :: "Node \<Rightarrow> Ctx \<Rightarrow> outcome" where
  "www_logout node ctx =
     (if us_Name (c_User ctx) = [] then fail EAccessDenied node ctx
      else (node, ctx, Inr (SetCookie [] (c_PfxPath ctx @ ''/''))))"

section \<open>Profile and avatar\<close>

definition www_profile :: "Node \<Rightarrow> Ctx \<Rightarrow> outcome" where
  "www_profile node ctx =
     (if us_Name (c_User ctx) = [] then fail EAccessDenied node ctx
      else let ctx = ctx\<lparr>c_Selected := own_addr node (c_User ctx)\<rparr>;
               ava = Tags_val (us_Tags (c_User ctx)) ''avatar'';
               ctx = (if ava = [] then ctx
                      else (case URLDecode ava of None \<Rightarrow> ctx | Some data \<Rightarrow> ctx\<lparr>c_Info := data\<rparr>))
           in render ''profile.tpl'' node ctx)"

definition parse_ava :: "string \<Rightarrow> ii_error + image option" where
  "parse_ava txt =
     (case ParseXpm (Split NL (msg_clean txt)) of Inl e \<Rightarrow> Inl e | Inr (img, _) \<Rightarrow> Inr img)"

text \<open>A picture is kept as a tag of the account, an empty one removes the tag.\<close>

definition avatar_tags :: "string \<Rightarrow> Tags \<Rightarrow> ii_error + Tags" where
  "avatar_tags ava tags =
     (if length ava > 2048 then Inl EAvatarTooBig
      else if ava = [] then Inr (fst (Tags_Del tags ''avatar''))
      else (case parse_ava ava of
        Inl e \<Rightarrow> Inl e
      | Inr None \<Rightarrow> Inl EWrongXpm
      | Inr (Some _) \<Rightarrow> Inr (add_tag tags (''avatar/'' @ URLEncode ava))))"

definition set_avatar :: "Req \<Rightarrow> Node \<Rightarrow> Ctx \<Rightarrow> outcome" where
  "set_avatar r node ctx =
     (case r_Form r of
        None \<Rightarrow> fail EBadForm node ctx
      | Some v \<Rightarrow>
          (case avatar_tags (v ''avatar'') (us_Tags (c_User ctx)) of
             Inl e \<Rightarrow> fail e node ctx
           | Inr tags \<Rightarrow>
               let u = (c_User ctx)\<lparr>us_Tags := tags\<rparr>; ctx = ctx\<lparr>c_User := u\<rparr> in
               (case UDB_Edit (nd_udb node) u of
                  (udb, Some _) \<Rightarrow> fail ESavingAvatar (node\<lparr>nd_udb := udb\<rparr>) ctx
                | (udb, None) \<Rightarrow> (node\<lparr>nd_udb := udb\<rparr>, ctx, Inr (Redirect (c_PfxPath ctx @ ''/profile''))))))"

definition get_avatar :: "World \<Rightarrow> string \<Rightarrow> Node \<Rightarrow> Ctx \<Rightarrow> outcome" where
  "get_avatar w user node ctx =
     (case UserInfoName (nd_udb node) user of
        None \<Rightarrow> (node, ctx, Inr Nothing)
      | Some u \<Rightarrow>
          let ava = Tags_val (us_Tags u) ''avatar'' in
          if ava = [] then (node, ctx, Inr Nothing)
          else (case URLDecode ava of
            None \<Rightarrow> (node, ctx, Inr Nothing)
          | Some data \<Rightarrow>
              (case parse_ava data of
                 Inl e \<Rightarrow> fail e node ctx
               | Inr img \<Rightarrow>
                   (case Option.bind img (w_png w) of
                      None \<Rightarrow> (node, ctx, Inr Nothing)
                    | Some b \<Rightarrow> (node, ctx, Inr (Image b))))))"

definition www_avatar :: "World \<Rightarrow> Req \<Rightarrow> string \<Rightarrow> Node \<Rightarrow> Ctx \<Rightarrow> outcome" where
  "www_avatar w r user node ctx =
     (if r_Method r = ''POST'' then
        (if us_Name (c_User ctx) = [] \<or> us_Name (c_User ctx) \<noteq> user then fail EAccessDenied node ctx
         else set_avatar r node ctx)
      else get_avatar w user node ctx)"

section \<open>Administration\<close>

text \<open>The actions of \<^verbatim>\<open>/points\<close> on the tags of an account.\<close>

definition point_action :: "string \<Rightarrow> Tags \<Rightarrow> Tags" where
  "point_action act t =
     (if act = ''moderate'' then add_tag (add_tag t ''limit/3'') ''status/moderate''
      else if act = ''unblock'' then fst (Tags_Del (add_tag t ''status/verified'') ''limit'')
      else if act = ''block'' then add_tag (add_tag t ''status/blocked'') ''limit/0''
      else if act = ''remove'' then add_tag t ''status/remove''
      else if act = ''approve'' then add_tag (fst (Tags_Del t ''limit'')) ''status/verified''
      else t)"

definition www_points :: "World \<Rightarrow> string list \<Rightarrow> Node \<Rightarrow> Ctx \<Rightarrow> outcome" where
  "www_points w args node ctx =
     (if us_Id (c_User ctx) \<noteq> 1 then fail EAccessDenied node ctx
      else let ctx = ctx\<lparr>c_BasePath := ''points''\<rparr> in
      if length args > 2 then
        (case UserInfoName (nd_udb node) (args ! 2) of
           None \<Rightarrow> render ''points.tpl'' node ctx
         | Some u \<Rightarrow>
             let udb = fst (UDB_Edit (nd_udb node) (u\<lparr>us_Tags := point_action (args ! 1) (us_Tags u)\<rparr>)) in
             (case reload w (node\<lparr>nd_udb := udb\<rparr>) of
                (node, Some e) \<Rightarrow> fail e node ctx
              | (node, None) \<Rightarrow> render ''points.tpl'' node ctx))
      else render ''points.tpl'' node ctx)"

end
