(* ===== verification/II_Web.thy ===== *)
theory II_Web
  imports II_Account
begin

text \<open>
  The dispatcher of the web interface (\<^verbatim>\<open>handleWWW\<close> and \<^verbatim>\<open>_handleWWW\<close> of \<^verbatim>\<open>ii-node/web.go\<close>): who asks, which
  handler answers, and what becomes of an error.
\<close>

section \<open>Dispatch\<close>

text \<open>The account of the cookie; without one the user is the zero value.\<close>

definition identify :: "UDB \<Rightarrow> string option \<Rightarrow> User" where
  "identify udb cookie =
     (case cookie of
        None \<Rightarrow> nil_user
      | Some secret \<Rightarrow>
          if UDB_Access udb secret then (case UserInfo udb secret of None \<Rightarrow> nil_user | Some u \<Rightarrow> u)
          else nil_user)"

definition clean_ip :: "string \<Rightarrow> string" where
  "clean_ip ip = Replace (CHR ''/'') ''_'' (Replace (CHR '':'') ''_'' ip)"

text \<open>\<^verbatim>\<open>Sscanf(s, "%d", &page)\<close> leaves the page as it was when there is no number.\<close>

definition scan_page :: "string \<Rightarrow> int \<Rightarrow> int" where
  "scan_page s page = (case sscan_d 64 s of None \<Rightarrow> page | Some (n, _) \<Rightarrow> n)"

text \<open>\<^verbatim>\<open>parseQueryArgs\<close>: the page, whether a feed is asked for, and the selected message.\<close>

definition parseQueryArgs :: "string list \<Rightarrow> Ctx \<Rightarrow> ii_error + int \<times> bool \<times> Ctx" where
  "parseQueryArgs args ctx =
     (let ctx = ctx\<lparr>c_Selected := []\<rparr> in
      if length args < 2 then Inl EWrongRequest
      else if length args > 2 then
        (if args ! 2 = ''rss'' then Inr (0, True, ctx)
         else if IsMsgId (args ! 2) then Inr (0, False, ctx\<lparr>c_Selected := args ! 2\<rparr>)
         else Inr (scan_page (args ! 2) 0, False, ctx))
      else if IsMsgId (args ! 1) then Inr (0, False, ctx\<lparr>c_Selected := args ! 1\<rparr>)
      else Inr (0, False, ctx))"

text \<open>The query for \<^verbatim>\<open>/echo/...\<close>: an area, the area of a message, or all areas from the end.\<close>

definition echo_query :: "DB \<Rightarrow> string \<Rightarrow> DB \<times> Query" where
  "echo_query db e =
     (if IsEcho e then (db, nil_query\<lparr>q_Echo := e\<rparr>)
      else if IsMsgId e then
        (case Lookup db e of
           (db, Some mi) \<Rightarrow> (db, nil_query\<lparr>q_Echo := mi_Echo mi\<rparr>)
         | (db, None) \<Rightarrow> (db, nil_query\<lparr>q_Start := - int PAGE_SIZE\<rparr>))
      else if e = ''all'' then (db, nil_query\<lparr>q_Echo := [], q_Start := - int PAGE_SIZE\<rparr>)
      else (db, nil_query))"

definition listing :: "World \<Rightarrow> string \<Rightarrow> string list \<Rightarrow> Query \<Rightarrow> Node \<Rightarrow> Ctx \<Rightarrow> outcome" where
  "listing w what args q node ctx =
     (case parseQueryArgs args ctx of
        Inl e \<Rightarrow> fail e node (ctx\<lparr>c_Selected := []\<rparr>)
      | Inr (page, rss, ctx) \<Rightarrow>
          www_query w q page rss node (ctx\<lparr>c_BasePath := what @ ''/'' @ args ! 1\<rparr>))"

definition www_echo :: "World \<Rightarrow> bool \<Rightarrow> string list \<Rightarrow> Node \<Rightarrow> Ctx \<Rightarrow> outcome" where
  "www_echo w topics args node ctx =
     (case parseQueryArgs args ctx of
        Inl e \<Rightarrow> fail e node (ctx\<lparr>c_Selected := []\<rparr>)
      | Inr (page, rss, ctx) \<Rightarrow>
          (case echo_query (nd_db node) (args ! 1) of
             (db, q) \<Rightarrow>
               let ctx = ctx\<lparr>c_Echo := q_Echo q,
                             c_BasePath := (if topics then ''echo+topics/'' else ''echo/'') @ args ! 1\<rparr>;
                   q = (if topics then q\<lparr>q_Repto := ''!''\<rparr> else q)
               in www_query w q page rss (upd_db node db) ctx))"

text \<open>The pages of one message.\<close>

definition message :: "World \<Rightarrow> Req \<Rightarrow> string list \<Rightarrow> Node \<Rightarrow> Ctx \<Rightarrow> outcome" where
  "message w r args node ctx =
     (let ctx = ctx\<lparr>c_BasePath := args ! 0\<rparr> in
      if length args > 1 then
        (if args ! 1 = ''reply'' then www_reply (\<not> (length args > 2 \<and> args ! 2 = ''new'')) node ctx
         else if args ! 1 = ''edit'' then www_edit w r node ctx
         else if args ! 1 = ''blacklist'' then www_blacklist w node ctx
         else if args ! 1 = ''base64'' then www_base64 node ctx
         else www_topic w (scan_page (args ! 1) 0) node ctx)
      else www_topic w 0 node ctx)"

definition echo_area :: "World \<Rightarrow> Req \<Rightarrow> string list \<Rightarrow> Node \<Rightarrow> Ctx \<Rightarrow> outcome" where
  "echo_area w r args node ctx =
     (let ctx = ctx\<lparr>c_Echo := args ! 0, c_BasePath := args ! 0\<rparr> in
      if length args > 1 then
        (if args ! 1 = ''new'' then www_new w r node ctx
         else www_topics w (scan_page (args ! 1) 1) node ctx)
      else www_topics w 1 node ctx)"

definition dispatch :: "World \<Rightarrow> Req \<Rightarrow> string list \<Rightarrow> Node \<Rightarrow> Ctx \<Rightarrow> outcome" where
  "dispatch w r args node ctx =
     (let a = args ! 0 in
      if a = [] then www_index w node (ctx\<lparr>c_BasePath := []\<rparr>)
      else if a = ''login'' then www_login r node (ctx\<lparr>c_BasePath := ''login''\<rparr>)
      else if a = ''logout'' then www_logout node (ctx\<lparr>c_BasePath := ''logout''\<rparr>)
      else if a = ''points'' then www_points w args node ctx
      else if a = ''profile'' then www_profile node (ctx\<lparr>c_BasePath := ''profile''\<rparr>)
      else if a = ''register'' then
        (case reload w node of
           (node, Some e) \<Rightarrow> fail e node ctx
         | (node, None) \<Rightarrow>
             let ctx = ctx\<lparr>c_BasePath := ''register''\<rparr> in
             if ud_Locked (nd_udb node) then www_register_locked r node ctx
             else www_register w r node ctx)
      else if a = ''reset'' then render ''reset.tpl'' node ctx
      else if a = ''avatar'' then
        (if length args < 2 then fail EWrongRequest node (ctx\<lparr>c_BasePath := ''avatar''\<rparr>)
         else www_avatar w r (args ! 1) node (ctx\<lparr>c_BasePath := ''avatar''\<rparr>))
      else if IsMsgId a then message w r args node ctx
      else if a = ''new'' then www_new w r node (ctx\<lparr>c_BasePath := []\<rparr>)
      else if a = ''to'' then listing w ''to'' args (nil_query\<lparr>q_To := args ! 1\<rparr>) node ctx
      else if a = ''from'' then listing w ''from'' args (nil_query\<lparr>q_From := args ! 1\<rparr>) node ctx
      else if a = ''echo'' then www_echo w False args node ctx
      else if a = ''echo+topics'' then www_echo w True args node ctx
      else if IsEcho a then echo_area w r args node ctx
      else (node, ctx, Inr NotFound))"

text \<open>The words of the path, after the prefix of the blog or the forum.\<close>

definition route :: "string \<Rightarrow> string \<times> string list" where
  "route path =
     (let args = Split (CHR ''/'') (TrimPrefix path ''/'') in
      if length args > 1 \<and> args ! 0 = ''blog'' then (''/blog'', drop 1 args)
      else if length args > 1 \<and> args ! 0 = ''forum'' then (''/forum'', drop 1 args)
      else ([], args))"

definition handle_www :: "World \<Rightarrow> Req \<Rightarrow> Node \<Rightarrow> Ctx \<Rightarrow> outcome" where
  "handle_www w r node ctx =
     (let ip = (if r_Forwarded r = [] then r_RemoteAddr r else r_Forwarded r);
          (pfx, args) = route (r_Path r);
          ctx = ctx\<lparr>c_User := identify (nd_udb node) (r_Cookie r), c_Ip := clean_ip ip,
                    c_Ref := r_Referer r, c_PfxPath := pfx\<rparr>
      in dispatch w r args node ctx)"

text \<open>
  \<^verbatim>\<open>handleWWW\<close>: an error becomes the page of errors, a panic ends the request. \<open>host\<close> is the name of the
  node in links.
\<close>

definition handleWWW :: "World \<Rightarrow> string \<Rightarrow> Req \<Rightarrow> Node \<Rightarrow> outcome" where
  "handleWWW w host r node =
     (case reload w node of
        (node, Some e) \<Rightarrow> fail e node new_ctx
      | (node, None) \<Rightarrow>
          let admin = (case UserInfoId (nd_udb node) 1 of None \<Rightarrow> nil_user | Some u \<Rightarrow> u);
              ctx = new_ctx\<lparr>c_Sysname := db_Name (nd_db node), c_Host := host, c_Admin := admin\<rparr> in
          (case handle_www w r node ctx of
             (node, ctx, Inl (EPanic p)) \<Rightarrow> fail (EPanic p) node ctx
           | (node, ctx, Inl e) \<Rightarrow> render ''error.tpl'' node (ctx\<lparr>c_Error := Some e\<rparr>)
           | (node, ctx, Inr reply) \<Rightarrow> (node, ctx, Inr reply)))"

end
