(* ===== verification/II_Guard.thy ===== *)
theory II_Guard
  imports II_Web
begin

text \<open>
  What a web request may change. Reading leaves the bundles alone whatever the files hold; the only
  handlers that append to them are \<^verbatim>\<open>www_new\<close> and \<^verbatim>\<open>www_blacklist\<close>, and what they append carries the address
  of the account that asked, unless it is the administrator's. None of this assumes anything of the files. The
  last part reads a change of the accounts on the list of records their file holds (\<open>account_step\<close>).
\<close>

section \<open>Reading leaves the bundles alone\<close>

definition same :: "DB \<Rightarrow> DB \<Rightarrow> bool" where
  "same db db' = (db_bundle db' = db_bundle db \<and> db_Name db' = db_Name db)"

named_theorems frame "operations that leave the bundles alone"

lemma same_refl [frame]: "same db db"
  by (simp add: same_def)

lemma same_trans: "same a b \<Longrightarrow> same b c \<Longrightarrow> same a c"
  by (simp add: same_def)

lemma same_Idx [simp]: "same db (db'\<lparr>db_Idx := ix\<rparr>) = same db db'" "same (db\<lparr>db_Idx := ix\<rparr>) db' = same db db'"
  by (simp_all add: same_def)

lemma load_finish_same: "same db (fst (load_finish db ix sh n s))"
  by (simp add: load_finish_def Let_def same_def split: option.split)

lemma load_opened_same: "same db (fst (load_opened db s))"
proof -
  obtain d r where r: "ReopenIndex db = (d, r)" by fastforce
  then have d: "same db d" using ReopenIndex_frame [OF r] by (simp add: same_def)
  have "same db (fst (case r of Inl e \<Rightarrow> (d, Some e) | Inr text \<Rightarrow> load_finish d nil_index False n text))"
    for n
    using d same_trans [OF d load_finish_same] by (simp split: sum.split)
  then show ?thesis
    using r d same_trans [OF d load_finish_same] load_finish_same [of db]
    by (simp add: load_opened_def Let_def same_refl split: sum.split)
qed

lemma LoadIndex_same [frame]: "same db (fst (LoadIndex db))"
proof (cases "db_index db")
  case NoFile
  let ?db = "db\<lparr>db_Idx := nil_index\<rparr>"
  obtain db1 r where r: "ReopenIndex ?db = (db1, r)" by fastforce
  have "same db db1" using ReopenIndex_frame [OF r] by (simp add: same_def)
  then show ?thesis
    using r NoFile same_trans [OF _ load_opened_same] by (cases r) (auto simp: LoadIndex_def)
qed (simp_all add: LoadIndex_def load_opened_same same_refl)

lemma DB_Lookup_same [frame]: "same db (fst (DB_Lookup db mid bl idx))"
  using LoadIndex_same [of db]
  by (auto simp: DB_Lookup_def Let_def same_refl split: prod.split option.split)

lemma LookupIDS_same [frame]: "same db (fst (LookupIDS db ids))"
proof (induction ids arbitrary: db)
  case (Cons i ids)
  obtain d mi where d: "DB_Lookup db i False True = (d, mi)" by fastforce
  have "same db d" using DB_Lookup_same [of db i False True] d by simp
  then show ?case using same_trans [OF _ Cons.IH [of d]] d by (simp split: prod.split) (metis fst_conv)
qed (simp add: same_refl)

lemma DB_GetBundle_same [frame]: "same db (fst (DB_GetBundle db mid idx bl))"
  using DB_Lookup_same [of db mid bl idx]
  by (auto simp: DB_GetBundle_def Let_def split: prod.split option.split gofile.split)

lemma Get_same [frame]: "same db (fst (Get db mid))"
  using DB_GetBundle_same [of db mid True False] by (simp add: Get_def GetBundle_def case_prod_unfold)

lemma SelectIDS_same [frame]: "same db (fst (SelectIDS db q))"
  using LoadIndex_same [of db] by (auto simp: SelectIDS_def split: prod.split option.split)

lemma Select_same [frame]: "same db (fst (Select ctx q db))"
  by (simp add: Select_def SelectIDS_same)

lemma Echoes_same [frame]: "same db (fst (Echoes order db names q))"
  using LoadIndex_same [of db] by (auto simp: Echoes_def Let_def split: prod.split option.split)

lemma GetTopics_same: "GetTopics n db mi = Some (db', t) \<Longrightarrow> same db db'"
  using LoadIndex_same [of db] by (auto simp: GetTopics_def Let_def split: option.splits prod.splits)

lemma fill_same [frame]: "same db (fst (fill db ids nr))"
proof (induction db ids nr rule: fill.induct)
  case (2 db mid ids nr)
  obtain d m where d: "Get db mid = (d, m)" by fastforce
  have "same db d" using Get_same [of db mid] d by simp
  then show ?case
    using 2 d same_trans by (cases m) (fastforce simp: same_refl case_prod_unfold)+
qed (simp add: same_refl)

lemma PointPolicy_same [frame]: "same db (fst (PointPolicy u db m))"
proof -
  have "same db (fst (case SelectIDS db q of (db, Inl e) \<Rightarrow> (db, Inl e)
      | (db, Inr ids) \<Rightarrow> (case LookupIDS db ids of (db, mis) \<Rightarrow> (db, Inr (f mis)))))"
    for q and f :: "MsgInfo list \<Rightarrow> bool"
  proof -
    obtain d x where d: "SelectIDS db q = (d, x)" by fastforce
    have "same db d" using SelectIDS_same [of db q] d by simp
    then show ?thesis
      using d same_trans [OF _ LookupIDS_same] by (cases x) (simp_all add: case_prod_unfold)
  qed
  then show ?thesis by (simp add: PointPolicy_def Let_def same_refl)
qed

text \<open>Storing appends the line of the message, or leaves the bundles alone.\<close>

definition appended :: "int \<Rightarrow> DB \<Rightarrow> Msg \<Rightarrow> DB \<Rightarrow> bool" where
  "appended now db m db' = (append_file (db_bundle db) (snd (Encode now m)) = Inr (db_bundle db') \<and> db_Name db' = db_Name db)"

lemma DB_Store_frame:
  assumes "DB_Store now db m edit = (db', m', err)"
  shows "same db db' \<or> appended now db m db'"
proof -
  obtain d e where d: "LoadIndex db = (d, e)" by fastforce
  have "same db d" using LoadIndex_same [of db] d by simp
  then show ?thesis
    using assms d
    by (cases e) (auto simp: DB_Store_def Let_def same_def appended_def split: if_splits prod.splits sum.splits)
qed

lemma appended_after: "same db d \<Longrightarrow> appended now d m db' \<Longrightarrow> appended now db m db'"
  by (simp add: same_def appended_def)

section \<open>The handlers\<close>

text \<open>The outcome of a handler that leaves the bundles, the name, the areas and the accounts as they were.\<close>

definition quiet :: "Node \<Rightarrow> outcome \<Rightarrow> bool" where
  "quiet node out =
     (same (nd_db node) (nd_db (fst out)) \<and> nd_edb (fst out) = nd_edb node \<and> nd_udb (fst out) = nd_udb node)"

text \<open>The outcome of one that may also append a message for which \<open>P\<close> holds.\<close>

definition writes :: "int \<Rightarrow> (Msg \<Rightarrow> bool) \<Rightarrow> Node \<Rightarrow> outcome \<Rightarrow> bool" where
  "writes now P node out =
     (quiet node out \<or>
      (\<exists>m. appended now (nd_db node) m (nd_db (fst out)) \<and> P m) \<and>
        nd_edb (fst out) = nd_edb node \<and> nd_udb (fst out) = nd_udb node)"

lemma quiet_upd [simp]:
  "quiet node (upd_db node db, ctx, x) = same (nd_db node) db"
  "quiet node (node, ctx, x)"
  by (simp_all add: quiet_def upd_db_def same_refl)

lemma quiet_render [simp]: "quiet node (render tpl node' ctx) = quiet node (node', ctx, Inr Page)"
  by (simp add: render_def quiet_def)

lemma quiet_fail [simp]: "quiet node (fail e node' ctx) = quiet node (node', ctx, Inl e)"
  by (simp add: fail_def)

lemma quiet_writes: "quiet node out \<Longrightarrow> writes now P node out"
  by (simp add: writes_def)

lemma fst_same: "f = (db', x) \<Longrightarrow> same db (fst f) \<Longrightarrow> same db db'"
  by simp

lemma www_index_quiet: "quiet node (www_index w node ctx)"
  using Echoes_same [of "nd_db node"] by (simp add: www_index_def case_prod_unfold)

lemma www_query_quiet: "quiet node (www_query w q page rss node ctx)"
proof -
  let ?q = "if rss then q\<lparr>q_Start := - int PAGE_SIZE\<rparr> else q"
  obtain d x where d: "Select ctx ?q (nd_db node) = (d, x)" by fastforce
  have s: "same (nd_db node) d" using Select_same d by (metis fst_same)
  show ?thesis
  proof (cases x)
    case (Inl e)
    then show ?thesis using d s by (simp add: www_query_def)
  next
    case (Inr ids)
    obtain d2 mis where d2: "LookupIDS d ids = (d2, mis)" by fastforce
    have "same (nd_db node) d2" using same_trans [OF s LookupIDS_same [of d ids]] d2 by simp
    then show ?thesis
      using d d2 Inr unfolding www_query_def Let_def d d2 prod.case Inr sum.case
      by (simp add: case_prod_unfold split: sum.split)
  qed
qed

lemma www_topics_quiet: "quiet node (www_topics w page node ctx)"
proof -
  obtain d x where d: "Select ctx (nil_query\<lparr>q_Echo := c_Echo ctx\<rparr>) (nd_db node) = (d, x)" by fastforce
  have s: "same (nd_db node) d" using Select_same d by (metis fst_same)
  show ?thesis
  proof (cases x)
    case (Inl e)
    then show ?thesis using d s by (simp add: www_topics_def)
  next
    case (Inr ids)
    obtain d2 mis where d2: "LookupIDS d ids = (d2, mis)" by fastforce
    have s2: "same (nd_db node) d2" using same_trans [OF s LookupIDS_same [of d ids]] d2 by simp
    show ?thesis
    proof (cases "GetTopics (w_fuel w) d2 (map mi_Id mis)")
      case None
      then show ?thesis using d d2 Inr s2 by (simp add: www_topics_def)
    next
      case (Some p)
      obtain d3 t where p: "p = (d3, t)" by fastforce
      have s3: "same (nd_db node) d3" using same_trans [OF s2 GetTopics_same] Some p by blast
      have "same (nd_db node) (fst (LoadIndex d3))" using same_trans [OF s3 LoadIndex_same] .
      then show ?thesis
        using d d2 Inr Some p by (simp add: www_topics_def Let_def case_prod_unfold)
    qed
  qed
qed

lemma www_topic_quiet: "quiet node (www_topic w page node ctx)"
proof -
  let ?mid = "c_BasePath ctx"
  obtain d mi where d: "Lookup (nd_db node) ?mid = (d, mi)" by fastforce
  have s: "same (nd_db node) d" using DB_Lookup_same d by (metis Lookup_def fst_same)
  show ?thesis
  proof (cases "\<exists>i. mi = Some i \<and> Access i (c_User ctx)")
    case False
    then show ?thesis using d s by (cases mi) (auto simp: www_topic_def)
  next
    case True
    then obtain i where i: "mi = Some i" "Access i (c_User ctx)" by blast
    let ?c = "(if page = 0 then ctx\<lparr>c_Selected := ?mid\<rparr> else ctx)\<lparr>c_Echo := mi_Echo i\<rparr>"
    obtain d1 x where d1: "Select ?c (nil_query\<lparr>q_Echo := mi_Echo i\<rparr>) d = (d1, x)" by fastforce
    have s1: "same (nd_db node) d1" using same_trans [OF s Select_same] d1 by (metis fst_conv)
    show ?thesis
    proof (cases x)
      case (Inl e)
      then show ?thesis using d i d1 s1 by (simp add: www_topic_def Let_def)
    next
      case (Inr ids)
      obtain d2 mis where d2: "LookupIDS d1 ids = (d2, mis)" by fastforce
      have s2: "same (nd_db node) d2" using same_trans [OF s1 LookupIDS_same [of d1 ids]] d2 by simp
      show ?thesis
      proof (cases "GetTopics (w_fuel w) d2 (map mi_Id mis)")
        case None
        then show ?thesis using d i d1 d2 Inr s2 by (simp add: www_topic_def Let_def)
      next
        case (Some p)
        obtain d3 t where p: "p = (d3, t)" by fastforce
        have s3: "same (nd_db node) d3" using same_trans [OF s2 GetTopics_same] Some p by blast
        have "same (nd_db node) (fst (fill d3 is n))" for "is" n using same_trans [OF s3 fill_same] .
        then show ?thesis
          using d i d1 d2 Inr Some p by (simp add: www_topic_def Let_def case_prod_unfold)
      qed
    qed
  qed
qed

lemma www_reply_quiet: "quiet node (www_reply quote node ctx)"
proof -
  obtain d x where d: "Get (nd_db node) (c_BasePath ctx) = (d, x)" by fastforce
  have "same (nd_db node) d" using Get_same d by (metis fst_same)
  then show ?thesis using d by (simp add: www_reply_def Let_def split: option.split sum.split)
qed

lemma www_base64_quiet: "quiet node (www_base64 node ctx)"
proof -
  obtain d x where d: "Get (nd_db node) (c_BasePath ctx) = (d, x)" by fastforce
  have "same (nd_db node) d" using Get_same d by (metis fst_same)
  then show ?thesis using d by (simp add: www_base64_def Let_def case_prod_unfold split: option.split)
qed

lemma writes_after:
  "same (nd_db node) db \<Longrightarrow> writes now P (upd_db node db) out \<Longrightarrow> writes now P node out"
  unfolding writes_def quiet_def using appended_after same_trans by (auto simp: upd_db_def)

lemma appended_writes: "appended now (nd_db node) m db \<Longrightarrow> P m \<Longrightarrow> writes now P node (upd_db node db, ctx, x)"
  by (auto simp: writes_def upd_db_def)

lemma stored_writes:
  assumes "DB_Store now (nd_db node) m edit = (db, m', err)" and "P m"
  shows "writes now P node (upd_db node db, ctx, x)"
  using DB_Store_frame [OF assms(1)] appended_writes [of now node m db P] assms(2) by (auto intro: quiet_writes)

text \<open>
  Who may have a message appended: the administrator, or the account whose address it carries; by
  sending a form and with a name, or to hide a message.
\<close>

definition may_write :: "Node \<Rightarrow> User \<Rightarrow> Req \<Rightarrow> Msg \<Rightarrow> bool" where
  "may_write node u r m =
     ((us_Id u = 1 \<or> m_Addr m = own_addr node u) \<and>
      (r_Method r = ''POST'' \<and> us_Name u \<noteq> [] \<or> blacklisted m))"

lemma own_addr_same: "same (nd_db node) db \<Longrightarrow> own_addr (upd_db node db) u = own_addr node u"
  by (simp add: own_addr_def same_def upd_db_def)

lemma may_write_same: "same (nd_db node) db \<Longrightarrow> may_write (upd_db node db) u r m = may_write node u r m"
  by (simp add: may_write_def own_addr_same)

lemma submit_writes: "P m \<Longrightarrow> writes (w_now w) P node (submit w edit m node ctx)"
proof -
  assume P: "P m"
  obtain db m' err where st: "(if edit then Edit (w_now w) (nd_db node) m else Store (w_now w) (nd_db node) m) = (db, m', err)"
    by (metis prod_cases3)
  then have "DB_Store (w_now w) (nd_db node) m edit = (db, m', err)"
    by (cases edit) (simp_all add: Edit_def Store_def)
  from stored_writes [OF this, of P] P show ?thesis
    using st by (cases err) (auto simp: submit_def fail_def)
qed

lemma post_writes:
  assumes "P m" shows "writes (w_now w) P node (post w edit act m node ctx)"
proof -
  obtain d x where d: "PointPolicy (c_User ctx) (nd_db node) m = (d, x)" by fastforce
  have s: "same (nd_db node) d" using PointPolicy_same d by (metis fst_same)
  have "writes (w_now w) P node (submit w edit m (upd_db node d) ctx)"
    by (rule writes_after [OF s submit_writes]) (rule assms)
  then show ?thesis
    using d s by (auto simp: post_def Let_def preview_def quiet_writes split: sum.split bool.split)
qed

lemma take_over_frame:
  assumes "take_over u mid m db = (db', x)"
  shows "same db db' \<and> (case x of Inl _ \<Rightarrow> True | Inr m' \<Rightarrow> us_Id u = 1 \<or> m_Addr m' = m_Addr m)"
proof -
  obtain d om where d: "Get db mid = (d, om)" by fastforce
  have "same db d" using Get_same d by (metis fst_same)
  then show ?thesis using assms d by (auto simp: take_over_def same_refl split: if_splits option.splits)
qed

lemma send_form_writes:
  assumes "r_Method r = ''POST''" "us_Name (c_User ctx) \<noteq> []"
  shows "writes (w_now w) (may_write node (c_User ctx) r) node (send_form w v node ctx)"
proof -
  define m0 where "m0 = DecodeMsgline (w_now w) ((if v ''echo'' \<noteq> [] then v ''echo'' else c_BasePath ctx) @ [NL] @
      v ''to'' @ [NL] @ v ''subj'' @ [NL, NL] @ v ''msg'') False"
  define repto where "repto = (if v ''repto'' = v ''id'' then [] else v ''repto'')"
  note eq = send_form_def [of w v node ctx, unfolded Let_def, folded m0_def repto_def]
  show ?thesis
  proof (cases m0)
    case (Inl e)
    then show ?thesis by (simp add: eq quiet_writes)
  next
    case m: (Inr m)
    obtain d x where d: "take_over (c_User ctx) (v ''id'') (sign node (c_User ctx) repto m) (nd_db node) = (d, x)"
      by fastforce
    note t = take_over_frame [OF d]
    have addr: "m_Addr (sign node (c_User ctx) repto m) = own_addr node (c_User ctx)"
      by (simp add: sign_def Let_def)
    show ?thesis
    proof (cases x)
      case (Inl e)
      then show ?thesis using d t m by (simp add: eq quiet_writes)
    next
      case (Inr m')
      then have "may_write node (c_User ctx) r m'" using t addr assms by (auto simp: may_write_def)
      then have "writes (w_now w) (may_write node (c_User ctx) r) node (post w edit act m' (upd_db node d) ctx)"
        for edit act
        using t by (intro writes_after [OF _ post_writes]) auto
      then show ?thesis using d m Inr by (simp add: eq)
    qed
  qed
qed

lemma www_new_writes: "writes (w_now w) (may_write node (c_User ctx) r) node (www_new w r node ctx)"
  using send_form_writes [of r "ctx\<lparr>c_Echo := c_BasePath ctx\<rparr>" w node]
  by (auto simp: www_new_def Let_def quiet_writes split: option.split)

lemma www_edit_writes: "writes (w_now w) (may_write node (c_User ctx) r) node (www_edit w r node ctx)"
proof -
  obtain d x where d: "Get (nd_db node) (c_BasePath ctx) = (d, x)" by fastforce
  have "same (nd_db node) d" using Get_same d by (metis fst_same)
  then show ?thesis
    using d www_new_writes [of w node "ctx\<lparr>c_BasePath := []\<rparr>" r]
    by (auto simp: www_edit_def Let_def quiet_writes split: option.split)
qed

lemma add_access_blacklisted: "blacklisted (m\<lparr>m_Tags := add_tag (m_Tags m) ''access/blacklist''\<rparr>)"
  by (simp add: blacklisted_def Msg_tag_val_def Tags_val_def Tags_Get_def add_tag_def Tags_Add_def)

lemma www_blacklist_writes: "writes (w_now w) (may_write node (c_User ctx) r) node (www_blacklist w node ctx)"
proof -
  obtain d x where d: "Get (nd_db node) (c_BasePath ctx) = (d, x)" by fastforce
  have s: "same (nd_db node) d" using Get_same d by (metis fst_same)
  show ?thesis
  proof (cases "\<exists>m. x = Some m \<and> msg_access (upd_db node d) m (c_User ctx)")
    case False
    then show ?thesis using d s by (cases x) (auto simp: www_blacklist_def Let_def quiet_writes)
  next
    case True
    then obtain m where m: "x = Some m" "msg_access (upd_db node d) m (c_User ctx)" by blast
    let ?m = "m\<lparr>m_Tags := add_tag (m_Tags m) ''access/blacklist''\<rparr>"
    obtain db m' err where st: "DB_Store (w_now w) d ?m True = (db, m', err)" by (metis prod_cases3)
    have "may_write node (c_User ctx) r ?m"
      using m(2) own_addr_same [OF s] add_access_blacklisted by (auto simp: may_write_def msg_access_def)
    then have "writes (w_now w) (may_write node (c_User ctx) r) node (upd_db node db, ctx, y)" for y
      using stored_writes [of "w_now w" "upd_db node d" ?m True db m' err] st writes_after [OF s]
      by (simp add: upd_db_def)
    then show ?thesis
      using d m st by (cases err) (auto simp: www_blacklist_def Let_def Blacklist_def Edit_def fail_def upd_db_def)
  qed
qed

text \<open>
  The handlers of accounts leave messages and areas alone. The file of accounts stays as it was, or \<open>P\<close>
  holds of the new one.
\<close>

definition accounts :: "(gofile \<Rightarrow> bool) \<Rightarrow> Node \<Rightarrow> outcome \<Rightarrow> bool" where
  "accounts P node out =
     (nd_db (fst out) = nd_db node \<and> nd_edb (fst out) = nd_edb node \<and>
      (ud_file (nd_udb (fst out)) = ud_file (nd_udb node) \<or> P (ud_file (nd_udb (fst out)))))"

lemma accounts_simps [simp]:
  "accounts P node (node, ctx, x)"
  "accounts P node (render tpl node' ctx) = accounts P node (node', ctx, Inr Page)"
  "accounts P node (fail e node' ctx) = accounts P node (node', ctx, Inl e)"
  by (simp_all add: accounts_def render_def fail_def)

lemma accounts_put: "P (ud_file udb) \<Longrightarrow> accounts P node (node\<lparr>nd_udb := udb\<rparr>, ctx, x)"
  by (simp add: accounts_def)

text \<open>The accounts in memory after a reload.\<close>

definition reloaded :: "World \<Rightarrow> UDB \<Rightarrow> UDB" where
  "reloaded w udb = fst (LoadUsers (w_compile w) udb)"

text \<open>
  What a form of registration may make of the file: a new password for the account of the secret it shows,
  or, without a secret, a new account.
\<close>

definition registered :: "UDB \<Rightarrow> (string \<Rightarrow> string) \<Rightarrow> gofile \<Rightarrow> bool" where
  "registered udb v f =
     (if v ''auth'' \<noteq> []
      then \<exists>a. UserInfo udb (v ''auth'') = Some a \<and>
             f = ud_file (fst (UDB_Edit udb (a\<lparr>us_Secret := MakeSecret (us_Name a @ v ''password'')\<rparr>)))
      else \<exists>info. f = ud_file (fst (UDB_Add udb (v ''username'') (v ''email'') (v ''password'') info)))"

definition new_avatar :: "UDB \<Rightarrow> User \<Rightarrow> (string \<Rightarrow> string) \<Rightarrow> gofile \<Rightarrow> bool" where
  "new_avatar udb u v f =
     (\<exists>t. avatar_tags (v ''avatar'') (us_Tags u) = Inr t \<and> f = ud_file (fst (UDB_Edit udb (u\<lparr>us_Tags := t\<rparr>))))"

definition managed :: "UDB \<Rightarrow> string list \<Rightarrow> gofile \<Rightarrow> bool" where
  "managed udb args f =
     (length args > 2 \<and> (\<exists>a. UserInfoName udb (args ! 2) = Some a \<and>
        f = ud_file (fst (UDB_Edit udb (a\<lparr>us_Tags := point_action (args ! 1) (us_Tags a)\<rparr>)))))"

lemma run_load_user_file: "ud_file (fst (run_lines load_user_line ls st)) = ud_file (fst st)"
proof (induction ls arbitrary: st)
  case (Cons x ls)
  obtain st' go where s: "load_user_line x st = (st', go)" by fastforce
  then have "ud_file (fst st') = ud_file (fst st)"
    by (auto simp: load_user_line_def split: prod.splits sum.splits option.splits if_splits)
  then show ?case using Cons.IH [of st'] s by (cases go) auto
qed simp

lemma LoadUsers_file: "ud_file (fst (LoadUsers compile db)) = ud_file db"
proof -
  have f: "FileLines f load_user_line st = (st', e) \<Longrightarrow> ud_file (fst st') = ud_file (fst st)" for f st st' e
  proof (cases f)
    case (File s)
    assume "FileLines f load_user_line st = (st', e)"
    then have "st' = run_lines load_user_line (text_lines s) st" using File by (simp add: FileLines_def f_lines_def)
    then show ?thesis by (simp only: run_load_user_file)
  qed (simp_all add: FileLines_def)
  show ?thesis
    by (auto simp: LoadUsers_def Let_def loadPolicy_frame split: prod.split option.split dest!: f)
qed

lemma reload_frame:
  "reload w node = (node', x) \<Longrightarrow>
     node' = node\<lparr>nd_udb := reloaded w (nd_udb node)\<rparr> \<and> ud_file (nd_udb node') = ud_file (nd_udb node)"
  using LoadUsers_file [of "w_compile w" "nd_udb node"]
  by (auto simp: reload_def load_users_def reloaded_def split: prod.splits)

lemma accounts_reload:
  assumes "reload w node = (node', x)" and "accounts P node' out"
  shows "accounts P node out"
  using reload_frame [OF assms(1)] assms(2) by (auto simp: accounts_def)

lemma new_password_accounts:
  "v ''auth'' \<noteq> [] \<Longrightarrow> accounts (registered (nd_udb node) v) node (new_password (v ''auth'') (v ''password'') node ctx)"
  by (auto simp: new_password_def registered_def intro!: accounts_put split: option.split prod.split)

lemma register_accounts: "v ''auth'' = [] \<Longrightarrow> accounts (registered (nd_udb node) v) node (register w r v node ctx)"
proof -
  assume v: "v ''auth'' = []"
  have "registered (nd_udb node) v (ud_file udb)"
    if "UDB_Add (nd_udb node) (v ''username'') (v ''email'') (v ''password'') info = (udb, e)" for info udb e
    using v that unfolding registered_def by (auto intro!: exI [of _ info])
  then show ?thesis
    by (auto simp: register_def www_register_verify_def Let_def intro!: accounts_put split: sum.split prod.split option.split)
qed

lemma www_register_accounts:
  "accounts (\<lambda>f. r_Method r = ''POST'' \<and> (\<exists>v. r_Form r = Some v \<and> registered (reloaded w (nd_udb node)) v f)) node
     (www_register w r node ctx)"
proof -
  obtain node' x where n: "reload w node = (node', x)" by fastforce
  then have udb: "nd_udb node' = reloaded w (nd_udb node)" using reload_frame by fastforce
  have "accounts (\<lambda>f. \<exists>v. r_Form r = Some v \<and> registered (nd_udb node') v f) node'
      (if v ''auth'' \<noteq> [] then new_password (v ''auth'') (v ''password'') node' ctx else register w r v node' ctx)"
    if "r_Form r = Some v" for v
    using new_password_accounts [of v node' ctx] register_accounts [of v node' w r ctx] that
    by (auto simp: accounts_def)
  then show ?thesis
    using n accounts_reload [OF n] unfolding www_register_def udb
    by (auto split: option.split)
qed

lemma www_avatar_accounts:
  "accounts (\<lambda>f. r_Method r = ''POST'' \<and> user = us_Name (c_User ctx) \<and> us_Name (c_User ctx) \<noteq> [] \<and>
       (\<exists>v. r_Form r = Some v \<and> new_avatar (nd_udb node) (c_User ctx) v f))
     node (www_avatar w r user node ctx)"
proof -
  have "accounts (\<lambda>f. \<exists>v. r_Form r = Some v \<and> new_avatar (nd_udb node) (c_User ctx) v f) node (set_avatar r node ctx)"
    by (auto simp: set_avatar_def new_avatar_def Let_def intro!: accounts_put split: option.split sum.split prod.split)
  then have "r_Method r = ''POST'' \<Longrightarrow> user = us_Name (c_User ctx) \<Longrightarrow> us_Name (c_User ctx) \<noteq> [] \<Longrightarrow> ?thesis"
    by (simp add: www_avatar_def)
  moreover have "accounts P node (get_avatar w user node ctx)" for P
    by (simp add: get_avatar_def Let_def split: option.split sum.split)
  ultimately show ?thesis by (auto simp: www_avatar_def)
qed

lemma www_points_accounts:
  "accounts (\<lambda>f. us_Id (c_User ctx) = 1 \<and> managed (nd_udb node) args f) node (www_points w args node ctx)"
proof -
  have "accounts P node (case reload w (node\<lparr>nd_udb := udb\<rparr>) of
      (node, Some e) \<Rightarrow> fail e node ctx' | (node, None) \<Rightarrow> render tpl node ctx')" if "P (ud_file udb)" for P udb ctx' tpl
  proof -
    obtain node' x where n: "reload w (node\<lparr>nd_udb := udb\<rparr>) = (node', x)" by fastforce
    then show ?thesis using reload_frame [OF n] that by (cases x) (auto simp: accounts_def render_def fail_def)
  qed
  then show ?thesis by (auto simp: www_points_def managed_def Let_def split: option.split)
qed

lemma www_login_accounts: "accounts P node (www_login r node ctx)"
  by (simp add: www_login_def split: option.split)

lemma register_page_accounts:
  "accounts (\<lambda>f. r_Method r = ''POST'' \<and>
       (\<exists>v. r_Form r = Some v \<and> registered (reloaded w (reloaded w (nd_udb node))) v f)) node
     (case reload w node of
     (node, Some e) \<Rightarrow> fail e node ctx
   | (node, None) \<Rightarrow>
       let ctx = ctx' in
       if ud_Locked (nd_udb node) then www_register_locked r node ctx else www_register w r node ctx)"
proof -
  obtain node' x where n: "reload w node = (node', x)" by fastforce
  then have udb: "nd_udb node' = reloaded w (nd_udb node)" using reload_frame by fastforce
  show ?thesis
    using n accounts_reload [OF n] www_register_accounts [of r w node' ctx'] unfolding udb
    by (auto simp: www_register_locked_def split: option.split)
qed

section \<open>The dispatcher\<close>

lemma listing_quiet: "quiet node (listing w what args q node ctx)"
  by (simp add: listing_def www_query_quiet split: sum.split prod.split)

lemma quiet_after: "same (nd_db node) db \<Longrightarrow> quiet (upd_db node db) out \<Longrightarrow> quiet node out"
  using same_trans by (auto simp: quiet_def upd_db_def)

lemma echo_query_same: "same db (fst (echo_query db e))"
  using DB_Lookup_same [of db e False True]
  by (cases "DB_Lookup db e False True"; cases "snd (DB_Lookup db e False True)")
    (auto simp: echo_query_def Lookup_def same_refl)

lemma www_echo_quiet: "quiet node (www_echo w topics args node ctx)"
  using echo_query_same [of "nd_db node" "args ! 1"]
  by (auto simp: www_echo_def Let_def split: sum.split prod.split intro: quiet_after [OF _ www_query_quiet])

lemma message_writes: "writes (w_now w) (may_write node (c_User ctx) r) node (message w r args node ctx)"
proof -
  let ?c = "ctx\<lparr>c_BasePath := args ! 0\<rparr>"
  have "writes (w_now w) (may_write node (c_User ctx) r) node (www_edit w r node ?c)"
    "writes (w_now w) (may_write node (c_User ctx) r) node (www_blacklist w node ?c)"
    using www_edit_writes [of w node ?c r] www_blacklist_writes [of w node ?c r] by simp_all
  then show ?thesis
    by (simp add: message_def Let_def quiet_writes www_reply_quiet www_base64_quiet www_topic_quiet)
qed

lemma echo_area_writes: "writes (w_now w) (may_write node (c_User ctx) r) node (echo_area w r args node ctx)"
  using www_new_writes [of w node "ctx\<lparr>c_Echo := args ! 0, c_BasePath := args ! 0\<rparr>" r]
  by (simp add: echo_area_def Let_def quiet_writes www_topics_quiet)

text \<open>
  The effect of a request: nothing, one message the account may write, or a change of accounts: by the
  administrator, by a registration, or by an account of its own avatar.
\<close>

definition may_change :: "World \<Rightarrow> User \<Rightarrow> Req \<Rightarrow> string list \<Rightarrow> UDB \<Rightarrow> gofile \<Rightarrow> bool" where
  "may_change w u r args udb f =
     (us_Id u = 1 \<and> args ! 0 = ''points'' \<and> managed udb args f \<or>
      r_Method r = ''POST'' \<and> (\<exists>v. r_Form r = Some v \<and>
        (args ! 0 = ''register'' \<and> registered (reloaded w (reloaded w udb)) v f \<or>
         args ! 0 = ''avatar'' \<and> args ! 1 = us_Name u \<and> us_Name u \<noteq> [] \<and> new_avatar udb u v f)))"

definition effect :: "World \<Rightarrow> Req \<Rightarrow> string list \<Rightarrow> User \<Rightarrow> Node \<Rightarrow> outcome \<Rightarrow> bool" where
  "effect w r args u node out =
     (writes (w_now w) (may_write node u r) node out \<or> accounts (may_change w u r args (nd_udb node)) node out)"

lemma effect_if:
  "(c \<Longrightarrow> effect w r args u node a) \<Longrightarrow> (\<not> c \<Longrightarrow> effect w r args u node b) \<Longrightarrow>
   effect w r args u node (if c then a else b)"
  by simp

lemma effect_writes: "writes (w_now w) (may_write node u r) node out \<Longrightarrow> effect w r args u node out"
  by (simp add: effect_def)

lemma effect_quiet: "quiet node out \<Longrightarrow> effect w r args u node out"
  by (simp add: effect_def quiet_writes)

lemma effect_accounts:
  "accounts P node out \<Longrightarrow> (\<And>f. P f \<Longrightarrow> may_change w u r args (nd_udb node) f) \<Longrightarrow> effect w r args u node out"
  by (auto simp: effect_def accounts_def)

lemma dispatch_effect: "effect w r args (c_User ctx) node (dispatch w r args node ctx)"
proof -
  have n: "writes (w_now w) (may_write node (c_User ctx) r) node (www_new w r node (ctx\<lparr>c_BasePath := []\<rparr>))"
    using www_new_writes [of w node "ctx\<lparr>c_BasePath := []\<rparr>" r] by simp
  have p: "quiet node (www_logout node c)" "quiet node (www_profile node c)" for c
    by (simp_all add: www_logout_def www_profile_def Let_def)
  have l: "quiet node (www_login r node c)" for c
    by (simp add: www_login_def split: option.split)
  have pt: "effect w r args (c_User ctx) node (www_points w args node ctx)" if "args ! 0 = ''points''"
    using effect_accounts [OF www_points_accounts] that by (simp add: may_change_def)
  have rg: "effect w r args (c_User ctx) node (case reload w node of
     (node, Some e) \<Rightarrow> fail e node ctx
   | (node, None) \<Rightarrow>
       let ctx = ctx\<lparr>c_BasePath := ''register''\<rparr> in
       if ud_Locked (nd_udb node) then www_register_locked r node ctx else www_register w r node ctx)"
    if "args ! 0 = ''register''"
    using effect_accounts [OF register_page_accounts] that by (simp add: may_change_def)
  have av: "effect w r args (c_User ctx) node (www_avatar w r (args ! 1) node (ctx\<lparr>c_BasePath := ''avatar''\<rparr>))"
    if "args ! 0 = ''avatar''"
    using effect_accounts [OF www_avatar_accounts [of r "args ! 1" "ctx\<lparr>c_BasePath := ''avatar''\<rparr>" node w]] that
    by (simp add: may_change_def)
  have q: "effect w r args u node (node, c, x)" "effect w r args u node (render tpl node c)"
    "effect w r args u node (fail e node c)" for u c x tpl e
    by (simp_all add: effect_quiet)
  show ?thesis
    unfolding dispatch_def Let_def [of "args ! 0"]
    by (intro effect_if;
        rule effect_writes [OF n] effect_writes [OF message_writes] effect_writes [OF echo_area_writes]
          effect_quiet [OF www_index_quiet] effect_quiet [OF listing_quiet]
          effect_quiet [OF www_echo_quiet] effect_quiet [OF l] effect_quiet [OF p(1)] effect_quiet [OF p(2)]
          pt rg av q; assumption?)
qed

text \<open>
  The same on the list of accounts: which record changes, and how. The record is the one of the secret or of the
  name that was sent; the administrator alone changes those of others.
\<close>

definition account_step :: "Req \<Rightarrow> string list \<Rightarrow> User \<Rightarrow> User list \<Rightarrow> User list \<Rightarrow> bool" where
  "account_step r args u us us' =
     (us_Id u = 1 \<and> args ! 0 = ''points'' \<and> length args > 2 \<and>
        (\<exists>a\<in>set us. us_Name a = args ! 2 \<and> us' = edited us (a\<lparr>us_Tags := point_action (args ! 1) (us_Tags a)\<rparr>)) \<or>
      r_Method r = ''POST'' \<and> (\<exists>v. r_Form r = Some v \<and>
        (args ! 0 = ''register'' \<and> v ''auth'' \<noteq> [] \<and>
           (\<exists>a\<in>set us. us_Secret a = v ''auth'' \<and>
              us' = edited us (a\<lparr>us_Secret := MakeSecret (us_Name a @ v ''password'')\<rparr>)) \<or>
         args ! 0 = ''register'' \<and> v ''auth'' = [] \<and> v ''username'' \<notin> us_Name ` set us \<and>
           (\<exists>info. us' = us @ [joining us (v ''username'') (v ''email'') (v ''password'') info]) \<or>
         args ! 0 = ''avatar'' \<and> args ! 1 = us_Name u \<and> u \<in> set us \<and>
           (\<exists>t. avatar_tags (v ''avatar'') (us_Tags u) = Inr t \<and> us' = edited us (u\<lparr>us_Tags := t\<rparr>)))))"

lemma reloaded_loaded: "udb_rep udb us \<Longrightarrow> udb_loaded (reloaded w udb) us"
  using LoadUsers_rep [of udb us "w_compile w"] by (simp add: reloaded_def)

lemma reloaded_file: "ud_file (reloaded w udb) = ud_file udb"
  by (simp add: reloaded_def LoadUsers_file)

lemma registered_step:
  assumes "udb_loaded udb us" "registered udb v f" "r_Method r = ''POST''" "r_Form r = Some v" "args ! 0 = ''register''"
  shows "f = ud_file udb \<or> (\<exists>us'. f = File (users_text us') \<and> account_step r args u us us')"
proof (cases "v ''auth'' = []")
  case True
  then obtain info where "f = ud_file (fst (UDB_Add udb (v ''username'') (v ''email'') (v ''password'') info))"
    using assms(2) by (auto simp: registered_def)
  then show ?thesis
    using UDB_Add_text [OF assms(1), of "v ''username''" "v ''email''" "v ''password''" info] assms(3-5) True
    unfolding account_step_def by blast
next
  case False
  then obtain a where a: "UserInfo udb (v ''auth'') = Some a"
      "f = ud_file (fst (UDB_Edit udb (a\<lparr>us_Secret := MakeSecret (us_Name a @ v ''password'')\<rparr>)))"
    using assms(2) by (auto simp: registered_def)
  have m: "a \<in> set us" "us_Secret a = v ''auth''" using UserInfo_loaded [OF assms(1), of "v ''auth''"] a(1) by auto
  then show ?thesis
    using UDB_Edit_text [OF assms(1) m(1), of "a\<lparr>us_Secret := MakeSecret (us_Name a @ v ''password'')\<rparr>"] a(2) assms(3-5) False
    unfolding account_step_def by auto
qed

lemma identify_member:
  assumes "udb_loaded udb us" "us_Name (identify udb cookie) \<noteq> []"
  shows "identify udb cookie \<in> set us"
  using assms UserInfo_loaded [OF assms(1)]
  by (fastforce simp: identify_def nil_user_def split: option.splits if_splits)

lemma may_change_step:
  assumes ld: "udb_loaded udb us" and f: "may_change w u r args udb f" and u: "us_Name u \<noteq> [] \<Longrightarrow> u \<in> set us"
  shows "f = ud_file udb \<or> (\<exists>us'. f = File (users_text us') \<and> account_step r args u us us')"
proof -
  consider "us_Id u = 1" "args ! 0 = ''points''" "managed udb args f"
    | v where "r_Method r = ''POST''" "r_Form r = Some v" "args ! 0 = ''register''"
        "registered (reloaded w (reloaded w udb)) v f"
    | v where "r_Method r = ''POST''" "r_Form r = Some v" "args ! 0 = ''avatar''" "args ! 1 = us_Name u" "us_Name u \<noteq> []"
        "new_avatar udb u v f"
    using f unfolding may_change_def by blast
  then show ?thesis
  proof cases
    case 1
    then obtain a where a: "UserInfoName udb (args ! 2) = Some a" "length args > 2"
        "f = ud_file (fst (UDB_Edit udb (a\<lparr>us_Tags := point_action (args ! 1) (us_Tags a)\<rparr>)))"
      by (auto simp: managed_def)
    have m: "a \<in> set us" "us_Name a = args ! 2" using UserInfoName_member [OF ld a(1)] by auto
    then show ?thesis
      using UDB_Edit_text [OF ld m(1), of "a\<lparr>us_Tags := point_action (args ! 1) (us_Tags a)\<rparr>"] 1 a(2,3)
      unfolding account_step_def by auto
  next
    case 2
    have "udb_loaded (reloaded w (reloaded w udb)) us"
      by (intro reloaded_loaded udb_loaded_rep ld)
    then show ?thesis using registered_step [OF _ 2(4,1,2,3), of us u] by (simp add: reloaded_file)
  next
    case 3
    then obtain t where t: "avatar_tags (v ''avatar'') (us_Tags u) = Inr t" "f = ud_file (fst (UDB_Edit udb (u\<lparr>us_Tags := t\<rparr>)))"
      by (auto simp: new_avatar_def)
    have m: "u \<in> set us" using u 3(5) .
    show ?thesis
      using UDB_Edit_text [OF ld m, of "u\<lparr>us_Tags := t\<rparr>"] 3 t m unfolding account_step_def by auto
  qed
qed

text \<open>A whole request: only the account of the cookie counts.\<close>

lemma handleWWW_effect:
  assumes "reload w node = (node', None)"
  shows "effect w r (snd (route (r_Path r))) (identify (nd_udb node') (r_Cookie r)) node' (handleWWW w host r node)"
proof -
  let ?u = "identify (nd_udb node') (r_Cookie r)" and ?args = "snd (route (r_Path r))"
  let ?c = "new_ctx\<lparr>c_Sysname := db_Name (nd_db node'), c_Host := host,
    c_Admin := (case UserInfoId (nd_udb node') 1 of None \<Rightarrow> nil_user | Some u \<Rightarrow> u)\<rparr>"
  obtain node2 c2 y where h: "handle_www w r node' ?c = (node2, c2, y)" by (metis prod_cases3)
  have "effect w r ?args ?u node' (dispatch w r ?args node' ctx)" if "c_User ctx = ?u" for ctx
    using dispatch_effect [of w r ?args ctx node'] that by simp
  then have "effect w r ?args ?u node' (handle_www w r node' ?c)"
    by (simp add: handle_www_def Let_def case_prod_unfold)
  then have "effect w r ?args ?u node' (node2, c3, z)" for c3 z
    using h by (simp add: effect_def writes_def quiet_def accounts_def)
  then show ?thesis
    using assms h by (auto simp: handleWWW_def Let_def fail_def render_def split: sum.split ii_error.split)
qed

lemma handleWWW_panic: "reload w node = (node', Some e) \<Longrightarrow> handleWWW w host r node = (node', new_ctx, Inl e)"
  by (simp add: handleWWW_def fail_def)

end
