(* ===== verification/II_Listing.thy ===== *)
theory II_Listing
  imports II_Guard
begin

text \<open>
  What the lists of the web interface show: the pager cuts a list into pages that cover it, and a page of
  \<^verbatim>\<open>www_query\<close> is a page of the messages the log shows to the user.
\<close>

section \<open>The pager\<close>

definition page_count :: "nat \<Rightarrow> nat" where
  "page_count n = (n + PAGE_SIZE - 1) div PAGE_SIZE"

definition page_slice :: "'a list \<Rightarrow> nat \<Rightarrow> 'a list" where
  "page_slice xs p = take PAGE_SIZE (drop (PAGE_SIZE * p) xs)"

lemma page_count_eq:
  "int (page_count n) = (if n mod PAGE_SIZE \<noteq> 0 then int (n div PAGE_SIZE) + 1 else int (n div PAGE_SIZE))"
proof -
  define q r where "q = n div 50" and "r = n mod 50"
  have n: "n = 50 * q + r" "r < 50" by (simp_all add: q_def r_def)
  have "(n + 50 - 1) div 50 = q + (r + 49) div 50"
    using n(1) div_mult_self2 [of 50 "r + 49" q] by (simp add: algebra_simps)
  also have "(r + 49) div 50 = (if r \<noteq> 0 then 1 else 0)"
    using n(2) div_if [of "r + 49" 50] by (simp split: if_split)
  finally show ?thesis by (simp add: page_count_def PAGE_SIZE_def q_def r_def)
qed

lemma makePager_fields:
  "c_Msg (snd (makePager ctx n p)) = c_Msg ctx" "c_User (snd (makePager ctx n p)) = c_User ctx"
  "c_Pages (snd (makePager ctx n p)) = int (page_count n)" "c_Selected (snd (makePager ctx n p)) = c_Selected ctx"
  "0 \<le> fst (makePager ctx n p)" "c_Topics (snd (makePager ctx n p)) = c_Topics ctx"
  by (simp_all add: makePager_def Let_def page_count_eq split: if_split prod.split)

lemma page_start:
  assumes "1 \<le> p" "p \<le> page_count n" "n < 2 ^ 62"
  shows "wrap64 ((int p - 1) * int PAGE_SIZE) = int (PAGE_SIZE * (p - 1))"
proof -
  have "PAGE_SIZE * (page_count n - 1) \<le> n" by (simp add: page_count_def PAGE_SIZE_def)
  moreover have "PAGE_SIZE * (p - 1) \<le> PAGE_SIZE * (page_count n - 1)" using assms by (intro mult_le_mono2 diff_le_mono)
  ultimately have b: "PAGE_SIZE * (p - 1) < 2 ^ 62" using assms by linarith
  have eq: "(int p - 1) * int PAGE_SIZE = int (PAGE_SIZE * (p - 1))"
    using assms(1) by (simp add: of_nat_diff algebra_simps)
  have "in64 (int k)" if "k < 2 ^ 62" for k :: nat using that by (simp add: in_range_def)
  then have "in64 (int (PAGE_SIZE * (p - 1)))" using b by blast
  then show ?thesis unfolding eq by (rule wrap64_id)
qed

lemma makePager_page:
  assumes "1 \<le> p" "p \<le> page_count n" "n < 2 ^ 62"
  shows "fst (makePager ctx n (int p)) = int (PAGE_SIZE * (p - 1)) \<and> c_Page (snd (makePager ctx n (int p))) = int p"
    and "c_Pager (snd (makePager ctx n (int p))) =
      c_Pager ctx @ (if 1 < page_count n then foldl (pager_step (int (page_count n)) (int p)) [] [1..int (page_count n)] else [])"
proof -
  note w = page_start [OF assms]
  have n: "\<not> int PAGE_SIZE * (int p - 1) < 0" using assms(1) by (simp add: not_less)
  then show "fst (makePager ctx n (int p)) = int (PAGE_SIZE * (p - 1)) \<and> c_Page (snd (makePager ctx n (int p))) = int p"
    using assms w by (simp add: makePager_def Let_def split: if_split)
  have "c_Pager (snd (makePager ctx n (int p))) =
      (if 1 < int (page_count n) then c_Pager ctx @ foldl (pager_step (int (page_count n)) (int p)) [] [1..int (page_count n)]
       else c_Pager ctx)"
    using assms(1) w n unfolding makePager_def Let_def page_count_eq [symmetric] by simp
  then show "c_Pager (snd (makePager ctx n (int p))) =
      c_Pager ctx @ (if 1 < page_count n then foldl (pager_step (int (page_count n)) (int p)) [] [1..int (page_count n)] else [])"
    by simp
qed

text \<open>Every list is the concatenation of its pages.\<close>

lemma pages_cover_gen:
  "length xs \<le> PAGE_SIZE * k \<Longrightarrow> concat (map (page_slice xs) [0..<k]) = xs"
proof (induction k arbitrary: xs)
  case (Suc k)
  have sh: "page_slice xs (Suc p) = page_slice (drop PAGE_SIZE xs) p" for p
    by (simp add: page_slice_def algebra_simps)
  have "map (page_slice xs) [0..<Suc k] = page_slice xs 0 # map (\<lambda>p. page_slice xs (Suc p)) [0..<k]"
    by (simp add: upt_conv_Cons map_Suc_upt [symmetric] del: upt_Suc)
  also have "concat \<dots> = take PAGE_SIZE xs @ drop PAGE_SIZE xs"
  proof -
    have "concat (map (page_slice (drop PAGE_SIZE xs)) [0..<k]) = drop PAGE_SIZE xs"
      using Suc.prems by (intro Suc.IH) simp
    then show ?thesis by (simp add: sh) (simp add: page_slice_def)
  qed
  finally show ?case by simp
qed simp

lemma pages_cover: "concat (map (page_slice xs) [0..<page_count (length xs)]) = xs"
  by (intro pages_cover_gen) (simp add: page_count_def PAGE_SIZE_def)

text \<open>The row of page numbers: the numbers near the page, the first and the last, gaps as single zeros.\<close>

definition near :: "int \<Rightarrow> int \<Rightarrow> int \<Rightarrow> bool" where
  "near pages page i = (i = 1 \<or> \<bar>i - page\<bar> \<le> PAGER_RANGE \<or> i = pages)"

definition single_gaps :: "int list \<Rightarrow> bool" where
  "single_gaps xs = (\<forall>i. Suc i < length xs \<longrightarrow> \<not> (xs ! i = 0 \<and> xs ! Suc i = 0))"

lemma single_gaps_snoc:
  "single_gaps xs \<Longrightarrow> (xs \<noteq> [] \<and> last xs = 0 \<Longrightarrow> x \<noteq> 0) \<Longrightarrow> single_gaps (xs @ [x])"
  unfolding single_gaps_def
  by (auto simp: nth_append last_conv_nth less_Suc_eq) (metis One_nat_def diff_Suc_1 last_conv_nth length_0_conv nat.distinct(1))

lemma pager_row:
  assumes "1 \<le> page" "page < 2 ^ 62" "int n < 2 ^ 62"
  shows "filter (\<lambda>i. i \<noteq> 0) (foldl (pager_step pages page) [] [1..int n]) = filter (near pages page) [1..int n] \<and>
    single_gaps (foldl (pager_step pages page) [] [1..int n]) \<and>
    (0 < n \<longrightarrow> foldl (pager_step pages page) [] [1..int n] \<noteq> [])"
  using assms(3)
proof (induction n)
  case 0
  then show ?case by (simp add: single_gaps_def)
next
  case (Suc n)
  let ?f = "foldl (pager_step pages page) [] [1..int n]" and ?i = "int (Suc n)"
  have split: "[1..?i] = [1..int n] @ [?i]" using upto_rec2 [of 1 ?i] by simp
  have w: "wrap64 (?i - page) = ?i - page" using assms Suc.prems by (intro wrap64_id) (auto simp: in_range_def)
  have IH: "filter (\<lambda>i. i \<noteq> 0) ?f = filter (near pages page) [1..int n]" "single_gaps ?f" "0 < n \<longrightarrow> ?f \<noteq> []"
    using Suc by auto
  show ?case
  proof (cases "near pages page ?i")
    case True
    then have "pager_step pages page ?f ?i = ?f @ [?i]" unfolding pager_step_def near_def w by simp
    then show ?thesis using True IH single_gaps_snoc [of ?f ?i] unfolding split by simp
  next
    case False
    then have "n \<noteq> 0" by (auto simp: near_def)
    then have "pager_step pages page ?f ?i = (if last ?f \<noteq> 0 then ?f @ [0] else ?f)" "?f \<noteq> []"
      using False IH unfolding pager_step_def near_def w by auto
    then show ?thesis using False IH single_gaps_snoc [of ?f 0] unfolding split by auto
  qed
qed

section \<open>Lookups on a loaded database\<close>

lemma LoadIndex_loaded: "db_loaded db log \<Longrightarrow> LoadIndex db = (db, None)"
  by (auto simp: db_loaded_def mem_loaded_def LoadIndex_def load_opened_def)

text \<open>The entries of the ids a reader may see, in the order of the ids.\<close>

definition entries :: "DB \<Rightarrow> string list \<Rightarrow> MsgInfo list" where
  "entries db ids = List.map_filter (\<lambda>i. snd (DB_Lookup db i False False)) ids"

lemma LookupIDS_loaded: "db_loaded db log \<Longrightarrow> LookupIDS db ids = (db, entries db ids)"
proof (induction ids)
  case (Cons i ids)
  have "DB_Lookup db i False True = DB_Lookup db i False False"
    using LoadIndex_loaded [OF Cons.prems] by (simp add: DB_Lookup_def)
  then have "DB_Lookup db i False True = (db, snd (DB_Lookup db i False False))"
    using DB_Lookup_loaded [OF Cons.prems, of i False] by (simp add: prod_eq_iff)
  then show ?case using Cons by (simp add: entries_def map_filter_def split: option.split)
qed (simp add: entries_def map_filter_def)

lemma Lookup_entry:
  assumes "db_loaded db log" and "spec_get log i \<noteq> None"
  shows "\<exists>mi. snd (DB_Lookup db i False False) = Some mi \<and> mi_Id mi = i \<and>
    (\<exists>h. ix_Hash (db_Idx db) = Some h \<and> h i = Some mi)"
proof -
  obtain n m where n: "newest log i = Some (n, m)" "\<not> hidden n m"
    using assms(2) by (auto simp: spec_get_def split: option.splits if_splits)
  then obtain mi where mi: "snd (DB_Lookup db i False False) = Some mi"
    using DB_Lookup_loaded [OF assms(1), of i False] by auto
  obtain h where h: "ix_Hash (db_Idx db) = Some h" "table_wf h (ix_List (db_Idx db))"
    using assms(1) by (auto simp: db_loaded_def mem_loaded_def)
  have hi: "h i = Some mi" using mi h(1) by (auto simp: DB_Lookup_def split: option.splits if_splits)
  then have "mi_Id mi = i" using table_wf_Num [OF h(2)] by blast
  then show ?thesis using mi h hi by blast
qed

lemma entries_ids:
  assumes "db_loaded db log" and "\<forall>i\<in>set ids. spec_get log i \<noteq> None"
  shows "map mi_Id (entries db ids) = ids"
  using assms(2)
proof (induction ids)
  case (Cons i ids)
  obtain mi where "snd (DB_Lookup db i False False) = Some mi" "mi_Id mi = i"
    using Lookup_entry [OF assms(1), of i] Cons.prems by auto
  then show ?case using Cons by (simp add: entries_def map_filter_def)
qed (simp add: entries_def map_filter_def)

text \<open>Selected ids come in the order of their numbers, so sorting by falling number reverses them.\<close>

lemma insort_key_last: "\<forall>y\<in>set ys. g y < g x \<Longrightarrow> insort_key g x ys = ys @ [x]" for g :: "'a \<Rightarrow> int"
  by (induction ys) auto

lemma sort_key_falling:
  fixes f :: "'a \<Rightarrow> int"
  shows "sorted_wrt (\<lambda>x y. f x < f y) xs \<Longrightarrow> sort_key (\<lambda>x. - f x) xs = rev xs"
  by (induction xs) (auto simp: insort_key_last)

lemma sorted_wrt_filter_nums:
  assumes "table_wf h l"
  shows "sorted_wrt (\<lambda>i j. mi_Num (the (h i)) < mi_Num (the (h j))) l"
proof -
  have "mi_Num (the (h (l ! k))) = k" if "k < length l" for k
    using assms that by (auto simp: table_wf_def split: option.splits)
  then show ?thesis by (simp add: sorted_wrt_iff_nth_less)
qed

lemma sorted_log_slice:
  assumes "sorted_wrt P (first_occurrences (map m_MsgId log))"
  shows "sorted_wrt P (log_slice log q)"
proof -
  have ids: "sorted_wrt P (log_ids log q)" using assms by (simp add: log_ids_def sorted_wrt_filter)
  have "sorted_wrt P (drop k (log_ids log q))" "sorted_wrt P (take j (drop k (log_ids log q)))" for j k
    using sorted_wrt_drop [OF ids] sorted_wrt_take by blast+
  then show ?thesis by (simp add: log_slice_def limited_def last_n_def)
qed

lemma sorted_wrt_map_filter:
  assumes "\<And>x y a b. R x y \<Longrightarrow> f x = Some a \<Longrightarrow> f y = Some b \<Longrightarrow> S a b"
  shows "sorted_wrt R xs \<Longrightarrow> sorted_wrt S (List.map_filter f xs)"
proof (induction xs)
  case (Cons x xs)
  have "S a b" if "f x = Some a" "b \<in> set (List.map_filter f xs)" for a b
  proof -
    note t = that
    obtain y where "y \<in> set xs" "f y = Some b" using t(2) by (auto simp: map_filter_def)
    then show ?thesis using Cons.prems t(1) assms by auto
  qed
  then show ?case using Cons by (auto simp: map_filter_def)
qed (simp add: map_filter_def)

lemma entries_sorted:
  assumes ld: "db_loaded db log"
  shows "sort_key (\<lambda>i. - int (mi_Num i)) (entries db (log_slice log q)) = rev (entries db (log_slice log q))"
proof -
  have ml: "mem_loaded (db_Idx db) log" using ld by (simp add: db_loaded_def)
  then obtain h where h: "ix_Hash (db_Idx db) = Some h" "table_wf h (ix_List (db_Idx db))"
      "ix_List (db_Idx db) = first_occurrences (map m_MsgId log)"
    using mem_loaded_List [OF ml] unfolding mem_loaded_def by blast
  have e: "h i = Some mi" if "snd (DB_Lookup db i False False) = Some mi" for i mi
    using that h(1) by (auto simp: DB_Lookup_def split: option.splits if_splits)
  have srt: "sorted_wrt (\<lambda>i j. mi_Num (the (h i)) < mi_Num (the (h j))) (log_slice log q)"
    using sorted_wrt_filter_nums [OF h(2)] h(3) by (intro sorted_log_slice) simp
  have "sorted_wrt (\<lambda>x y. int (mi_Num x) < int (mi_Num y)) (entries db (log_slice log q))"
    unfolding entries_def by (rule sorted_wrt_map_filter [OF _ srt]) (use e in fastforce)
  then show ?thesis by (rule sort_key_falling)
qed

section \<open>The page of a list\<close>

lemma fill_fast_loaded:
  assumes ld: "db_loaded db log"
  shows "\<forall>i\<in>set ids. spec_get log i \<noteq> None \<Longrightarrow> fill_fast db ids nr = map (\<lambda>i. the (spec_get log i)) (take nr ids)"
proof (induction ids arbitrary: nr)
  case (Cons i ids)
  then obtain m where "GetFast db i = Some m" "spec_get log i = Some m"
    using GetFast_loaded [OF ld] by auto
  then show ?case using Cons by (cases nr) auto
qed simp

text \<open>Queries of the web interface do not count, invert, or show what is hidden.\<close>

definition web_query :: "Query \<Rightarrow> bool" where
  "web_query q = (\<not> q_Invert q \<and> q_Skip q = 0 \<and> q_Count q = 0 \<and> q_Match q = None \<and> \<not> q_NoAccess q \<and> \<not> q_Blacklisted q)"

text \<open>The ids of the list: what the log has for the user, newest first if the query counts from the end.\<close>

definition listed :: "Msg list \<Rightarrow> User \<Rightarrow> Query \<Rightarrow> string list" where
  "listed log u q =
     (if q_Start q < 0 then rev (log_slice log (q\<lparr>q_User := u\<rparr>)) else log_slice log (q\<lparr>q_User := u\<rparr>))"

lemma listed_readable:
  assumes "web_query q" and "i \<in> set (listed log u q)"
  shows "\<exists>m. spec_get log i = Some m \<and> may_read u m"
  using assms log_slice_readable [of i log "q\<lparr>q_User := u\<rparr>"]
  by (auto simp: listed_def web_query_def split: if_splits)

definition list_page :: "Msg list \<Rightarrow> Ctx \<Rightarrow> Query \<Rightarrow> int \<Rightarrow> Msg list" where
  "list_page log ctx q page =
     (let ids = listed log (c_User ctx) q;
          page = (if page = 0 then page_of (c_Selected ctx) ids else page);
          (start, _) = makePager ctx (length ids) page
      in map (\<lambda>i. the (spec_get log i)) (take PAGE_SIZE (drop (nat start) ids)))"

lemma www_query_page:
  assumes rep: "db_rep (nd_db node) log" and q: "web_query q"
  shows "\<exists>node' ctx'. www_query w q page False node ctx = (node', ctx', Inr Page) \<and>
    c_Msg ctx' = c_Msg ctx @ list_page log ctx q page \<and> c_Template ctx' = ''query.tpl'' \<and> db_rep (nd_db node') log"
proof -
  let ?q = "q\<lparr>q_User := c_User ctx\<rparr>" and ?u = "c_User ctx"
  let ?ids = "listed log ?u q"
  obtain db where s: "SelectIDS (nd_db node) ?q = (db, Inr (log_slice log ?q))" "db_loaded db log"
    using SelectIDS_log [OF rep, of ?q] q by (auto simp: web_query_def)
  define mis where "mis = (if q_Start q < 0 then sort_key (\<lambda>i. - int (mi_Num i)) (entries db (log_slice log ?q))
      else entries db (log_slice log ?q))"
  have vis: "\<forall>i\<in>set (log_slice log ?q). spec_get log i \<noteq> None"
    using log_slice_readable [of _ log ?q] q by (fastforce simp: web_query_def)
  have ids: "map mi_Id mis = ?ids"
    using entries_ids [OF s(2) vis] entries_sorted [OF s(2)] by (simp add: mis_def listed_def rev_map [symmetric])
  have len: "length mis = length ?ids" using arg_cong [OF ids, of length] by simp
  define page' where "page' = (if page = 0 then page_of (c_Selected ctx) ?ids else page)"
  obtain start ctx1 where p: "makePager ctx (length ?ids) page' = (start, ctx1)" by fastforce
  have vis': "\<forall>i\<in>set (drop (nat start) ?ids). spec_get log i \<noteq> None"
    using vis set_drop_subset [of "nat start" ?ids] by (auto simp: listed_def split: if_splits)
  have fill: "fill_fast db (map mi_Id (drop (nat start) mis)) PAGE_SIZE =
      map (\<lambda>i. the (spec_get log i)) (take PAGE_SIZE (drop (nat start) ?ids))"
    using fill_fast_loaded [OF s(2) vis'] ids by (simp add: drop_map [symmetric])
  have lp: "list_page log ctx q page = map (\<lambda>i. the (spec_get log i)) (take PAGE_SIZE (drop (nat start) ?ids))"
    using p by (simp add: list_page_def Let_def page'_def)
  have c1: "c_Msg ctx1 = c_Msg ctx" using makePager_fields(1) [of ctx "length ?ids" page'] p by simp
  have "www_query w q page False node ctx =
      render ''query.tpl'' (upd_db node db) (ctx1\<lparr>c_Msg := c_Msg ctx1 @ list_page log ctx q page\<rparr>)"
    unfolding www_query_def Select_def Let_def s(1) prod.case sum.case LookupIDS_loaded [OF s(2)] if_False
      mis_def [symmetric] ids len page'_def [symmetric] p fill lp ..
  then show ?thesis using c1 db_loaded_rep [OF s(2)] by (simp add: render_def upd_db_def)
qed

end
