(* ===== verification/II_Session.thy ===== *)
theory II_Session
  imports II_Listing
begin

text \<open>
  Accounts seen through the web interface: a login is recognized by the next request, and an avatar is
  shown as it was sent. Both go through the file of accounts.
\<close>

section \<open>Login\<close>

lemma identify_loaded:
  assumes "udb_loaded udb us" "distinct (map us_Secret us)" "u \<in> set us"
  shows "identify udb (Some (us_Secret u)) = u"
proof -
  have "UserInfo udb (us_Secret u) = Some u \<and> UDB_Access udb (us_Secret u)"
    using UserInfo_loaded [OF assms(1), of "us_Secret u"] assms(2,3)
    by (auto simp: distinct_map inj_on_def split: option.splits)
  then show ?thesis by (simp add: identify_def)
qed

lemma reload_rep:
  assumes "udb_rep (nd_udb node) us"
  shows "reload w node = (node\<lparr>nd_udb := fst (LoadUsers (w_compile w) (nd_udb node))\<rparr>, None) \<and>
    udb_loaded (fst (LoadUsers (w_compile w) (nd_udb node))) us"
  using LoadUsers_rep [OF assms, of "w_compile w"] load_users_rep [OF assms] by (simp add: reload_def)

lemma route_word: "CHR ''/'' \<notin> set s \<Longrightarrow> route (CHR ''/'' # s) = ([], [s])"
  by (simp add: route_def TrimPrefix_def Split_no_sep)

text \<open>\<^verbatim>\<open>POST /login\<close> gives out the secret of the account whose password was sent, or an error.\<close>

lemma login_answers:
  assumes rep: "udb_rep (nd_udb node) us" and r: "r_Method r = ''POST''" "r_Path r = ''/login''" "r_Form r = Some v"
  shows "\<exists>node' ctx' x. handleWWW w host r node = (node', ctx', x) \<and> udb_loaded (nd_udb node') us \<and>
    (case find (\<lambda>u. us_Name u = v ''username'') us of
       Some u \<Rightarrow> if us_Secret u = MakeSecret (us_Name u @ v ''password'')
         then x = Inr (SetCookie (us_Secret u) ''/'') else x = Inr Page \<and> c_Error ctx' = Some EAccessDenied
     | None \<Rightarrow> x = Inr Page \<and> c_Error ctx' = Some EAccessDenied)"
proof -
  let ?udb = "fst (LoadUsers (w_compile w) (nd_udb node))"
  let ?node = "node\<lparr>nd_udb := ?udb\<rparr>"
  have ld: "udb_loaded ?udb us" "reload w node = (?node, None)" using reload_rep [OF rep] by auto
  have mem: "udb_mem ?udb us" "users_ok us" using ld by (auto simp: udb_loaded_def)
  have route: "route ''/login'' = ([], [''login''])" by (rule route_word) simp
  have auth: "(Auth ?udb (v ''username'') (v ''password'') =
      (case find (\<lambda>u. us_Name u = v ''username'') us of None \<Rightarrow> False
       | Some u \<Rightarrow> us_Secret u = MakeSecret (us_Name u @ v ''password''))) \<and>
     (\<forall>u. find (\<lambda>u. us_Name u = v ''username'') us = Some u \<longrightarrow> Secret ?udb (v ''username'') = us_Secret u)"
  proof (cases "find (\<lambda>u. us_Name u = v ''username'') us")
    case None
    then have "map_get (ud_Names ?udb) (v ''username'') = None"
      using udb_mem_absent [OF mem(1), of "v ''username''"] by (auto simp: find_None_iff)
    then show ?thesis using None by (simp add: Auth_def)
  next
    case (Some u)
    then have u: "u \<in> set us" "us_Name u = v ''username''" by (auto simp: find_Some_iff)
    have "map_get (ud_Names ?udb) (v ''username'') = Some u" using udb_mem_user [OF mem u(1)] u(2) by simp
    then show ?thesis using Some u(2) by (simp add: Auth_def Secret_def)
  qed
  then show ?thesis
    using ld r route
    by (auto simp: handleWWW_def handle_www_def dispatch_def www_login_def Let_def fail_def render_def
        split: option.splits)
qed

section \<open>Avatars\<close>

lemma set_TrimSuffix_slash: "c \<noteq> CHR ''/'' \<Longrightarrow> c \<in> set (TrimSuffix s ''/'') \<longleftrightarrow> c \<in> set s"
proof (cases "s \<noteq> [] \<and> last s = CHR ''/''")
  case True
  assume c: "c \<noteq> CHR ''/''"
  have "set s = set (butlast s) \<union> {last s}" using True append_butlast_last_id [of s]
    by (metis list.simps(15) list.set(1) set_append)
  then show ?thesis using True c by (auto simp: TrimSuffix_1)
qed (auto simp: TrimSuffix_1)

text \<open>The characters of printed tags are those of the names and the values.\<close>

lemma Tags_String_chars:
  assumes "tags_ok t" and "c \<noteq> CHR ''/''"
  shows "c \<in> set (Tags_String t) \<longleftrightarrow> (\<exists>k v. Tags_Get t k = Some v \<and> (c \<in> set k \<or> c \<in> set v))"
proof (cases "tg_Hash t")
  case None
  then show ?thesis by (simp add: Tags_String_def Tags_Get_def)
next
  case (Some h)
  then have l: "set (tg_List t) = dom h" using assms(1) by (simp add: tags_ok_def)
  have "c \<in> set (Tags_String t) \<longleftrightarrow>
      (\<exists>k\<in>set (tg_List t). c \<in> set (case h k of None \<Rightarrow> [] | Some v \<Rightarrow> k @ ''/'' @ v @ ''/''))"
    unfolding Tags_String_def Some option.case set_TrimSuffix_slash [OF assms(2)] by simp
  also have "\<dots> \<longleftrightarrow> (\<exists>k v. h k = Some v \<and> (c \<in> set k \<or> c \<in> set v))"
    unfolding l using assms(2) by (fastforce simp: dom_def)
  finally show ?thesis using Some by (simp add: Tags_Get_def)
qed

lemma field_ok_add:
  assumes "tags_ok t" "field_ok (Tags_String t)" "CHR ''/'' \<notin> set k" "CHR ''/'' \<notin> set v" "no_lead k" "no_trail v"
    and "field_ok k" "field_ok v"
  shows "field_ok (Tags_String (add_tag t (k @ ''/'' @ v)))"
proof -
  have "c \<notin> set (Tags_String (add_tag t (k @ ''/'' @ v)))" if c: "c = CHR '':'' \<or> c = NL" for c
  proof
    assume "c \<in> set (Tags_String (add_tag t (k @ ''/'' @ v)))"
    moreover have s: "c \<noteq> CHR ''/''" using c by auto
    ultimately obtain k' v' where kv: "Tags_Get (add_tag t (k @ ''/'' @ v)) k' = Some v'" "c \<in> set k' \<or> c \<in> set v'"
      using Tags_String_chars [OF tags_ok_Add [OF assms(1,3-6)]] by blast
    then have "k' = k \<and> v' = v \<or> Tags_Get t k' = Some v'"
      unfolding Tags_Add_Get [OF assms(3,4)] by (auto split: if_splits)
    then show False
      using kv(2) Tags_String_chars [OF assms(1) s] assms(2,7,8) c by (auto simp: field_ok_def)
  qed
  then show ?thesis by (simp add: field_ok_def)
qed

text \<open>The account with a new avatar.\<close>

definition with_avatar :: "string \<Rightarrow> User \<Rightarrow> User" where
  "with_avatar ava u = u\<lparr>us_Tags := add_tag (us_Tags u) (''avatar/'' @ URLEncode ava)\<rparr>"

lemma avatar_word: "field_ok ''avatar''" "no_lead ''avatar''" "CHR ''/'' \<notin> set ''avatar''"
  by (simp_all add: field_ok_def no_lead_def)

lemma avatar_code: "CHR ''/'' \<notin> set (URLEncode a)" "field_ok (URLEncode a)" "no_trail (URLEncode a)"
proof -
  have "SP \<notin> set (URLEncode a)" "CHR ''/'' \<notin> set (URLEncode a)" "CHR '':'' \<notin> set (URLEncode a)" "NL \<notin> set (URLEncode a)"
    by (rule URLEncode_avoids; simp add: b64_url_def)+
  then show "CHR ''/'' \<notin> set (URLEncode a)" "field_ok (URLEncode a)" "no_trail (URLEncode a)"
    by (auto simp: field_ok_def no_trail_def dest: last_in_set)
qed

lemma avatar_pair: "''avatar/'' @ v = ''avatar'' @ ''/'' @ v"
  by simp

lemma with_avatar_ok: "user_ok u \<Longrightarrow> user_ok (with_avatar ava u)"
  using tags_ok_Add [OF _ avatar_word(3) avatar_code(1) avatar_word(2) avatar_code(3), of "us_Tags u" ava]
    field_ok_add [OF _ _ avatar_word(3) avatar_code(1) avatar_word(2) avatar_code(3) avatar_word(1) avatar_code(2),
      of "us_Tags u" ava]
  unfolding user_ok_def with_avatar_def avatar_pair by (cases u) (simp del: append.simps)

lemma with_avatar_tags:
  "Tags_val (us_Tags (with_avatar ava u)) n = (if n = ''avatar'' then URLEncode ava else Tags_val (us_Tags u) n)"
  unfolding with_avatar_def avatar_pair Tags_val_def
  using Tags_Add_Get [OF avatar_word(3) avatar_code(1), of "us_Tags u" ava n] by (simp del: append.simps)

lemma with_avatar_edited:
  assumes "u \<in> set us" "\<not> removed u"
  shows "with_avatar ava u \<in> set (edited us (with_avatar ava u))"
proof -
  have "\<not> removed (with_avatar ava u)" using assms(2) by (simp add: removed_def with_avatar_tags)
  moreover have "us_Name (with_avatar ava u) = us_Name u" by (simp add: with_avatar_def)
  ultimately show ?thesis using assms(1) by (force simp: edited_def)
qed

lemma route_avatar: "CHR ''/'' \<notin> set n \<Longrightarrow> route (''/avatar/'' @ n) = ([], [''avatar'', n])"
proof -
  assume n: "CHR ''/'' \<notin> set n"
  have "Split (CHR ''/'') (''avatar'' @ CHR ''/'' # n) = [''avatar'', n]"
    using Split_append [of "CHR ''/''" "''avatar''" n] Split_no_sep [OF n] by simp
  then show ?thesis by (simp add: route_def TrimPrefix_def)
qed

lemma with_avatar_same: "us_Name (with_avatar ava u) = us_Name u" "us_Id (with_avatar ava u) = us_Id u"
  by (simp_all add: with_avatar_def)

lemma avatar_set:
  assumes rep: "udb_rep (nd_udb node) us" and sec: "distinct (map us_Secret us)"
    and u: "u \<in> set us" "us_Name u \<noteq> []" "CHR ''/'' \<notin> set (us_Name u)" "\<not> removed u"
    and r: "r_Method r = ''POST''" "r_Path r = ''/avatar/'' @ us_Name u" "r_Cookie r = Some (us_Secret u)" "r_Form r = Some v"
    and ava: "v ''avatar'' = ava" "ava \<noteq> []" "length ava \<le> 2048" "parse_ava ava = Inr (Some img)"
  shows "\<exists>node' ctx'. handleWWW w host r node = (node', ctx', Inr (Redirect ''/profile'')) \<and>
    udb_rep (nd_udb node') (edited us (with_avatar ava u))"
proof -
  let ?udb = "fst (LoadUsers (w_compile w) (nd_udb node))" and ?u = "with_avatar ava u"
  have ld: "udb_loaded ?udb us" "reload w node = (node\<lparr>nd_udb := ?udb\<rparr>, None)" using reload_rep [OF rep] by auto
  have id: "identify ?udb (Some (us_Secret u)) = u" by (rule identify_loaded [OF ld(1) sec u(1)])
  have uok: "user_ok u" using ld(1) u(1) by (auto simp: udb_loaded_def users_ok_def)
  obtain db' err where e: "UDB_Edit ?udb ?u = (db', err)" by fastforce
  have "edited us ?u \<noteq> []" using with_avatar_edited [OF u(1,4), of ava] by auto
  then have e2: "err = None" "udb_rep db' (edited us ?u)"
    using UDB_Edit_rep [OF ld(1) with_avatar_ok [OF uok, of ava] u(1)] e with_avatar_same [of ava u] by auto
  have tags: "avatar_tags (v ''avatar'') (us_Tags u) = Inr (us_Tags ?u)"
    using ava by (simp add: avatar_tags_def with_avatar_def)
  have same: "u\<lparr>us_Tags := us_Tags ?u\<rparr> = ?u" by (simp add: with_avatar_def)
  show ?thesis
    using ld(2) id r route_avatar [OF u(3)] u(2) tags same e e2
    by (simp add: handleWWW_def handle_www_def dispatch_def www_avatar_def set_avatar_def Let_def fail_def new_ctx_def)
qed

lemma avatar_get:
  assumes rep: "udb_rep (nd_udb node) us" and u: "with_avatar ava u \<in> set us" "CHR ''/'' \<notin> set (us_Name u)"
    and r: "r_Method r \<noteq> ''POST''" "r_Path r = ''/avatar/'' @ us_Name u"
    and ava: "ava \<noteq> []" "parse_ava ava = Inr (Some img)" "w_png w img = Some b"
  shows "\<exists>node' ctx'. handleWWW w host r node = (node', ctx', Inr (Image b))"
proof -
  let ?udb = "fst (LoadUsers (w_compile w) (nd_udb node))" and ?u = "with_avatar ava u"
  have ld: "udb_loaded ?udb us" "reload w node = (node\<lparr>nd_udb := ?udb\<rparr>, None)" using reload_rep [OF rep] by auto
  have "us_Name ?u = us_Name u" by (simp add: with_avatar_def)
  then have n: "UserInfoName ?udb (us_Name u) = Some ?u"
    using udb_mem_user [of ?udb us ?u] ld(1) u(1) by (simp add: UserInfoName_def udb_loaded_def)
  have "URLEncode ava \<noteq> []"
  proof
    assume "URLEncode ava = []"
    moreover have "URLEncode [] = []" by (simp add: URLEncode_def)
    ultimately show False using ava(1) URLDecode_URLEncode [of ava] URLDecode_URLEncode [of "[]"] by simp
  qed
  then show ?thesis
    using ld(2) r route_avatar [OF u(2)] n ava URLDecode_URLEncode [of ava] with_avatar_tags [of ava u]
    by (simp add: handleWWW_def handle_www_def dispatch_def www_avatar_def get_avatar_def Let_def fail_def)
qed

end
