(* ===== verification/II_Attach.thy ===== *)
theory II_Attach
  imports II_Post
begin

text \<open>
  Files in messages and the mark of an edit (\<^verbatim>\<open>www_base64\<close> and \<^verbatim>\<open>www_edit\<close> of \<^verbatim>\<open>ii-node/web.go\<close>): a file encoded
  into the lines of a message is read back as it was, and a message that is edited again carries one mark.
\<close>

section \<open>Clean texts\<close>

lemma msg_clean_id:
  assumes "CR \<notin> set t" "t \<noteq> []" "hd t \<noteq> NL" "last t \<noteq> NL"
  shows "msg_clean t = t"
  using assms by (simp add: msg_clean_def Replace_id TrimLeft_id TrimRight_id)

lemma hd_Join1: "hd ls \<noteq> [] \<Longrightarrow> ls \<noteq> [] \<Longrightarrow> Join [c] ls \<noteq> [] \<and> hd (Join [c] ls) = hd (hd ls)"
  by (cases ls; cases "tl ls") (auto simp: Join_Cons)

lemma last_Join1: "last ls \<noteq> [] \<Longrightarrow> ls \<noteq> [] \<Longrightarrow> last (Join [c] ls) = last (last ls) \<and> Join [c] ls \<noteq> []"
proof (induction ls)
  case (Cons l ls)
  then show ?case by (cases ls) (auto simp: Join_Cons)
qed simp

lemma Join_snoc: "ls \<noteq> [] \<Longrightarrow> Join sep (ls @ [l]) = Join sep ls @ sep @ l"
proof (induction ls)
  case (Cons x ls)
  then show ?case by (cases ls) (auto simp: Join_Cons)
qed simp

definition clean_lines :: "string list \<Rightarrow> bool" where
  "clean_lines ls = (ls \<noteq> [] \<and> hd ls \<noteq> [] \<and> last ls \<noteq> [] \<and> (\<forall>l\<in>set ls. CR \<notin> set l \<and> NL \<notin> set l))"

lemma Split_clean:
  assumes "clean_lines ls"
  shows "Split NL (msg_clean (Join [NL] ls)) = ls"
proof -
  have ls: "ls \<noteq> []" "hd ls \<noteq> []" "last ls \<noteq> []" "\<forall>l\<in>set ls. CR \<notin> set l \<and> NL \<notin> set l"
    using assms by (auto simp: clean_lines_def)
  have "hd ls \<in> set ls" "last ls \<in> set ls" using ls(1) by simp_all
  then have "NL \<notin> set (hd ls)" "NL \<notin> set (last ls)" using ls(4) by blast+
  then have "hd (hd ls) \<noteq> NL" "last (last ls) \<noteq> NL"
    using hd_in_set [OF ls(2)] last_in_set [OF ls(3)] by metis+
  moreover have "CR \<notin> set (Join [NL] ls)" using set_Join [of "[NL]" ls] ls(4) by auto
  ultimately have "msg_clean (Join [NL] ls) = Join [NL] ls"
    using hd_Join1 [OF ls(2,1), of NL] last_Join1 [OF ls(3,1), of NL] by (intro msg_clean_id) auto
  then show ?thesis using Split_Join [OF ls(1), of NL] ls(4) by simp
qed

section \<open>A file in a message\<close>

lemma b64_char_std: "c \<in> set b64_std \<Longrightarrow> b64_char c"
  by (auto simp: b64_std_def b64_char_def rx_alnum_def)

lemma b64_char_nth: "k < 64 \<Longrightarrow> b64_char (b64_std ! k)"
  using b64_char_std nth_mem [of k b64_std] b64_tables(2) by simp

lemma is_base64_quad: "b64_char a \<Longrightarrow> b64_char b \<Longrightarrow> b64_char c \<Longrightarrow> b64_char d \<Longrightarrow> is_base64 (a # b # c # d # s) = is_base64 s"
  by (cases s) auto

lemma is_base64_enc: "is_base64 (b64_enc b64_std s)"
  by (induction b64_std s rule: b64_enc.induct) (simp_all add: b64_char_nth sextets is_base64_quad)

lemma b64_char_eq [simp]: "\<not> b64_char CHR ''=''" "\<not> b64_char SP"
  by (simp_all add: b64_char_def rx_alnum_def)

lemma is_base64_more: "is_base64 (a # b # c # d # s) \<Longrightarrow> s \<noteq> [] \<Longrightarrow> b64_char a \<and> b64_char b \<and> b64_char c \<and> b64_char d \<and> is_base64 s"
  by (cases s) auto

lemma is_base64_split:
  "length a = 4 * n \<Longrightarrow> is_base64 (a @ b) \<Longrightarrow> is_base64 a \<and> is_base64 b"
proof (induction n arbitrary: a)
  case (Suc n)
  then obtain p a1 where 1: "a = p # a1" "length a1 = Suc (Suc (Suc (4 * n)))" by (cases a) auto
  then obtain q a2 where 2: "a1 = q # a2" "length a2 = Suc (Suc (4 * n))" by (cases a1) auto
  then obtain r a3 where 3: "a2 = r # a3" "length a3 = Suc (4 * n)" by (cases a2) auto
  then obtain t a' where a: "a = p # q # r # t # a'" "length a' = 4 * n" using 1 2 by (cases a3) auto
  show ?case
  proof (cases "a' @ b = []")
    case True
    then show ?thesis using a Suc.prems(2) by simp
  next
    case False
    then have c: "b64_char p \<and> b64_char q \<and> b64_char r \<and> b64_char t \<and> is_base64 (a' @ b)"
      using is_base64_more [of p q r t "a' @ b"] Suc.prems(2) unfolding a(1) append_Cons by blast
    then have "is_base64 a' \<and> is_base64 b" using Suc.IH [OF a(2)] by blast
    then show ?thesis using is_base64_quad [of p q r t a'] c unfolding a(1) by blast
  qed
qed simp

lemma StdEncode_clean_line: "SP \<notin> set (StdEncode d)" "CR \<notin> set (StdEncode d)" "NL \<notin> set (StdEncode d)"
  by (rule StdEncode_avoids; simp add: b64_std_def)+

lemma attached_data_chunks:
  assumes "\<forall>c\<in>set cs. 4 dvd length c" and "is_base64 (concat cs)" and "SP \<notin> set (concat cs)"
  shows "attached_data cs = concat cs"
  using assms
proof (induction cs)
  case (Cons c cs)
  obtain n where "length c = 4 * n" using Cons.prems(1) by (auto simp: dvd_def)
  then have "is_base64 c" "is_base64 (concat cs)" using is_base64_split [of c n "concat cs"] Cons.prems(2) by auto
  then show ?case using Cons by (simp add: Replace_id Let_def)
qed simp

text \<open>Lines that neither open a block of code nor name a file.\<close>

definition ordinary :: "string \<Rightarrow> bool" where
  "ordinary l = (Trim l '' '' \<noteq> ''===='' \<and> \<not> HasPrefix l ''@base64:'')"

lemma attached_skip: "\<forall>l\<in>set ls. ordinary l \<Longrightarrow> attached False (ls @ rest) = attached False rest"
  by (induction ls) (auto simp: ordinary_def)

lemma Trim_at: "Trim (CHR ''@'' # s) '' '' \<noteq> ''===='' "
proof
  assume t: "Trim (CHR ''@'' # s) '' '' = ''===='' "
  have "Trim (CHR ''@'' # s) '' '' = TrimRight (CHR ''@'' # s) '' ''" by (simp add: Trim_def TrimLeft_id)
  then have "\<exists>u. CHR ''@'' # s = ''===='' @ u" using TrimRight_prefix [of "CHR ''@'' # s" "'' ''"] t by simp
  then show False by simp
qed

lemma attached_file:
  assumes "\<forall>l\<in>set front. ordinary l" and cs: "\<forall>c\<in>set cs. 4 dvd length c" "concat cs = StdEncode d"
  shows "attached False (front @ (''@base64:'' @ name) # cs) = (attach_name (''@base64:'' @ name), StdEncode d)"
proof -
  have "attached_data cs = StdEncode d"
    using attached_data_chunks [OF cs(1)] is_base64_enc [of d] StdEncode_clean_line(1) [of d] cs(2)
    by (simp add: StdEncode_def)
  then show ?thesis using attached_skip [OF assms(1)] Trim_at by simp
qed

text \<open>What the link of a message with a file gives: the bytes of the file.\<close>

lemma www_base64_file:
  assumes m: "Get (nd_db node) (c_BasePath ctx) = (db, Some m)"
    and tx: "m_Text m = Join [NL] (front @ (''@base64:'' @ name) # cs)"
    and clean: "clean_lines (front @ (''@base64:'' @ name) # cs)" "\<forall>l\<in>set front. ordinary l"
    and cs: "\<forall>c\<in>set cs. 4 dvd length c" "concat cs = StdEncode d" and d: "d \<noteq> []"
  shows "www_base64 node ctx = (upd_db node db, ctx,
    Inr (Download (if check_image d \<noteq> [] then None else Some (attach_name (''@base64:'' @ name))) d))"
proof -
  have "StdEncode d \<noteq> []"
  proof
    assume "StdEncode d = []"
    moreover have "StdEncode [] = []" by (simp add: StdEncode_def)
    ultimately show False using d StdDecode_StdEncode [of d] StdDecode_StdEncode [of "[]"] by simp
  qed
  then show ?thesis
    using m attached_file [OF clean(2) cs, of name] Split_clean [OF clean(1)] tx
    by (simp add: www_base64_def Let_def decode_attached_def StdDecode_StdEncode)
qed

section \<open>The mark of an edit\<close>

text \<open>The text without the mark of an earlier edit.\<close>

definition unmarked_text :: "string \<Rightarrow> string" where
  "unmarked_text t =
     (let ln = Split NL (msg_clean t) in if HasPrefix (last ln) edit_mark then Join [NL] (butlast ln) else t)"

lemma marked_unmarked: "marked_text t s = unmarked_text t @ [NL] @ edit_mark @ s"
  by (simp add: marked_text_def unmarked_text_def Let_def)

lemma unmarked_text_ok:
  assumes "CR \<notin> set t" "t = [] \<or> hd t \<noteq> NL"
  shows "CR \<notin> set (unmarked_text t) \<and> (unmarked_text t = [] \<or> hd (unmarked_text t) \<noteq> NL)"
proof -
  let ?c = "msg_clean t" let ?ln = "Split NL ?c"
  have c: "?c = TrimRight t [NL]" using assms by (simp add: msg_clean_def Replace_id TrimLeft_id)
  obtain u where u: "t = ?c @ u" using TrimRight_prefix [of t "[NL]"] c by auto
  have split: "butlast ?ln @ [last ?ln] = ?ln" by simp
  have "Join [NL] (butlast ?ln) = [] \<or> (\<exists>v. ?c = Join [NL] (butlast ?ln) @ v)"
  proof (cases "butlast ?ln = []")
    case False
    have "?c = Join [NL] (butlast ?ln @ [last ?ln])" unfolding split by (simp add: Join_Split)
    also have "\<dots> = Join [NL] (butlast ?ln) @ NL # last ?ln"
      using Join_snoc [OF False, of "[NL]" "last ?ln"] by simp
    finally show ?thesis by blast
  qed simp
  then obtain v where "Join [NL] (butlast ?ln) = [] \<or> t = Join [NL] (butlast ?ln) @ v" using u by (metis append.assoc)
  then show ?thesis
    using assms by (cases "Join [NL] (butlast ?ln)") (auto simp: unmarked_text_def Let_def)
qed

lemma marked_text_again:
  assumes t: "CR \<notin> set t" "t = [] \<or> hd t \<noteq> NL" and s: "CR \<notin> set s1" "NL \<notin> set s1" "s1 \<noteq> []"
  shows "marked_text (marked_text t s1) s2 = marked_text t s2"
proof -
  let ?b = "unmarked_text t" and ?m = "edit_mark @ s1"
  have b: "CR \<notin> set ?b" "?b = [] \<or> hd ?b \<noteq> NL" using unmarked_text_ok [OF t] by auto
  have m: "CR \<notin> set ?m" "NL \<notin> set ?m" "last ?m \<noteq> NL" "hd ?m \<noteq> NL"
    using s by (auto simp: edit_mark_def dest: last_in_set)
  have p: "HasPrefix ?m edit_mark" by (auto simp: HasPrefix_iff)
  have "unmarked_text (?b @ NL # ?m) = ?b"
  proof (cases "?b = []")
    case True
    have "msg_clean (NL # ?m) = ?m"
      using m by (simp add: msg_clean_def Replace_id TrimLeft_def TrimRight_id edit_mark_def)
    then show ?thesis using True p Split_no_sep [OF m(2)] by (simp add: unmarked_text_def Let_def)
  next
    case False
    let ?ls = "Split NL ?b @ [?m]"
    have "msg_clean (?b @ NL # ?m) = ?b @ NL # ?m"
    proof (rule msg_clean_id)
      have "?m \<noteq> []" by (simp add: edit_mark_def)
      then show "last (?b @ NL # ?m) \<noteq> NL" using m(3) by simp
    qed (use b m(1) False in auto)
    moreover have "Split NL (?b @ NL # ?m) = ?ls"
    proof -
      have "?b @ NL # ?m = Join [NL] ?ls"
        using Join_snoc [of "Split NL ?b" "[NL]" ?m] by (simp add: Join_Split)
      then show ?thesis using Split_Join [of ?ls NL] Split_pieces [of _ NL ?b] m(2) by auto
    qed
    ultimately show ?thesis using p by (simp add: unmarked_text_def Let_def Join_Split)
  qed
  then show ?thesis by (simp add: marked_unmarked)
qed

end
