(* ===== verification/II_Pitfalls.thy ===== *)
theory II_Pitfalls
  imports II_Session II_Attach
begin

text \<open>
  Where the web interface gives way: a newline in the field \<^verbatim>\<open>repto\<close> of the form stops the node, the forms
  for an edit show what the topic refuses, the name of an attached picture leaves its quotes, and a
  placeholder written by hand is an index out of range.
\<close>

section \<open>A newline in the answered id\<close>

lemma Split_no6: "length (Split c s) < 6 \<Longrightarrow> load_line s st = (st\<lparr>ld_linenr := ld_linenr st + 1,
    ld_err := Some (EIndexLine (ld_linenr st + 1))\<rparr>, False)" if "c = CHR '':''"
  using that by (simp add: load_line_def Let_def)

lemma load_line_ok:
  assumes "Split (CHR '':'') l = [i, e, itoa off, t, f, a]" "in64 off" "ld_Hash st = Some h"
  shows "\<exists>st'. load_line l st = (st', True) \<and> ld_linenr st' = ld_linenr st + 1"
  using assms sscan_d_itoa [of 64 off "[]"] by (auto simp: load_line_def Let_def split: option.split)

lemma load_line_Hash: "ld_Hash st \<noteq> None \<Longrightarrow> ld_Hash (fst (load_line l st)) \<noteq> None"
  by (auto simp: load_line_def Let_def split: option.split)

lemma load_lines_Hash: "ld_Hash st \<noteq> None \<Longrightarrow> ld_Hash (run_lines load_line ls st) \<noteq> None"
proof (induction ls arbitrary: st)
  case (Cons l ls)
  obtain st' b where l: "load_line l st = (st', b)" by fastforce
  then have "ld_Hash st' \<noteq> None" using load_line_Hash [OF Cons.prems, of l] by simp
  then show ?case using Cons.IH [of st'] l by simp
qed simp

text \<open>
  The index file has grown by records that stop the load, whatever the index in memory: every later load
  stops there again, and with it every operation that reads the index.
\<close>

definition stuck_at :: "ii_error \<Rightarrow> DB \<Rightarrow> bool" where
  "stuck_at e db =
     (\<exists>t tail. db_index db = File (t @ tail) \<and> tail \<noteq> [] \<and> ix_FileSize (db_Idx db) = int (length t) \<and>
       ix_Hash (db_Idx db) \<noteq> None \<and> (\<forall>ix. ix_Hash ix \<noteq> None \<longrightarrow> ld_err (load_run ix tail) = Some e))"

lemma LoadIndex_stuck: "stuck_at e db \<Longrightarrow> snd (LoadIndex db) = Some e \<and> stuck_at e (fst (LoadIndex db))"
proof -
  assume "stuck_at e db"
  then obtain t tail where t: "db_index db = File (t @ tail)" "tail \<noteq> []" "ix_FileSize (db_Idx db) = int (length t)"
      "ix_Hash (db_Idx db) \<noteq> None" and r: "\<forall>ix. ix_Hash ix \<noteq> None \<longrightarrow> ld_err (load_run ix tail) = Some e"
    unfolding stuck_at_def by blast
  let ?ix = "clear_topics (db_Idx db)"
  have h: "ix_Hash ?ix \<noteq> None" using t(4) by (auto simp: clear_topics_def)
  have "ld_Hash (load_run ?ix tail) \<noteq> None"
    using h unfolding load_run_def f_lines_def by (intro load_lines_Hash) simp
  moreover have "LoadIndex db = (db\<lparr>db_Idx := (db_Idx db)\<lparr>ix_Hash := ld_Hash (load_run ?ix tail)\<rparr>\<rparr>, Some e)"
    using t r h by (simp add: LoadIndex_def load_opened_def load_finish_def Let_def)
  ultimately show ?thesis using t r unfolding stuck_at_def by auto
qed

lemma Get_stuck: "stuck_at e db \<Longrightarrow> snd (Get db k) = None \<and> stuck_at e (fst (Get db k))"
proof -
  assume "stuck_at e db"
  then have "DB_Lookup db k False True = (fst (LoadIndex db), None)" "stuck_at e (fst (LoadIndex db))"
    using LoadIndex_stuck [of e db] by (simp_all add: DB_Lookup_def case_prod_unfold)
  then show ?thesis by (simp add: Get_def GetBundle_def DB_GetBundle_def decode_found_def)
qed

lemma reads_stuck: "stuck_at e db \<Longrightarrow> stuck_at e (foldl (\<lambda>db k. fst (Get db k)) db ks)"
  by (induction ks arbitrary: db) (simp_all add: Get_stuck)

lemma Store_stuck: "stuck_at e db \<Longrightarrow> snd (snd (Store now db m)) = Some e"
  using LoadIndex_stuck [of e db] by (auto simp: Store_def DB_Store_def split: prod.split)

lemma newline_repto_stuck:
  assumes rep: "db_rep db log" and m: "m_MsgId m = []" "m_Echo m \<noteq> []"
    and r: "Msg_tag_val m ''repto'' = a @ NL # b" "NL \<notin> set a" "NL \<notin> set b" "CHR '':'' \<notin> set a"
      "length (Split (CHR '':'') b) < 6"
    and f: "\<forall>s\<in>{m_Echo m, m_To m, m_From m}. NL \<notin> set s \<and> CHR '':'' \<notin> set s"
  shows "\<exists>db' m'. Store now db m = (db', m', None) \<and> stuck_at (EIndexLine 2) db'"
proof -
  obtain ix' where l: "LoadIndex db = (db\<lparr>db_index := File (index_text log), db_Idx := ix'\<rparr>, None)"
      and ld: "db_loaded (db\<lparr>db_index := File (index_text log), db_Idx := ix'\<rparr>) log"
    using LoadIndex_rep [OF rep] by blast
  obtain db' m' where st: "Store now db m = (db', m', None)" using Store_new_log [OF rep m(1)] by blast
  define off where "off = signed_off m (case db_bundle db of File s \<Rightarrow> int (length s) | _ \<Rightarrow> 0)"
  let ?f = "fst (Encode now m)" and ?tail = "index_line (fst (Encode now m)) off @ [NL]"
  have db': "db_index db' = File (index_text log @ ?tail)" "db_Idx db' = ix'"
    using st by (auto simp: Store_def DB_Store_def l off_def Let_def append_file_def
        split: prod.splits sum.splits if_splits gofile.splits)
  have ix: "ix_FileSize ix' = int (length (index_text log))"
    using ld by (auto simp: db_loaded_def mem_loaded_def)
  obtain h where h: "ix_Hash ix' = Some h" using ld by (auto simp: db_loaded_def mem_loaded_def)
  have fl: "m_Echo ?f = m_Echo m" "m_To ?f = m_To m" "m_From ?f = m_From m" "m_Tags ?f = m_Tags m"
      "IsMsgId (m_MsgId ?f)" "NL \<notin> set (m_MsgId ?f)" "CHR '':'' \<notin> set (m_MsgId ?f)"
    using m by (simp_all add: Encode_def Let_def)
  let ?l1 = "m_MsgId ?f @ '':'' @ m_Echo m @ '':'' @ itoa off @ '':'' @ m_To m @ '':'' @ m_From m @ '':'' @ a"
  have il: "index_line ?f off = ?l1 @ NL # b" using r(1) fl by (simp add: index_line_def Msg_tag_val_def)
  have nl: "NL \<notin> set ?l1" using f fl(6) r(2) by simp
  have sp: "Split (CHR '':'') ?l1 = [m_MsgId ?f, m_Echo m, itoa off, m_To m, m_From m, a]"
    using f fl(7) r(4) by (simp add: Split_append Split_no_sep)
  have "holds_text (db_bundle db) (bundle_text log)" "int (length (bundle_text log)) < 2 ^ 63"
    using rep by (auto simp: db_rep_def)
  then have off: "in64 off" using signed_off_in64 by (auto simp: off_def holds_text_def split: gofile.splits)
  have "?tail = ?l1 @ NL # (b @ NL # [])" using il by simp
  then have tl: "text_lines ?tail = [?l1, b]"
    by (simp only: text_lines_Cons [OF nl] text_lines_Cons [OF r(3)] text_lines_Nil)
  have run: "ld_err (load_run ix ?tail) = Some (EIndexLine 2)" if "ix_Hash ix = Some g" for ix g
  proof -
    let ?st = "\<lparr>ld_Hash = ix_Hash ix, ld_List = ix_List ix, ld_nr = length (ix_List ix), ld_linenr = 0, ld_err = None\<rparr>"
    have "ld_Hash ?st = Some g" using that by simp
    then obtain st' where "load_line ?l1 ?st = (st', True)" "ld_linenr st' = 1"
      using load_line_ok [OF sp off, of ?st g] by (auto simp del: append_assoc append.simps)
    then show ?thesis
      using Split_no6 [OF refl r(5), of st'] unfolding load_run_def f_lines_def tl by simp
  qed
  have "stuck_at (EIndexLine 2) db'"
    unfolding stuck_at_def
    by (intro exI [of _ "index_text log"] exI [of _ ?tail]) (use db' ix h run in auto)
  then show ?thesis using st by blast
qed

text \<open>The form gives the field to the message as it is.\<close>

lemma sign_repto: "CHR ''/'' \<notin> set r \<Longrightarrow> r \<noteq> [] \<Longrightarrow> Msg_tag_val (sign node u r m) ''repto'' = r"
proof -
  assume r: "CHR ''/'' \<notin> set r" "r \<noteq> []"
  have k: "CHR ''/'' \<notin> set ''repto''" by simp
  have "''repto/'' @ r = ''repto'' @ ''/'' @ r" by simp
  then have "Tags_Get (add_tag t (''repto/'' @ r)) ''repto'' = Some r" for t
    using Tags_Add_Get [OF k r(1)] by metis
  then show ?thesis using r(2) by (simp add: sign_def Let_def Msg_tag_val_def Tags_val_def)
qed

section \<open>Forms show what the topic refuses\<close>

lemma Lookup_log_entry:
  assumes rep: "db_rep db log" and m: "spec_get log mid = Some m"
  shows "\<exists>db' mi. Lookup db mid = (db', Some mi) \<and> mi_Echo mi = m_Echo m \<and> mi_To mi = m_To m \<and> mi_From mi = m_From m"
proof -
  obtain db' where ld: "db_loaded db' log" "DB_Lookup db mid False True = DB_Lookup db' mid False False"
    using DB_Lookup_idx [OF rep, of mid False] by blast
  obtain i where n: "newest log mid = Some (i, m)" "\<not> hidden i m"
    using m by (auto simp: spec_get_def split: option.splits if_splits)
  obtain d x where d: "DB_Lookup db' mid False False = (d, x)" by fastforce
  then have "map_option mi_view x = Some (minfo m (signed_off m (msg_off log i)))"
    using DB_Lookup_loaded [OF ld(1), of mid False] n by simp
  then obtain mi where mi: "x = Some mi" "mi_view mi = minfo m (signed_off m (msg_off log i))" by auto
  have "mi_Echo (mi_view mi) = m_Echo m" "mi_To (mi_view mi) = m_To m" "mi_From (mi_view mi) = m_From m"
    by (simp_all only: mi(2) minfo_sel)
  then show ?thesis using ld(2) d mi(1) by (auto simp: Lookup_def)
qed

lemma route_message:
  assumes "IsMsgId mid" "CHR ''/'' \<notin> set mid"
  shows "route (CHR ''/'' # mid) = ([], [mid])" "CHR ''/'' \<notin> set act \<Longrightarrow> route (CHR ''/'' # mid @ CHR ''/'' # act) = ([], [mid, act])"
proof -
  have l: "mid \<noteq> ''blog''" "mid \<noteq> ''forum''" using assms(1) by (auto simp: IsMsgId_def)
  show "route (CHR ''/'' # mid) = ([], [mid])" by (rule route_word [OF assms(2)])
  assume "CHR ''/'' \<notin> set act"
  then have "Split (CHR ''/'') (mid @ CHR ''/'' # act) = [mid, act]"
    by (simp add: Split_append assms(2) Split_no_sep)
  then show "route (CHR ''/'' # mid @ CHR ''/'' # act) = ([], [mid, act])"
    using l by (simp add: route_def TrimPrefix_def)
qed

lemma dispatch_message:
  assumes "IsMsgId mid"
  shows "dispatch w r (mid # rest) node ctx = message w r (mid # rest) node ctx"
proof -
  have "mid \<noteq> []" "\<forall>p\<in>{''login'', ''logout'', ''points'', ''profile'', ''register'', ''reset'', ''avatar''}. mid \<noteq> p"
    using assms by (auto simp: IsMsgId_def)
  then show ?thesis using assms by (simp add: dispatch_def)
qed

text \<open>A visitor without an account and a message of a private area.\<close>

lemma private_through_edit:
  assumes rep: "db_rep (nd_db node) log" "udb_rep (nd_udb node) us"
    and m: "spec_get log mid = Some m" "IsMsgId mid" "CHR ''/'' \<notin> set mid" "IsPrivate (m_Echo m)"
    and r: "r_Method r = ''GET''" "r_Cookie r = None"
  shows "\<exists>node' ctx'. handleWWW w host (r\<lparr>r_Path := CHR ''/'' # mid\<rparr>) node = (node', ctx', Inr Page) \<and>
      c_Error ctx' = Some EAccessDenied \<and> c_Msg ctx' = []"
    and "\<exists>node' ctx'. handleWWW w host (r\<lparr>r_Path := CHR ''/'' # mid @ ''/edit''\<rparr>) node = (node', ctx', Inr Page) \<and>
      c_Error ctx' = None \<and> c_Msg ctx' = [m\<lparr>m_Text := marked_text (m_Text m) (w_format w (w_now w))\<rparr>]"
proof -
  let ?udb = "fst (LoadUsers (w_compile w) (nd_udb node))"
  have ld: "reload w node = (node\<lparr>nd_udb := ?udb\<rparr>, None)" using reload_rep [OF rep(2)] by auto
  have id: "identify ?udb None = nil_user" by (simp add: identify_def)
  obtain db mi where l: "Lookup (nd_db node) mid = (db, Some mi)" "mi_Echo mi = m_Echo m"
    using Lookup_log_entry [OF rep(1) m(1)] by blast
  have na: "\<not> Access mi nil_user" using l(2) m(4) by (simp add: Access_def nil_user_def)
  show "\<exists>node' ctx'. handleWWW w host (r\<lparr>r_Path := CHR ''/'' # mid\<rparr>) node = (node', ctx', Inr Page) \<and>
      c_Error ctx' = Some EAccessDenied \<and> c_Msg ctx' = []"
    using ld id l na r route_message(1) [OF m(2,3)]
    by (simp add: handleWWW_def handle_www_def dispatch_message [OF m(2)] message_def www_topic_def Let_def fail_def
        render_def new_ctx_def)
  obtain db2 where g: "Get (nd_db node) mid = (db2, Some m)"
    using Get_rep [OF rep(1), of mid] m(1) by (metis prod.collapse)
  have e: "CHR ''/'' \<notin> set ''edit''" by simp
  show "\<exists>node' ctx'. handleWWW w host (r\<lparr>r_Path := CHR ''/'' # mid @ ''/edit''\<rparr>) node = (node', ctx', Inr Page) \<and>
      c_Error ctx' = None \<and> c_Msg ctx' = [m\<lparr>m_Text := marked_text (m_Text m) (w_format w (w_now w))\<rparr>]"
    using ld id g r route_message(2) [OF m(2,3) e]
    by (simp add: handleWWW_def handle_www_def dispatch_message [OF m(2)] message_def www_edit_def Let_def fail_def
        render_def new_ctx_def)
qed

section \<open>Rendering\<close>

text \<open>The name of an attached picture goes into an attribute with its quotes.\<close>

lemma attach_html_quotes:
  assumes "HasSuffix fname ''.png''" "\<forall>c\<in>set fname. c \<noteq> CHR ''&'' \<and> c \<noteq> CHR ''<'' \<and> c \<noteq> CHR ''>''"
  shows "\<exists>front rear. attach_html mid fname = front @ '' alt='' @ [DQ] @ fname @ [DQ] @ rear"
proof -
  have "attach_html mid fname = (attach_link mid fname @ ''<img class='' @ [DQ] @ ''img'' @ [DQ]) @ '' alt='' @ [DQ] @
      fname @ [DQ] @ ('' src='' @ [DQ] @ ''/'' @ mid @ ''/base64'' @ [DQ] @ ''>'' @ [NL])"
    using assms by (simp add: attach_html_def str_esc_same)
  then show ?thesis by blast
qed

lemma href_by_hand: "msg_esc ''{{{href=0}}}'' = Inl (EPanic PIndex)"
  by code_simp

end
