(* ===== verification/II_Templates.thy ===== *)
theory II_Templates
  imports II_Post
begin

text \<open>
  The functions \<^verbatim>\<open>WebInit\<close> of \<^verbatim>\<open>ii-node/web.go\<close> gives to the templates, beside those of \<^verbatim>\<open>II_Render\<close> and
  \<^verbatim>\<open>II_Post\<close>: dates, the message answered, and what is known of an author. A message is local if an account
  has the name of its author and its address names this node and the number of the account.
\<close>

section \<open>The functions\<close>

definition fdate :: "World \<Rightarrow> int \<Rightarrow> string" where
  "fdate w date =
     (if w_now w - date < 60 * 60 * 24
      then ''<span class='' @ [CHR 0x27] @ ''today'' @ [CHR 0x27] @ ''>'' @ w_format w date @ ''</span>''
      else w_format w date)"

definition tpl_repto :: "Msg \<Rightarrow> string" where
  "tpl_repto m = (let r = Msg_tag_val m ''repto'' in if r = [] then m_MsgId m else r)"

definition is_even :: "int \<Rightarrow> bool" where
  "is_even i = (i mod 2 = 0)"

definition msg_local :: "Node \<Rightarrow> Msg \<Rightarrow> bool" where
  "msg_local node m =
     (case UserInfoName (nd_udb node) (m_From m) of
        None \<Rightarrow> False
      | Some ui \<Rightarrow> db_Name (nd_db node) @ '','' @ itoa (us_Id ui) = m_Addr m)"

definition has_avatar :: "Node \<Rightarrow> string \<Rightarrow> bool" where
  "has_avatar node user =
     (case UserInfoName (nd_udb node) user of
        None \<Rightarrow> False
      | Some ui \<Rightarrow> Tags_Get (us_Tags ui) ''avatar'' \<noteq> None)"

definition user_tag :: "Node \<Rightarrow> string \<Rightarrow> string \<Rightarrow> string" where
  "user_tag node user t =
     (case UserInfoName (nd_udb node) user of
        None \<Rightarrow> []
      | Some ui \<Rightarrow> (case Tags_Get (us_Tags ui) t of None \<Rightarrow> [] | Some r \<Rightarrow> r))"

section \<open>Local authors\<close>

lemma UserInfoName_loaded:
  assumes "udb_loaded db us"
  shows "UserInfoName db n = Some u \<longleftrightarrow> u \<in> set us \<and> us_Name u = n"
proof
  have mem: "udb_mem db us" "users_ok us" using assms by (auto simp: udb_loaded_def)
  show "u \<in> set us \<and> us_Name u = n" if "UserInfoName db n = Some u"
    using that mem(1) last_of_Some_set [of "map (\<lambda>u. (us_Name u, u)) us" n u] by (auto simp: UserInfoName_def udb_mem_def)
  show "UserInfoName db n = Some u" if "u \<in> set us \<and> us_Name u = n"
    using that udb_mem_user [OF mem] by (auto simp: UserInfoName_def)
qed

lemma msg_local_accounts:
  assumes "udb_loaded (nd_udb node) us"
  shows "msg_local node m \<longleftrightarrow>
    (\<exists>u\<in>set us. us_Name u = m_From m \<and> m_Addr m = db_Name (nd_db node) @ '','' @ itoa (us_Id u))"
proof (cases "UserInfoName (nd_udb node) (m_From m)")
  case None
  then show ?thesis using UserInfoName_loaded [OF assms, of "m_From m"] by (auto simp: msg_local_def)
next
  case (Some v)
  then have "u \<in> set us \<and> us_Name u = m_From m \<longleftrightarrow> u = v" for u
    using UserInfoName_loaded [OF assms, of "m_From m" u] by auto
  moreover have "msg_local node m \<longleftrightarrow> m_Addr m = db_Name (nd_db node) @ '','' @ itoa (us_Id v)"
    using Some by (auto simp: msg_local_def)
  ultimately show ?thesis by metis
qed

text \<open>What a point posts is local.\<close>

lemma point_msg_local:
  assumes "udb_loaded (nd_udb node) us" "u \<in> set us"
  shows "msg_local node (point_msg node u m)"
  using assms(2) unfolding msg_local_accounts [OF assms(1)] point_msg_def by auto

lemma has_avatar_tag: "has_avatar node user \<Longrightarrow> \<exists>ui. UserInfoName (nd_udb node) user = Some ui \<and>
    Tags_Get (us_Tags ui) ''avatar'' = Some (user_tag node user ''avatar'')"
  by (auto simp: has_avatar_def user_tag_def split: option.splits)

end
