(* ===== verification/II_Clean.thy ===== *)
theory II_Clean
  imports II_DB "HOL-Library.Multiset"
begin

text \<open>
  The command \<^verbatim>\<open>clean\<close> of \<^verbatim>\<open>ii-tool/main.go\<close>: it reads the bundles twice and writes, to a new file, one line for
  each id, the last one, at the place of the first. What the passes read is given apart, since another
  program may append to the file between them.
\<close>

section \<open>What a command prints and how it ends\<close>

text \<open>A complaint stands for a printed error, of which the fixed beginning is kept.\<close>

datatype said = Line string | Complaint string

datatype exit = Exit nat | Crash ii_error

type_synonym answer = "said list \<times> exit"

section \<open>The passes\<close>

definition bundle_row :: "string \<Rightarrow> bool" where
  "bundle_row line = (let a = Split (CHR '':'') line in length a = 2 \<and> IsMsgId (a ! 0))"

definition row_id :: "string \<Rightarrow> string" where
  "row_id line = Split (CHR '':'') line ! 0"

record census =
  cs_hash :: "string \<rightharpoonup> int"
  cs_last :: "string \<rightharpoonup> string"
  cs_nr :: nat
  cs_dup :: nat

definition no_census :: census where
  "no_census = \<lparr>cs_hash = Map.empty, cs_last = Map.empty, cs_nr = 0, cs_dup = 0\<rparr>"

definition clean_pass1 :: "string \<Rightarrow> census \<Rightarrow> census \<times> bool" where
  "clean_pass1 line c =
     (let c = c\<lparr>cs_nr := cs_nr c + 1\<rparr>; k = row_id line in
      if \<not> bundle_row line then (c, True)
      else (case cs_hash c k of
        Some n \<Rightarrow> (c\<lparr>cs_hash := (cs_hash c)(k \<mapsto> n + 1), cs_dup := cs_dup c + 1,
                      cs_last := (cs_last c)(k \<mapsto> line)\<rparr>, True)
      | None \<Rightarrow> (c\<lparr>cs_hash := (cs_hash c)(k \<mapsto> 1)\<rparr>, True)))"

text \<open>The second pass negates the count of an id at its first line and counts up to 0.\<close>

record sweep =
  sw_hash :: "string \<rightharpoonup> int"
  sw_nr :: nat
  sw_skip :: nat
  sw_out :: string
  sw_said :: "said list"
  sw_stop :: bool

definition changed :: said where "changed = Line ''Error. DB has changed. Aborted.''"

definition clean_pass2 :: "(string \<rightharpoonup> string) \<Rightarrow> string \<Rightarrow> sweep \<Rightarrow> sweep \<times> bool" where
  "clean_pass2 latest line s =
     (let s = s\<lparr>sw_nr := sw_nr s + 1\<rparr>; k = row_id line in
      if \<not> bundle_row line then
        (s\<lparr>sw_said := sw_said s @ [Line (''Error in line: '' @ itoa (int (sw_nr s)))], sw_skip := sw_skip s + 1\<rparr>, True)
      else (case sw_hash s k of
        None \<Rightarrow> (s\<lparr>sw_said := sw_said s @ [changed], sw_stop := True\<rparr>, False)
      | Some v \<Rightarrow>
          if v = 0 then (s\<lparr>sw_said := sw_said s @ [changed], sw_stop := True\<rparr>, False)
          else
            (let s = (if v > 0 then
                        (let l = (if - v < -1 then (case latest k of Some l \<Rightarrow> l | None \<Rightarrow> []) else line)
                         in s\<lparr>sw_out := sw_out s @ l @ [NL]\<rparr>)
                      else s\<lparr>sw_skip := sw_skip s + 1\<rparr>);
                 v = (if v > 0 then - v else v) + 1;
                 s = s\<lparr>sw_hash := (sw_hash s)(k \<mapsto> v)\<rparr>
             in if v > 0 then (s\<lparr>sw_said := sw_said s @ [changed], sw_stop := True\<rparr>, False) else (s, True))))"

text \<open>
  The command: \<open>f1\<close> and \<open>f2\<close> are what the passes read, \<open>new\<close> the file it writes, which is opened without
  truncation. The error of the first pass is dropped.
\<close>

definition clean_counts :: "census \<Rightarrow> said list" where
  "clean_counts c =
     [Line ''Pass 1...'', Line (itoa (int (cs_nr c)) @ '' lines... '' @ itoa (int (cs_dup c)) @ '' dups...'')]"

definition new_text :: "gofile \<Rightarrow> string \<Rightarrow> gofile" where
  "new_text f s = (case f of File old \<Rightarrow> File (overwrite old s) | _ \<Rightarrow> File s)"

definition clean :: "string \<Rightarrow> gofile \<Rightarrow> gofile \<Rightarrow> gofile \<Rightarrow> gofile \<times> answer" where
  "clean path f1 f2 new =
     (let c = fst (FileLines f1 clean_pass1 no_census); said = clean_counts c in
      if cs_dup c = 0 then (new, said, Exit 0)
      else let said = said @ [Line ''Pass 2...''] in
      if new = Denied then (new, said @ [Complaint ''Error''], Exit 1)
      else
        (case FileLines f2 (clean_pass2 (cs_last c))
                \<lparr>sw_hash = cs_hash c, sw_nr = 0, sw_skip = 0, sw_out = [], sw_said = said, sw_stop = False\<rparr> of
           (s, err) \<Rightarrow>
             (let new = new_text new (sw_out s); said = sw_said s in
              if sw_stop s then (new, said, Exit 1)
              else if err \<noteq> None then (new, said @ [Complaint ''Error''], Exit 1)
              else if \<exists>k\<in>row_id ` set (text_lines (case f1 of File t \<Rightarrow> t | _ \<Rightarrow> [])).
                        cs_hash c k \<noteq> None \<and> sw_hash s k \<noteq> Some 0
              then (new, said @ [Line ''Error. DB shrinked. Aborted.''], Exit 1)
              else (new, said @ [Line (itoa (int (sw_skip s)) @ '' messages removed. File '' @ path @ ''.new created.'')], Exit 0))))"

section \<open>What the passes compute\<close>

definition rows :: "string list \<Rightarrow> string list" where
  "rows ls = filter bundle_row ls"

definition row_ids :: "string list \<Rightarrow> string list" where
  "row_ids ls = map row_id (rows ls)"

text \<open>The last line of an id.\<close>

definition last_row :: "string list \<Rightarrow> string \<Rightarrow> string option" where
  "last_row ls k = last_of (map (\<lambda>l. (row_id l, l)) (rows ls)) k"

lemma row_ids_Nil [simp]: "row_ids [] = []"
  by (simp add: row_ids_def rows_def)

lemma rows_snoc: "rows (ls @ [l]) = (if bundle_row l then rows ls @ [l] else rows ls)"
  by (simp add: rows_def)

lemma row_ids_snoc: "row_ids (ls @ [l]) = (if bundle_row l then row_ids ls @ [row_id l] else row_ids ls)"
  by (simp add: row_ids_def rows_snoc)

lemma last_row_snoc: "last_row (ls @ [l]) k = (if bundle_row l \<and> row_id l = k then Some l else last_row ls k)"
  by (simp add: last_row_def rows_snoc last_of_append)

lemma last_row_None: "last_row ls k = None \<longleftrightarrow> k \<notin> set (row_ids ls)"
  by (simp add: last_row_def last_of_None_iff row_ids_def image_image)

abbreviation row_count :: "string list \<Rightarrow> string \<Rightarrow> nat" where
  "row_count ls k \<equiv> count_list (row_ids ls) k"

lemma row_count_zero: "row_count ls k = 0 \<longleftrightarrow> k \<notin> set (row_ids ls)"
  by (simp add: count_list_0_iff)

definition census_of :: "string list \<Rightarrow> census \<Rightarrow> bool" where
  "census_of ls c =
     ((\<forall>k. cs_hash c k = (if row_count ls k = 0 then None else Some (int (row_count ls k)))) \<and>
      (\<forall>k. 2 \<le> row_count ls k \<longrightarrow> cs_last c k = last_row ls k) \<and>
      (cs_dup c = 0 \<longleftrightarrow> distinct (row_ids ls)) \<and> cs_nr c = length ls)"

lemma pass1_step:
  assumes "census_of ls c"
  shows "census_of (ls @ [l]) (fst (clean_pass1 l c))"
proof (cases "bundle_row l")
  case True
  have h: "cs_hash c k = (if row_count ls k = 0 then None else Some (int (row_count ls k)))" for k
    using assms by (simp add: census_of_def)
  have la: "cs_last c k = last_row ls k" if "2 \<le> row_count ls k" for k
    using assms that by (simp add: census_of_def)
  have d: "(cs_dup c = 0) = distinct (row_ids ls)" "cs_nr c = length ls" using assms by (simp_all add: census_of_def)
  show ?thesis
  proof (cases "row_count ls (row_id l) = 0")
    case new: True
    then have "row_id l \<notin> set (row_ids ls)" by (simp add: row_count_zero)
    then show ?thesis
      using True new h d la by (simp add: census_of_def clean_pass1_def Let_def row_ids_snoc last_row_snoc)
  next
    case old: False
    then have "row_id l \<in> set (row_ids ls)" by (simp add: row_count_zero)
    then show ?thesis
      using True old h d la by (simp add: census_of_def clean_pass1_def Let_def row_ids_snoc last_row_snoc)
  qed
next
  case False
  then show ?thesis
    using assms by (simp add: census_of_def clean_pass1_def Let_def row_ids_snoc last_row_snoc)
qed

lemma pass1: "census_of ls (run_lines clean_pass1 ls no_census)"
proof -
  have "run_lines clean_pass1 ls no_census = foldl (\<lambda>s l. fst (clean_pass1 l s)) no_census ls"
    by (rule run_lines_all) (simp add: clean_pass1_def Let_def split: option.split)
  moreover have "census_of ls (foldl (\<lambda>s l. fst (clean_pass1 l s)) no_census ls)"
  proof (induction ls rule: rev_induct)
    case Nil
    then show ?case by (simp add: census_of_def no_census_def row_ids_def rows_def)
  qed (simp add: pass1_step)
  ultimately show ?thesis by simp
qed

text \<open>
  What the second pass has written and counted after the lines \<open>p\<close>, when the first pass read \<open>ls\<close>.
\<close>

definition kept_row :: "string list \<Rightarrow> string list \<Rightarrow> string \<Rightarrow> string" where
  "kept_row ls p k = the (if 2 \<le> row_count ls k then last_row ls k else last_row p k)"

definition swept :: "string list \<Rightarrow> string list \<Rightarrow> sweep \<Rightarrow> bool" where
  "swept ls p s =
     ((\<forall>k. row_count p k \<le> row_count ls k) \<and> \<not> sw_stop s \<and>
      (\<forall>k. sw_hash s k = (if row_count ls k = 0 then None
         else Some (if row_count p k = 0 then int (row_count ls k) else int (row_count p k) - int (row_count ls k)))) \<and>
      sw_out s = unlines (map (kept_row ls p) (first_occurrences (row_ids p))))"

lemma kept_row_cong:
  "(\<And>k. k \<in> set ks \<Longrightarrow> bundle_row l \<Longrightarrow> row_id l = k \<Longrightarrow> 2 \<le> row_count ls k) \<Longrightarrow>
   map (kept_row ls (p @ [l])) ks = map (kept_row ls p) ks"
  by (auto simp: kept_row_def last_row_snoc)

lemma pass2_bad_row: "\<not> bundle_row l \<Longrightarrow> swept ls p s \<Longrightarrow>
    swept ls (p @ [l]) (fst (clean_pass2 latest l s)) \<and> snd (clean_pass2 latest l s)"
  using kept_row_cong [of "first_occurrences (row_ids p)" l ls p]
  by (simp add: swept_def clean_pass2_def Let_def row_ids_snoc del: map_eq_conv)

lemma pass2_too_many:
  assumes "bundle_row l" "swept ls p s" "row_count ls (row_id l) \<le> row_count p (row_id l)"
  shows "sw_stop (fst (clean_pass2 latest l s)) \<and> \<not> snd (clean_pass2 latest l s)"
proof -
  have "row_count p (row_id l) \<le> row_count ls (row_id l)" using assms(2) by (simp add: swept_def)
  then have "sw_hash s (row_id l) = None \<or> sw_hash s (row_id l) = Some 0"
    using assms(2,3) by (simp add: swept_def)
  then show ?thesis using assms(1) by (auto simp: clean_pass2_def Let_def)
qed

lemma pass2_first_row:
  assumes "bundle_row l" and s: "swept ls p s" and c: "census_of ls c"
    and "row_count p (row_id l) = 0" "row_count p (row_id l) < row_count ls (row_id l)"
  shows "swept ls (p @ [l]) (fst (clean_pass2 (cs_last c) l s)) \<and> snd (clean_pass2 (cs_last c) l s)"
proof -
  let ?k = "row_id l" and ?n = "row_count ls (row_id l)"
  have h: "sw_hash s ?k = Some (int ?n)" "0 < ?n" using s assms(4,5) by (simp_all add: swept_def)
  have new: "?k \<notin> set (row_ids p)" using assms(4) by (simp add: row_count_zero)
  have latest: "(if - int ?n < -1 then (case cs_last c ?k of Some l \<Rightarrow> l | None \<Rightarrow> []) else l) = kept_row ls (p @ [l]) ?k"
  proof (cases "2 \<le> ?n")
    case True
    then have "?k \<in> set (row_ids ls)" using row_count_zero [of ls ?k] by auto
    then obtain l' where "last_row ls ?k = Some l'" using last_row_None [of ls ?k] by auto
    moreover have "cs_last c ?k = last_row ls ?k" using c True by (simp add: census_of_def)
    ultimately show ?thesis using True by (simp add: kept_row_def)
  next
    case False
    then show ?thesis using assms(1) h(2) by (simp add: kept_row_def last_row_snoc)
  qed
  have same: "map (kept_row ls (p @ [l])) (first_occurrences (row_ids p)) = map (kept_row ls p) (first_occurrences (row_ids p))"
    using new by (intro kept_row_cong) simp
  have step: "clean_pass2 (cs_last c) l s =
      (s\<lparr>sw_nr := sw_nr s + 1, sw_out := sw_out s @ kept_row ls (p @ [l]) ?k @ [NL], sw_hash := (sw_hash s)(?k \<mapsto> 1 - int ?n)\<rparr>, True)"
    using assms(1) h latest by (simp add: clean_pass2_def Let_def)
  show ?thesis unfolding step
    using s assms(1,4,5) new same
    by (simp add: swept_def row_ids_snoc first_occurrences_snoc add_new_def del: map_eq_conv)
qed

lemma pass2_next_row:
  assumes "bundle_row l" and s: "swept ls p s"
    and "0 < row_count p (row_id l)" "row_count p (row_id l) < row_count ls (row_id l)"
  shows "swept ls (p @ [l]) (fst (clean_pass2 latest l s)) \<and> snd (clean_pass2 latest l s)"
proof -
  let ?k = "row_id l" and ?n = "row_count ls (row_id l)" and ?c = "row_count p (row_id l)"
  have h: "sw_hash s ?k = Some (int ?c - int ?n)" using s assms(3,4) by (simp add: swept_def)
  have old: "?k \<in> set (row_ids p)" using assms(3) row_count_zero [of p ?k] by simp
  have n: "2 \<le> ?n" using assms(3,4) by simp
  have same: "map (kept_row ls (p @ [l])) (first_occurrences (row_ids p)) = map (kept_row ls p) (first_occurrences (row_ids p))"
    using n by (intro kept_row_cong) simp
  have step: "clean_pass2 latest l s =
      (s\<lparr>sw_nr := sw_nr s + 1, sw_skip := sw_skip s + 1, sw_hash := (sw_hash s)(?k \<mapsto> int ?c - int ?n + 1)\<rparr>, True)"
    using assms(1,4) h by (simp add: clean_pass2_def Let_def)
  show ?thesis unfolding step
    using s assms old same
    by (simp add: swept_def row_ids_snoc first_occurrences_snoc add_new_def del: map_eq_conv)
qed

lemma pass2_step:
  assumes "swept ls p s" and "census_of ls c"
  shows "if \<forall>k. row_count (p @ [l]) k \<le> row_count ls k
    then swept ls (p @ [l]) (fst (clean_pass2 (cs_last c) l s)) \<and> snd (clean_pass2 (cs_last c) l s)
    else sw_stop (fst (clean_pass2 (cs_last c) l s)) \<and> \<not> snd (clean_pass2 (cs_last c) l s)"
proof (cases "bundle_row l")
  case True
  have le: "\<forall>k. row_count p k \<le> row_count ls k" using assms(1) by (simp add: swept_def)
  have iff: "(\<forall>k. row_count (p @ [l]) k \<le> row_count ls k) \<longleftrightarrow> row_count p (row_id l) < row_count ls (row_id l)"
    using le True by (auto simp: row_ids_snoc Suc_le_eq split: if_splits)
  show ?thesis
    using pass2_too_many [OF True assms(1)] pass2_first_row [OF True assms] pass2_next_row [OF True assms(1)]
    unfolding iff by (cases "row_count p (row_id l) = 0") (simp_all add: not_less)
next
  case False
  then have "row_ids (p @ [l]) = row_ids p" by (simp add: row_ids_snoc)
  moreover have "\<forall>k. row_count p k \<le> row_count ls k" using assms(1) by (simp add: swept_def)
  ultimately show ?thesis using pass2_bad_row [OF False assms(1)] by simp
qed

lemma row_count_append: "row_count (p @ q) k = row_count p k + row_count q k"
  by (simp add: row_ids_def rows_def)

lemma pass2:
  assumes c: "census_of ls c"
  shows "swept ls p s \<Longrightarrow>
    (if \<forall>k. row_count (p @ qs) k \<le> row_count ls k then swept ls (p @ qs) (run_lines (clean_pass2 (cs_last c)) qs s)
     else sw_stop (run_lines (clean_pass2 (cs_last c)) qs s))"
proof (induction qs arbitrary: p s)
  case Nil
  then show ?case by (auto simp: swept_def)
next
  case (Cons l qs)
  obtain s' go where l: "clean_pass2 (cs_last c) l s = (s', go)" by fastforce
  show ?case
  proof (cases "\<forall>k. row_count (p @ [l]) k \<le> row_count ls k")
    case True
    then have "swept ls (p @ [l]) s'" "go" using pass2_step [OF Cons.prems c, of l] l by simp_all
    then show ?thesis using Cons.IH [of "p @ [l]" s'] l unfolding append_assoc append_Cons append_Nil by simp
  next
    case False
    then obtain k where "row_count ls k < row_count (p @ [l]) k" by (auto simp: not_le)
    moreover have "row_count (p @ [l]) k \<le> row_count (p @ l # qs) k" using row_count_append [of "p @ [l]" qs k] by simp
    ultimately have "(\<forall>k. row_count (p @ l # qs) k \<le> row_count ls k) = False" by (meson not_le less_le_trans)
    note more = this
    have "sw_stop s'" "\<not> go" using pass2_step [OF Cons.prems c, of l] False l by simp_all
    then show ?thesis using l unfolding more if_False by simp
  qed
qed

section \<open>The command\<close>

lemma mset_counts: "mset xs = mset ys \<longleftrightarrow> (\<forall>k. count_list xs k = count_list ys k)"
  by (simp add: multiset_eq_iff count_mset)

lemma clean_files:
  assumes "new \<noteq> Denied"
  shows "if distinct (row_ids (text_lines t1))
    then \<exists>said. clean path (File t1) (File t2) new = (new, said, Exit 0)
    else if mset (row_ids (text_lines t2)) = mset (row_ids (text_lines t1))
    then \<exists>said. clean path (File t1) (File t2) new =
      (new_text new (unlines (map (kept_row (text_lines t1) (text_lines t2)) (first_occurrences (row_ids (text_lines t2))))),
       said, Exit 0)
    else \<exists>f said. clean path (File t1) (File t2) new = (f, said, Exit 1)"
proof -
  let ?l1 = "text_lines t1" and ?l2 = "text_lines t2"
  let ?c = "run_lines clean_pass1 ?l1 no_census"
  let ?init = "\<lparr>sw_hash = cs_hash ?c, sw_nr = 0, sw_skip = 0, sw_out = [],
      sw_said = clean_counts ?c @ [Line ''Pass 2...''], sw_stop = False\<rparr>"
  let ?s = "run_lines (clean_pass2 (cs_last ?c)) ?l2 ?init"
  have c: "census_of ?l1 ?c" by (rule pass1)
  have h: "cs_hash ?c k = (if row_count ?l1 k = 0 then None else Some (int (row_count ?l1 k)))" for k
    using c unfolding census_of_def by blast
  have hn: "cs_hash ?c k \<noteq> None \<longleftrightarrow> row_count ?l1 k \<noteq> 0" for k
    using h [of k] by (cases "row_count ?l1 k = 0") simp_all
  have d: "cs_dup ?c = 0 \<longleftrightarrow> distinct (row_ids ?l1)" using c unfolding census_of_def by blast
  have "swept ?l1 [] ?init" by (simp add: swept_def h first_occurrences_def)
  from pass2 [OF c this, of ?l2] have run:
    "if \<forall>k. row_count ?l2 k \<le> row_count ?l1 k then swept ?l1 ?l2 ?s else sw_stop ?s" unfolding append_Nil .
  show ?thesis
  proof (cases "distinct (row_ids ?l1)")
    case True
    then show ?thesis using d by (simp add: clean_def FileLines_def f_lines_def Let_def)
  next
    case False
    have cl: "clean path (File t1) (File t2) new =
      (let new = new_text new (sw_out ?s); said = sw_said ?s in
       if sw_stop ?s then (new, said, Exit 1)
       else if \<exists>k\<in>row_id ` set ?l1. cs_hash ?c k \<noteq> None \<and> sw_hash ?s k \<noteq> Some 0
       then (new, said @ [Line ''Error. DB shrinked. Aborted.''], Exit 1)
       else (new, said @ [Line (itoa (int (sw_skip ?s)) @ '' messages removed. File '' @ path @ ''.new created.'')], Exit 0))"
      using False d assms by (simp add: clean_def FileLines_def f_lines_def Let_def)
    show ?thesis
    proof (cases "\<forall>k. row_count ?l2 k \<le> row_count ?l1 k")
      case le: True
      then have sw: "swept ?l1 ?l2 ?s" using run by simp
      have hs: "sw_hash ?s k = Some 0 \<longleftrightarrow> row_count ?l2 k = row_count ?l1 k" if "row_count ?l1 k \<noteq> 0" for k
        using sw that le unfolding swept_def by auto
      have in1: "k \<in> row_id ` set ?l1" if "row_count ?l1 k \<noteq> 0" for k
        using that unfolding row_count_zero by (auto simp: row_ids_def rows_def)
      have nz: "row_count ?l1 k \<noteq> 0" if "row_count ?l2 k \<noteq> row_count ?l1 k" for k
        using spec [OF le, of k] that by simp
      have "(\<exists>k\<in>row_id ` set ?l1. cs_hash ?c k \<noteq> None \<and> sw_hash ?s k \<noteq> Some 0) \<longleftrightarrow>
          (\<exists>k. row_count ?l1 k \<noteq> 0 \<and> row_count ?l2 k \<noteq> row_count ?l1 k)"
        using hs in1 hn by blast
      also have "\<dots> \<longleftrightarrow> mset (row_ids ?l2) \<noteq> mset (row_ids ?l1)"
        using nz unfolding mset_counts by blast
      finally have "(\<exists>k\<in>row_id ` set ?l1. cs_hash ?c k \<noteq> None \<and> sw_hash ?s k \<noteq> Some 0) \<longleftrightarrow>
          mset (row_ids ?l2) \<noteq> mset (row_ids ?l1)" .
      moreover have "\<not> sw_stop ?s" "sw_out ?s = unlines (map (kept_row ?l1 ?l2) (first_occurrences (row_ids ?l2)))"
        using sw by (simp_all add: swept_def)
      ultimately show ?thesis using False unfolding cl by (simp add: Let_def)
    next
      case more: False
      then have "sw_stop ?s" using run by (simp only: if_False)
      moreover have "mset (row_ids ?l2) \<noteq> mset (row_ids ?l1)" using more unfolding mset_counts by (metis order_refl)
      ultimately show ?thesis using False unfolding cl by (simp add: Let_def)
    qed
  qed
qed

section \<open>The cleaned base\<close>

text \<open>The newest version of every message, in the order in which the ids were first stored.\<close>

definition cleaned :: "Msg list \<Rightarrow> Msg list" where
  "cleaned log = map (\<lambda>k. snd (the (newest log k))) (first_occurrences (map m_MsgId log))"

lemma msg_line_row: "storable m \<Longrightarrow> bundle_row (msg_line m) \<and> row_id (msg_line m) = m_MsgId m"
proof -
  assume m: "storable m"
  have "CHR '':'' \<notin> set (StdEncode t)" for t by (rule StdEncode_avoids) (simp_all add: b64_std_def)
  then have "Split (CHR '':'') (msg_line m) = [m_MsgId m, StdEncode (Msg_String m)]"
    using storable_id [OF m] by (simp add: msg_line_def Split_append Split_no_sep)
  then show ?thesis using storable_id [OF m] by (simp add: bundle_row_def row_id_def)
qed

lemma rows_log: "\<forall>m\<in>set log. storable m \<Longrightarrow> rows (map msg_line log) = map msg_line log \<and>
    row_ids (map msg_line log) = map m_MsgId log"
  using msg_line_row by (induction log) (auto simp: rows_def row_ids_def)

lemma last_row_log:
  "\<forall>m\<in>set log. storable m \<Longrightarrow> last_row (map msg_line log) k = map_option (\<lambda>x. msg_line (snd x)) (newest log k)"
proof (induction log rule: rev_induct)
  case (snoc m log)
  then show ?case using msg_line_row [of m] by (simp add: last_row_snoc newest_snoc)
qed (simp add: last_row_def rows_def)

lemma newest_known: "k \<in> set (map m_MsgId log) \<Longrightarrow> \<exists>i m. newest log k = Some (i, m)"
  using newest_None_iff [of log k] by (cases "newest log k") (auto simp: spec_exists_def)

lemma cleaned_member: "m \<in> set (cleaned log) \<Longrightarrow> m \<in> set log"
proof -
  assume "m \<in> set (cleaned log)"
  then obtain k where k: "k \<in> set (map m_MsgId log)" "m = snd (the (newest log k))" by (auto simp: cleaned_def)
  then obtain i m' where n: "newest log k = Some (i, m')" using newest_known by blast
  then show ?thesis using newest_Some [OF n] k(2) by auto
qed

lemma cleaned_ids: "map m_MsgId (cleaned log) = first_occurrences (map m_MsgId log)"
proof -
  have "m_MsgId (snd (the (newest log k))) = k" if "k \<in> set (map m_MsgId log)" for k
    using newest_known [OF that] newest_Some by fastforce
  then show ?thesis by (auto simp: cleaned_def comp_def intro!: map_idI)
qed

lemma kept_log:
  assumes "\<forall>m\<in>set log. storable m"
  shows "unlines (map (kept_row (map msg_line log) (map msg_line log)) (first_occurrences (map m_MsgId log))) =
    bundle_text (cleaned log)"
proof -
  have "kept_row (map msg_line log) (map msg_line log) k = msg_line (snd (the (newest log k)))"
    if "k \<in> set (map m_MsgId log)" for k
    using newest_known [OF that] last_row_log [OF assms, of k] by (auto simp: kept_row_def)
  then show ?thesis by (auto simp: bundle_text_def cleaned_def comp_def intro!: arg_cong [where f = unlines] map_cong)
qed

lemma length_bundle_lines: "length (bundle_text log) = sum_list (map (\<lambda>m. length (msg_line m) + 1) log)"
  by (induction log) (simp_all del: bundle_text_simps, simp)

lemma cleaned_length: "length (bundle_text (cleaned log)) \<le> length (bundle_text log)"
proof -
  let ?f = "\<lambda>m. length (msg_line m) + 1"
  let ?g = "\<lambda>log. \<Sum>k\<in>m_MsgId ` set log. ?f (snd (the (newest log k)))"
  have "?g log \<le> sum_list (map ?f log)"
  proof (induction log rule: rev_induct)
    case (snoc m log)
    let ?S = "m_MsgId ` set log - {m_MsgId m}"
    have "?g (log @ [m]) = ?f m + (\<Sum>k\<in>?S. ?f (snd (the (newest (log @ [m]) k))))"
      by (simp add: newest_snoc sum.insert_remove)
    also have "(\<Sum>k\<in>?S. ?f (snd (the (newest (log @ [m]) k)))) = (\<Sum>k\<in>?S. ?f (snd (the (newest log k))))"
      by (intro sum.cong) (auto simp: newest_snoc)
    also have "\<dots> \<le> ?g log" by (intro sum_mono2) auto
    finally show ?case using snoc by simp
  qed simp
  moreover have "sum_list (map ?f (cleaned log)) = ?g log"
    by (simp add: cleaned_def comp_def sum_list_distinct_conv_sum_set)
  ultimately show ?thesis by (simp add: length_bundle_lines)
qed

lemma newest_distinct:
  "distinct (map m_MsgId log) \<Longrightarrow> i < length log \<Longrightarrow> newest log (m_MsgId (log ! i)) = Some (i, log ! i)"
proof -
  assume d: "distinct (map m_MsgId log)" "i < length log"
  obtain j m where n: "newest log (m_MsgId (log ! i)) = Some (j, m)"
    using newest_known [of "m_MsgId (log ! i)" log] d(2) by auto
  then have "j < length log" "log ! j = m" "m_MsgId m = m_MsgId (log ! i)" using newest_Some by blast+
  then have "j = i" using d by (metis distinct_conv_nth length_map nth_map)
  then show ?thesis using n \<open>log ! j = m\<close> by simp
qed

lemma hd_first_occurrences: "xs \<noteq> [] \<Longrightarrow> first_occurrences xs \<noteq> [] \<and> first_occurrences xs ! 0 = hd xs"
proof (induction xs rule: rev_induct)
  case (snoc x xs)
  then show ?case
    by (cases "xs = []") (auto simp: first_occurrences_snoc add_new_def nth_append first_occurrences_def)
qed simp

text \<open>
  What is read of the cleaned base: the same, except that the first message stored is shown even if it was
  blacklisted, since its line is now the first of the file.
\<close>

lemma spec_get_cleaned:
  "spec_get (cleaned log) k =
     (if log \<noteq> [] \<and> k = m_MsgId (hd log) then map_option snd (newest log k) else spec_get log k)"
proof (cases "k \<in> set (map m_MsgId log)")
  case True
  let ?c = "cleaned log"
  have d: "distinct (map m_MsgId ?c)" by (simp add: cleaned_ids)
  obtain i m where n: "newest log k = Some (i, m)" using newest_known [OF True] by blast
  have "k \<in> set (map m_MsgId ?c)" using True by (simp add: cleaned_ids)
  then obtain j where j: "j < length ?c" "m_MsgId (?c ! j) = k" by (auto simp: in_set_conv_nth)
  then have "first_occurrences (map m_MsgId log) ! j = k" by (simp add: cleaned_ids [symmetric])
  moreover have "j < length (first_occurrences (map m_MsgId log))" using j(1) by (simp add: cleaned_def)
  ultimately have "?c ! j = m" using n by (simp add: cleaned_def)
  then have nc: "newest ?c k = Some (j, m)" using newest_distinct [OF d j(1)] j(2) by simp
  have ne: "log \<noteq> []" using True by auto
  have f0: "m_MsgId (?c ! 0) = m_MsgId (hd log)" "0 < length ?c"
    using hd_first_occurrences [of "map m_MsgId log"] ne cleaned_ids [of log]
    by (metis hd_map length_greater_0_conv list.map_disc_iff nth_map, metis length_greater_0_conv list.map_disc_iff)
  have j0: "j = 0 \<longleftrightarrow> k = m_MsgId (hd log)"
    using f0 j d by (metis distinct_conv_nth length_map nth_map)
  have i0: "i = 0 \<Longrightarrow> k = m_MsgId (hd log)" using newest_Some [OF n] ne by (auto simp: hd_conv_nth)
  show ?thesis using n nc ne j0 i0 by (auto simp: spec_get_def hidden_def)
next
  case False
  have "newest log k = None" using False newest_None_iff [of log k] by (simp add: spec_exists_def)
  moreover have "newest (cleaned log) k = None"
    using False newest_None_iff [of "cleaned log" k] by (simp add: spec_exists_def cleaned_ids)
  moreover have "k \<noteq> m_MsgId (hd log)" if "log \<noteq> []" using False that by auto
  ultimately show ?thesis by (auto simp: spec_get_def)
qed

text \<open>The file the command writes is a base for the cleaned log.\<close>

lemma clean_base:
  assumes rep: "db_rep db log" and f: "db_bundle db = File t" and dup: "\<not> distinct (map m_MsgId log)"
  shows "\<exists>said. clean path (db_bundle db) (db_bundle db) NoFile = (File (bundle_text (cleaned log)), said, Exit 0)"
    and "db_rep \<lparr>db_bundle = File (bundle_text (cleaned log)), db_index = NoFile, db_Idx = nil_index, db_Name = name\<rparr> (cleaned log)"
proof -
  have st: "\<forall>m\<in>set log. storable m" and t: "t = bundle_text log" and len: "int (length (bundle_text log)) < 2 ^ 63"
    using rep f by (auto simp: db_rep_def holds_text_def)
  have ls: "text_lines t = map msg_line log" using text_lines_bundle [OF st] t by simp
  have r: "row_ids (text_lines t) = map m_MsgId log" using rows_log [OF st] ls by simp
  have "\<exists>said. clean path (File t) (File t) NoFile =
      (new_text NoFile (unlines (map (kept_row (text_lines t) (text_lines t)) (first_occurrences (row_ids (text_lines t))))), said, Exit 0)"
    using clean_files [of NoFile t path t] dup r by simp
  then show "\<exists>said. clean path (db_bundle db) (db_bundle db) NoFile = (File (bundle_text (cleaned log)), said, Exit 0)"
    unfolding r f using kept_log [OF st] ls by (simp add: new_text_def)
  have "int (length (bundle_text (cleaned log))) < 2 ^ 63" using len cleaned_length [of log] by linarith
  then show "db_rep \<lparr>db_bundle = File (bundle_text (cleaned log)), db_index = NoFile, db_Idx = nil_index, db_Name = name\<rparr> (cleaned log)"
    using st cleaned_member by (auto simp: db_rep_def holds_text_def mem_rep_def nil_index_def)
qed

end
