(* ===== verification/II_Tool.thy ===== *)
theory II_Tool
  imports II_Clean II_Account II_Net II_Render
begin

text \<open>
  The commands of \<^verbatim>\<open>ii-tool/main.go\<close>. A command works on the files it opens and returns them with what it
  prints and how it ends; a program starts with an empty index in memory. What it takes from outside is
  the record \<open>Env\<close>: the clock, the compiler of expressions, HTTP, the files named on the command line and the standard
  input, which paths can be created, and the fuel of the walk over answers.
\<close>

section \<open>Options and surroundings\<close>

record Opts =
  o_db :: string
  o_lim :: int
  o_verbose :: bool
  o_bundle :: bool
  o_invert :: bool
  o_force :: bool
  o_topics :: bool
  o_from :: string
  o_to :: string
  o_count :: int
  o_skip :: int

record Env =
  e_now :: int
  e_format :: "int \<Rightarrow> string"
  e_compile :: "string \<Rightarrow> (string \<Rightarrow> bool) option"
  e_get :: http
  e_post :: "string \<Rightarrow> (string \<times> string) list \<Rightarrow> http_reply"
  e_read :: "string \<Rightarrow> string option"
  e_stdin :: string
  e_create :: "string \<Rightarrow> bool"
  e_fuel :: nat

text \<open>\<^verbatim>\<open>GetFile\<close>: a name \<^verbatim>\<open>-\<close> is the standard input.\<close>

definition GetFile :: "Env \<Rightarrow> string \<Rightarrow> string option" where
  "GetFile env path = (if path = ''-'' then Some (e_stdin env) else e_read env path)"

text \<open>
  The disk: the directory of the base exists or not, its two files, the file of accounts, the file
  \<^verbatim>\<open>clean\<close> writes, and what was done to other files.
\<close>

datatype fileop = Create string | Write string string

record Disk =
  dk_dir :: bool
  dk_bundle :: gofile
  dk_index :: gofile
  dk_points :: gofile
  dk_new :: gofile
  dk_ops :: "fileop list"

definition say :: "string \<Rightarrow> nat \<Rightarrow> answer" where "say s n = ([Line s], Exit n)"
definition complain :: "string \<Rightarrow> answer" where "complain s = ([Complaint s], Exit 1)"

text \<open>An error is printed, a panic is not an error.\<close>

definition stopped :: "string \<Rightarrow> ii_error \<Rightarrow> answer" where
  "stopped s e = (case e of EPanic p \<Rightarrow> ([], Crash e) | _ \<Rightarrow> complain s)"

definition say_first :: "said list \<Rightarrow> answer \<Rightarrow> answer" where
  "say_first s a = (s @ fst a, snd a)"

text \<open>\<^verbatim>\<open>open_db\<close> ends the program if the directory is missing; \<open>on_db\<close> is a command on the open base.\<close>

definition open_db :: "Disk \<Rightarrow> DB option" where
  "open_db d = OpenDB (dk_dir d) (dk_bundle d) (dk_index d)"

definition put_db :: "Disk \<Rightarrow> DB \<Rightarrow> Disk" where
  "put_db d db = d\<lparr>dk_bundle := db_bundle db, dk_index := db_index db\<rparr>"

definition no_db :: answer where "no_db = complain ''Can no open db''"

definition on_db :: "Disk \<Rightarrow> (DB \<Rightarrow> DB \<times> answer) \<Rightarrow> Disk \<times> answer" where
  "on_db d k =
     (case open_db d of None \<Rightarrow> (d, no_db) | Some db \<Rightarrow> (case k db of (db, a) \<Rightarrow> (put_db d db, a)))"

text \<open>\<^verbatim>\<open>fmt.Println\<close> of a pointer to a message.\<close>

definition print_msg :: "Msg option \<Rightarrow> string" where
  "print_msg m = (case m of None \<Rightarrow> ''<nil>'' | Some m \<Rightarrow> Msg_String m)"

section \<open>Searching, hiding, sending, accounts\<close>

text \<open>\<^verbatim>\<open>search\<close>: the index is loaded once, its error dropped.\<close>

fun search_loop :: "DB \<Rightarrow> bool \<Rightarrow> string \<Rightarrow> (string \<Rightarrow> bool) \<Rightarrow> string list \<Rightarrow> answer" where
  "search_loop db verbose echo re [] = ([], Exit 0)"
| "search_loop db verbose echo re (v # vs) =
     (case (if echo = [] then Inr False
            else (case map_get (ix_Hash (db_Idx db)) v of
                    None \<Rightarrow> Inl (EPanic PNilPointer) | Some mi \<Rightarrow> Inr (mi_Echo mi \<noteq> echo))) of
        Inl e \<Rightarrow> ([], Crash e)
      | Inr True \<Rightarrow> search_loop db verbose echo re vs
      | Inr False \<Rightarrow>
          (case GetFast db v of
             None \<Rightarrow> search_loop db verbose echo re vs
           | Some m \<Rightarrow>
               say_first (if re (Msg_String m) then Line v # (if verbose then [Line (Msg_String m)] else []) else [])
                 (search_loop db verbose echo re vs)))"

definition cmd_search :: "Env \<Rightarrow> Opts \<Rightarrow> string list \<Rightarrow> Disk \<Rightarrow> Disk \<times> answer" where
  "cmd_search env opts args d =
     (if length args < 2 then (d, say ''No string supplied'' 1)
      else let echo = (if length args > 2 then args ! 2 else []) in on_db d (\<lambda>db.
      (case LoadIndex db of
         (db, Some (EPanic p)) \<Rightarrow> (db, [], Crash (EPanic p))
       | (db, _) \<Rightarrow>
           (case e_compile env (args ! 1) of
              None \<Rightarrow> (db, say ''Wrong regexp'' 1)
            | Some re \<Rightarrow> (db, search_loop db (o_verbose opts) echo re (ix_List (db_Idx db)))))))"

definition cmd_blacklist :: "Env \<Rightarrow> string list \<Rightarrow> Disk \<Rightarrow> Disk \<times> answer" where
  "cmd_blacklist env args d =
     (if length args < 2 then (d, say ''No msgid supplied'' 1)
      else on_db d (\<lambda>db. (case Get db (args ! 1) of
        (db, None) \<Rightarrow> (db, say ''No such msg'' 0)
      | (db, Some m) \<Rightarrow>
          (case Blacklist (e_now env) db m of
             (db, _, Some e) \<Rightarrow> (db, stopped ''Can not blacklist'' e)
           | (db, _, None) \<Rightarrow> (db, [], Exit 0)))))"

definition cmd_send :: "Env \<Rightarrow> string list \<Rightarrow> answer" where
  "cmd_send env args =
     (if length args < 4 then say ''No argumnet(s) supplied'' 1
      else (case GetFile env (args ! 3) of
        None \<Rightarrow> complain ''Can not open file''
      | Some msg \<Rightarrow>
          (case DecodeMsgline (e_now env) msg False of
             Inl e \<Rightarrow> stopped ''Wrong message format'' e
           | Inr _ \<Rightarrow>
               (case Connect (e_get env) (args ! 1) of
                  Inl e \<Rightarrow> complain ''Can not connect''
                | Inr n \<Rightarrow>
                    (case Post (e_post env) n (args ! 2) msg of
                       Some e \<Rightarrow> complain ''Can not send message''
                     | None \<Rightarrow> ([], Exit 0))))))"

text \<open>\<^verbatim>\<open>open_users_db\<close>: there is no policy file here; an error of the load ends the program.\<close>

definition open_users_db :: "Env \<Rightarrow> gofile \<Rightarrow> UDB \<times> ii_error option" where
  "open_users_db env f = LoadUsers (e_compile env) (OpenUsers f None)"

definition cmd_useradd :: "Env \<Rightarrow> string list \<Rightarrow> Disk \<Rightarrow> Disk \<times> answer" where
  "cmd_useradd env args d =
     (if length args < 4 then (d, say ''No argumnet(s) supplied'' 1)
      else (case open_users_db env (dk_points d) of
        (udb, Some e) \<Rightarrow> (d, stopped ''Can no load db'' e)
      | (udb, None) \<Rightarrow>
          (case UDB_Add udb (args ! 1) (args ! 2) (args ! 3) ''status/verified/info/ii-tool'' of
             (udb, err) \<Rightarrow>
               (d\<lparr>dk_points := ud_file udb\<rparr>, case err of Some e \<Rightarrow> stopped ''Can not add user'' e | None \<Rightarrow> ([], Exit 0)))))"

section \<open>Importing\<close>

text \<open>The areas of a file: a leading minus is dropped, a colon or an exclamation mark ends the name.\<close>

definition area_of :: "string \<Rightarrow> string" where
  "area_of v =
     (let v = (if HasPrefix v ''-'' then drop 1 v else v)
      in Split (CHR ''!'') (Split (CHR '':'') v ! 0) ! 0)"

definition cmd_fetch :: "Env \<Rightarrow> Opts \<Rightarrow> string list \<Rightarrow> Disk \<Rightarrow> Disk \<times> answer" where
  "cmd_fetch env opts args d =
     (if length args < 2 then (d, say ''No url supplied'' 1)
      else on_db d (\<lambda>db. (case Connect (e_get env) (args ! 1) of
        Inl e \<Rightarrow> (db, complain ''Can not connect'')
      | Inr n \<Rightarrow>
          let n = (if o_force opts then n\<lparr>rm_Force := True\<rparr> else n) in
          if length args > 2 then
            (case GetFile env (args ! 2) of
               None \<Rightarrow> (db, complain ''Can not open file'')
             | Some s \<Rightarrow> (Fetch (e_get env) (e_now env) n db (map area_of (Split NL s)) (o_lim opts), [], Exit 0))
          else (Fetch (e_get env) (e_now env) n db [] (o_lim opts), [], Exit 0))))"

text \<open>\<^verbatim>\<open>store\<close>: the lines of a bundle; a line that does not end in a newline is not read.\<close>

fun store_lines :: "int \<Rightarrow> string list \<Rightarrow> DB \<Rightarrow> DB \<times> answer" where
  "store_lines now [] db = (db, [], Exit 0)"
| "store_lines now (b # bs) db =
     (case DecodeBundle b of
        Inl e \<Rightarrow>
          (case store_lines now bs db of (db, a) \<Rightarrow> (db, say_first [Complaint ''Can not parse message''] a))
      | Inr m \<Rightarrow>
          (case Lookup db (m_MsgId m) of
             (db, Some _) \<Rightarrow> store_lines now bs db
           | (db, None) \<Rightarrow>
               (case Store now db m of
                  (db, _, Some e) \<Rightarrow> (db, stopped ''Can not store message'' e)
                | (db, _, None) \<Rightarrow> store_lines now bs db)))"

definition cmd_store :: "Env \<Rightarrow> string list \<Rightarrow> Disk \<Rightarrow> Disk \<times> answer" where
  "cmd_store env args d =
     (if length args < 2 then (d, say ''No bundle file supplied'' 1)
      else on_db d (\<lambda>db. (case GetFile env (args ! 1) of
        None \<Rightarrow> (db, complain ''Can no open bundle'')
      | Some s \<Rightarrow> store_lines (e_now env) (text_lines s) db)))"

section \<open>Reading\<close>

text \<open>
  The walk of \<^verbatim>\<open>get -t\<close> from a message to what it answers, in its area; it has no end on messages that
  answer each other, so it takes fuel.
\<close>

fun root_walk :: "nat \<Rightarrow> DB \<Rightarrow> string \<Rightarrow> MsgInfo option \<Rightarrow> string \<Rightarrow> string option" where
  "root_walk 0 db echo p topic = None"
| "root_walk (Suc n) db echo None topic = Some topic"
| "root_walk (Suc n) db echo (Some p) topic =
     (if mi_Repto p = mi_Id p then Some topic
      else if mi_Echo p \<noteq> echo then root_walk n db echo (LookupFast db (mi_Repto p) False) topic
      else root_walk n db echo (LookupFast db (mi_Repto p) False) (mi_Id p))"

definition get_topic :: "Env \<Rightarrow> string \<Rightarrow> DB \<Rightarrow> DB \<times> answer" where
  "get_topic env mid db =
     (case Lookup db mid of
        (db, None) \<Rightarrow> (db, [], Exit 0)
      | (db, Some mi) \<Rightarrow>
          (case SelectIDS db (nil_query\<lparr>q_Echo := mi_Echo mi\<rparr>) of
             (db, Inl e) \<Rightarrow> (db, [], Crash e)
           | (db, Inr sel) \<Rightarrow>
               (case LookupIDS db sel of
                  (db, mis) \<Rightarrow>
                    (case root_walk (e_fuel env) db (mi_Echo mi) (Some mi) (mi_Id mi) of
                       None \<Rightarrow> (db, [], Crash (EPanic PLoop))
                     | Some topic \<Rightarrow>
                         (case GetTopics (e_fuel env) db (map mi_Id mis) of
                            None \<Rightarrow> (db, [], Crash (EPanic PLoop))
                          | Some (db, topics) \<Rightarrow>
                              let ids = topic_list topics topic;
                                  ids = (if ids = [] then [mid] else ids)
                              in (db, map Line ids, Exit 0))))))"

definition cmd_get :: "Env \<Rightarrow> Opts \<Rightarrow> string list \<Rightarrow> Disk \<Rightarrow> Disk \<times> answer" where
  "cmd_get env opts args d =
     (if length args < 2 then (d, say ''No msgid supplied'' 1)
      else on_db d (\<lambda>db.
        if o_topics opts then get_topic env (args ! 1) db
        else (case Get db (args ! 1) of
          (db, None) \<Rightarrow> (db, [], Exit 0)
        | (db, Some m) \<Rightarrow> (db, say (Msg_String m) 0))))"

definition select_query :: "Opts \<Rightarrow> string list \<Rightarrow> Query" where
  "select_query opts args =
     (let q = nil_query\<lparr>q_Echo := args ! 1, q_NoAccess := True, q_Invert := o_invert opts,
                q_Count := o_count opts, q_Skip := o_skip opts\<rparr>;
          q = (if o_from opts \<noteq> [] then q\<lparr>q_From := o_from opts\<rparr> else q);
          q = (if o_to opts \<noteq> [] then q\<lparr>q_To := o_to opts\<rparr> else q);
          q = (if o_topics opts then q\<lparr>q_Repto := ''!''\<rparr> else q)
      in if length args > 2 then
           (case sscan_dd (args ! 2) of
              (start, lim) \<Rightarrow>
                let q = (case start of None \<Rightarrow> q | Some n \<Rightarrow> q\<lparr>q_Start := n\<rparr>)
                in (case lim of None \<Rightarrow> q | Some n \<Rightarrow> q\<lparr>q_Lim := n\<rparr>))
         else q)"

fun select_print :: "Opts \<Rightarrow> string list \<Rightarrow> DB \<Rightarrow> DB \<times> said list" where
  "select_print opts [] db = (db, [])"
| "select_print opts (v # vs) db =
     (case (if o_verbose opts then (case Get db v of (db, m) \<Rightarrow> (db, print_msg m))
            else if o_bundle opts then GetBundleAll db v
            else (db, v)) of
        (db, s) \<Rightarrow> (case select_print opts vs db of (db, out) \<Rightarrow> (db, Line s # out)))"

definition cmd_select :: "Opts \<Rightarrow> string list \<Rightarrow> Disk \<Rightarrow> Disk \<times> answer" where
  "cmd_select opts args d =
     (if length args < 2 then (d, say ''No echo supplied'' 1)
      else on_db d (\<lambda>db. (case SelectIDS db (select_query opts args) of
        (db, Inl e) \<Rightarrow> (db, [], Crash e)
      | (db, Inr ids) \<Rightarrow> (case select_print opts ids db of (db, out) \<Rightarrow> (db, out, Exit 0)))))"

text \<open>
  The messages of the ids on the standard input; the lookup is in the index as loaded, the message is read
  after a load of its own.
\<close>

fun pick_msgs :: "string list \<Rightarrow> DB \<Rightarrow> DB \<times> Msg option list" where
  "pick_msgs [] db = (db, [])"
| "pick_msgs (i # ids) db =
     (case LookupFast db i False of
        None \<Rightarrow> pick_msgs ids db
      | Some mi \<Rightarrow> (case Get db (mi_Id mi) of (db, m) \<Rightarrow> (case pick_msgs ids db of (db, ms) \<Rightarrow> (db, m # ms))))"

text \<open>
  \<^verbatim>\<open>sort\<close>: a message that is not found is a nil pointer, which the sorting compares, or else the printing
  dereferences.
\<close>

definition load_picked :: "Env \<Rightarrow> DB \<Rightarrow> DB \<times> (ii_error + Msg option list)" where
  "load_picked env db =
     (case LoadIndex db of
        (db, Some (EPanic p)) \<Rightarrow> (db, Inl (EPanic p))
      | (db, _) \<Rightarrow> (case pick_msgs (scan_lines (e_stdin env)) db of (db, mm) \<Rightarrow> (db, Inr mm)))"

definition sorted_msgs :: "Opts \<Rightarrow> Msg list \<Rightarrow> Msg list" where
  "sorted_msgs opts ms = sort_key (\<lambda>m. if o_invert opts then - m_Date m else m_Date m) ms"

definition cmd_sort :: "Env \<Rightarrow> Opts \<Rightarrow> Disk \<Rightarrow> Disk \<times> answer" where
  "cmd_sort env opts d = on_db d (\<lambda>db.
     (case load_picked env db of
        (db, Inl e) \<Rightarrow> (db, [], Crash e)
      | (db, Inr mm) \<Rightarrow>
          if None \<in> set mm then
            (if length mm = 1 \<and> o_verbose opts then (db, say ''<nil>'' 0)
             else (db, [], Crash (EPanic PNilPointer)))
          else (db, map (\<lambda>m. Line (if o_verbose opts then Msg_String m else m_MsgId m))
                     (sorted_msgs opts (map the mm)), Exit 0)))"

definition cmd_index :: "Disk \<Rightarrow> Disk \<times> answer" where
  "cmd_index d = on_db d (\<lambda>db.
     (case CreateIndex db of
        (db, Some e) \<Rightarrow> (db, stopped ''Can not rebuild index'' e)
      | (db, None) \<Rightarrow> (db, [], Exit 0)))"

end
