(* ===== verification/II_Export.thy ===== *)
theory II_Export
  imports II_Tool II_Attach
begin

text \<open>
  The rest of \<^verbatim>\<open>ii-tool/main.go\<close>: the export of messages as gemini pages, the commands on templates, and the
  choice of the command. An exported file is described by the operations on it, in their order.
\<close>

section \<open>Functions given to templates\<close>

definition html_esc :: "string \<Rightarrow> string" where
  "html_esc l =
     (let l = Replace (CHR ''&'') ''&amp;'' l;
          l = Replace (CHR ''<'') ''&lt;'' l
      in Replace (CHR ''>'') ''&gt;'' l)"

definition text_clean :: "string \<Rightarrow> string" where
  "text_clean t = TrimRight (TrimLeft (Replace CR [] t) [NL]) [NL]"

fun trunc_lines :: "int \<Rightarrow> int \<Rightarrow> string list \<Rightarrow> string" where
  "trunc_lines mx ln [] = []"
| "trunc_lines mx ln (l # ls) =
     (let ln = ln + 1; l = Replace CR [] l in
      if l = ''===='' \<or> HasPrefix l ''/* XPM */'' \<or> HasPrefix l ''! XPM2'' \<or> HasPrefix l ''@base64:'' then []
      else l @ [NL] @ (if ln \<ge> mx \<and> l = [] then ''...'' else trunc_lines mx ln ls))"

definition text_trunc :: "string \<Rightarrow> int \<Rightarrow> string" where
  "text_trunc t mx = trunc_lines mx 0 (Split NL (text_clean t))"

text \<open>The context of a template; the template itself is an argument.\<close>

record TplContext =
  tc_Msg :: "Msg option list"
  tc_Now :: int

definition cmd_template ::
  "Env \<Rightarrow> (string \<Rightarrow> (TplContext \<Rightarrow> said list) option) \<Rightarrow> string list \<Rightarrow> Disk \<Rightarrow> Disk \<times> answer" where
  "cmd_template env tpl args d =
     (if length args < 2 then (d, say ''No template supplied'' 1)
      else (case tpl (args ! 1) of
        None \<Rightarrow> (d, [], Crash EIO)
      | Some run \<Rightarrow> on_db d (\<lambda>db.
          (case load_picked env db of
             (db, Inl e) \<Rightarrow> (db, [], Crash e)
           | (db, Inr mm) \<Rightarrow> (db, run \<lparr>tc_Msg = mm, tc_Now = e_now env\<rparr>, Exit 0)))))"

section \<open>Gemini pages\<close>

record page =
  pg_pre :: bool
  pg_xpm :: bool
  pg_b64 :: bool
  pg_b64str :: string
  pg_b64fname :: string
  pg_links :: "string list"
  pg_out :: string

definition new_page :: "string \<Rightarrow> page" where
  "new_page out = \<lparr>pg_pre = False, pg_xpm = False, pg_b64 = False, pg_b64str = [], pg_b64fname = [],
     pg_links = [], pg_out = out\<rparr>"

definition fprintln :: "page \<Rightarrow> string \<Rightarrow> page" where
  "fprintln p l = p\<lparr>pg_out := pg_out p @ l @ [NL]\<rparr>"

definition link_number :: "nat \<Rightarrow> string" where "link_number n = '' ['' @ itoa (int n) @ '']''"

text \<open>A link keeps its place with a number and is listed at the end of the page.\<close>

definition number_link :: "string \<Rightarrow> string list \<Rightarrow> string \<times> string list" where
  "number_link s links =
     (let n = length links + 1
      in (s @ link_number n, links @ [''=> '' @ s @ '' '' @ s @ link_number n]))"

definition file_name :: "string \<Rightarrow> string" where
  "file_name l = Replace (CHR 92) ''_'' (Replace (CHR ''/'') ''_'' (Trim (TrimPrefix l ''@base64:'') '' ''))"

text \<open>The state of the page and the line after the tests on what the line opens and closes.\<close>

definition gemini_mode :: "string \<Rightarrow> page \<Rightarrow> page \<times> string" where
  "gemini_mode l p =
     (if pg_pre p then (if l = ''===='' then (p\<lparr>pg_pre := False\<rparr>, ''```'') else (p, l))
      else if pg_xpm p then (p, l)
      else if pg_b64 p then (p\<lparr>pg_b64str := pg_b64str p @ l\<rparr>, l)
      else if l = ''===='' then (p\<lparr>pg_pre := True\<rparr>, ''```'')
      else if HasPrefix l ''/* XPM */'' then ((fprintln p ''```'')\<lparr>pg_xpm := True\<rparr>, l)
      else if HasPrefix l ''@base64:'' then (p\<lparr>pg_b64 := True, pg_b64fname := file_name l\<rparr>, l)
      else (p, l))"

definition gemini_line :: "string \<Rightarrow> page \<Rightarrow> page" where
  "gemini_line l p =
     (let l = Replace CR [] l in
      if \<not> pg_pre p \<and> pg_xpm p \<and> HasSuffix l ''};'' then fprintln (fprintln (p\<lparr>pg_xpm := False\<rparr>) l) ''```''
      else (case gemini_mode l p of
        (p, l) \<Rightarrow>
          (case (if \<not> pg_pre p \<and> \<not> pg_xpm p \<and> \<not> pg_b64 p then replace_all url_len number_link l (pg_links p)
                 else (l, pg_links p)) of
             (l, links) \<Rightarrow>
               let p = p\<lparr>pg_links := links\<rparr> in if \<not> pg_b64 p then fprintln p l else p)))"

definition gemini_head :: "Env \<Rightarrow> Msg \<Rightarrow> string" where
  "gemini_head env m =
     ''# '' @ m_Subj m @ [NL] @
     (if m_To m \<noteq> ''All'' \<and> m_To m \<noteq> m_From m then ''To: '' @ m_To m @ [NL, NL] else []) @
     ''by '' @ m_From m @ '' on '' @ e_format env (m_Date m) @ [NL, NL]"

definition gemini_page :: "Env \<Rightarrow> Msg \<Rightarrow> page" where
  "gemini_page env m = fold gemini_line (Split NL (m_Text m)) (new_page (gemini_head env m))"

definition file_link :: "string \<Rightarrow> string" where "file_link n = ''=> '' @ n @ '' '' @ n @ [NL]"

definition gemini :: "Env \<Rightarrow> string \<Rightarrow> Msg \<Rightarrow> string \<Rightarrow> fileop list" where
  "gemini env f m dir =
     (let p = gemini_page env m in
      Write f (pg_out p @ concat (map (\<lambda>v. v @ [NL]) (pg_links p))) #
      (if pg_b64 p then
         (case StdDecode (pg_b64str p) of
            None \<Rightarrow> []
          | Some d \<Rightarrow>
              let bf = dir @ ''/'' @ pg_b64fname p
              in if e_create env bf then [Create bf, Write bf d, Write f (file_link (pg_b64fname p))] else [])
       else []))"

text \<open>The messages are read twice; one that is not shown is left out.\<close>

fun pick_shown :: "string list \<Rightarrow> DB \<Rightarrow> DB \<times> Msg option list" where
  "pick_shown [] db = (db, [])"
| "pick_shown (i # ids) db =
     (case LookupFast db i False of
        None \<Rightarrow> pick_shown ids db
      | Some mi \<Rightarrow>
          (case Get db (mi_Id mi) of
             (db, None) \<Rightarrow> pick_shown ids db
           | (db, Some _) \<Rightarrow>
               (case Get db (mi_Id mi) of (db, m) \<Rightarrow> (case pick_shown ids db of (db, ms) \<Rightarrow> (db, m # ms)))))"

fun gemini_files :: "Env \<Rightarrow> bool \<Rightarrow> string \<Rightarrow> Msg option list \<Rightarrow> fileop list \<times> answer" where
  "gemini_files env verbose dir [] = ([], [], Exit 0)"
| "gemini_files env verbose dir (None # mm) = ([], [], Crash (EPanic PNilPointer))"
| "gemini_files env verbose dir (Some m # mm) =
     (let f = dir @ ''/'' @ m_MsgId m @ ''.gmi'' in
      (case gemini_files env verbose dir mm of
         (ops, a) \<Rightarrow>
           if e_create env f
           then (Create f # gemini env f m dir @ ops, say_first (if verbose then [Line (m_MsgId m)] else []) a)
           else (ops, a)))"

definition cmd_gemini :: "Env \<Rightarrow> Opts \<Rightarrow> string list \<Rightarrow> Disk \<Rightarrow> Disk \<times> answer" where
  "cmd_gemini env opts args d =
     (if length args < 2 then (d, say ''No dir supplied'' 1)
      else (case open_db d of
        None \<Rightarrow> (d, no_db)
      | Some db \<Rightarrow>
          (case LoadIndex db of
             (db, Some (EPanic p)) \<Rightarrow> (put_db d db, [], Crash (EPanic p))
           | (db, _) \<Rightarrow>
               (case pick_shown (scan_lines (e_stdin env)) db of
                  (db, mm) \<Rightarrow>
                    (case gemini_files env (o_verbose opts) (TrimSuffix (args ! 1) ''/'') mm of
                       (ops, a) \<Rightarrow> ((put_db d db)\<lparr>dk_ops := dk_ops d @ ops\<rparr>, a))))))"

section \<open>The choice of the command\<close>

definition cmd_clean :: "Opts \<Rightarrow> Disk \<Rightarrow> Disk \<times> answer" where
  "cmd_clean opts d =
     (case clean (o_db opts) (dk_bundle d) (dk_bundle d) (dk_new d) of (f, a) \<Rightarrow> (d\<lparr>dk_new := f\<rparr>, a))"

definition tool ::
  "Env \<Rightarrow> (string \<Rightarrow> (TplContext \<Rightarrow> said list) option) \<Rightarrow> Opts \<Rightarrow> string list \<Rightarrow> Disk \<Rightarrow> Disk \<times> answer" where
  "tool env tpl opts args d =
     (case args of
        [] \<Rightarrow> (d, complain ''Help'')
      | cmd # _ \<Rightarrow>
          if cmd = ''search'' then cmd_search env opts args d
          else if cmd = ''blacklist'' then cmd_blacklist env args d
          else if cmd = ''send'' then (d, cmd_send env args)
          else if cmd = ''useradd'' then cmd_useradd env args d
          else if cmd = ''clean'' then cmd_clean opts d
          else if cmd = ''fetch'' then cmd_fetch env opts args d
          else if cmd = ''store'' then cmd_store env args d
          else if cmd = ''get'' then cmd_get env opts args d
          else if cmd = ''select'' then cmd_select opts args d
          else if cmd = ''sort'' then cmd_sort env opts d
          else if cmd = ''index'' then cmd_index d
          else if cmd = ''template'' then cmd_template env tpl args d
          else if cmd = ''gemini'' then cmd_gemini env opts args d
          else (d, say (''Wrong cmd: '' @ cmd) 1))"

end
