(* ===== verification/II_Import.thy ===== *)
theory II_Import
  imports II_Export
begin

text \<open>
  The command line tool on a base that represents a log: opening it, importing a bundle, and which commands
  only read. The specification of the import is a function on logs.
\<close>

section \<open>The base on the disk\<close>

definition disk_rep :: "Disk \<Rightarrow> Msg list \<Rightarrow> bool" where
  "disk_rep d log = (\<exists>db. open_db d = Some db \<and> db_rep db log)"

lemma disk_repE:
  assumes "disk_rep d log"
  obtains db where "open_db d = Some db" "db_rep db log"
  using assms by (auto simp: disk_rep_def)

text \<open>What the files hold, whatever is in memory.\<close>

definition files_rep :: "DB \<Rightarrow> Msg list \<Rightarrow> bool" where
  "files_rep db log = db_rep (db\<lparr>db_Idx := nil_index\<rparr>) log"

lemma files_repI: "db_rep db log \<Longrightarrow> files_rep db log"
  by (simp add: files_rep_def db_rep_def mem_rep_def nil_index_def)

lemma files_rep_same:
  "files_rep db log \<Longrightarrow> db_bundle db' = db_bundle db \<Longrightarrow> db_index db' = db_index db \<Longrightarrow> files_rep db' log"
  by (simp add: files_rep_def db_rep_def)

lemma put_db_rep: "disk_rep d log0 \<Longrightarrow> files_rep db log \<Longrightarrow> disk_rep (put_db d db) log"
  by (auto simp: disk_rep_def open_db_def OpenDB_def put_db_def files_rep_def db_rep_def split: if_splits)

lemma on_db_rep:
  assumes "disk_rep d log0" and "\<And>db. db_rep db log0 \<Longrightarrow> files_rep (fst (k db)) log"
  shows "disk_rep (fst (on_db d k)) log"
  using assms(1)
proof (rule disk_repE)
  fix db assume db: "open_db d = Some db" "db_rep db log0"
  then show ?thesis using put_db_rep [OF assms(1) assms(2) [OF db(2)]] by (simp add: on_db_def case_prod_beta)
qed

lemma on_db_answer:
  assumes "disk_rep d log" and "\<And>db. db_rep db log \<Longrightarrow> snd (k db) = a"
  shows "snd (on_db d k) = a"
  using assms(1) by (rule disk_repE) (use assms(2) in \<open>simp add: on_db_def case_prod_beta\<close>)

lemma on_db_frame:
  "dk_dir (fst (on_db d k)) = dk_dir d" "dk_points (fst (on_db d k)) = dk_points d"
  "dk_new (fst (on_db d k)) = dk_new d" "dk_ops (fst (on_db d k)) = dk_ops d"
  by (auto simp: on_db_def put_db_def split: option.split prod.split)

section \<open>Lookups on a log\<close>

lemma Lookup_rep:
  assumes "db_rep db log"
  shows "(snd (Lookup db k) \<noteq> None \<longleftrightarrow> spec_get log k \<noteq> None) \<and> db_loaded (fst (Lookup db k)) log"
proof -
  obtain db' where db': "db_loaded db' log" "DB_Lookup db k False True = DB_Lookup db' k False False"
    using DB_Lookup_idx [OF assms] by metis
  show ?thesis
    using DB_Lookup_loaded [OF db'(1), of k False] db'
    by (auto simp: Lookup_def spec_get_def split: option.splits prod.splits if_splits)
qed

lemma Store_known:
  assumes "db_rep db log" "spec_exists log (m_MsgId m)"
  shows "\<exists>db'. Store now db m = (db', m, Some EAlreadyExists) \<and> db_loaded db' log"
proof -
  obtain ix' where l: "LoadIndex db = (db\<lparr>db_index := File (index_text log), db_Idx := ix'\<rparr>, None)"
      and ld: "db_loaded (db\<lparr>db_index := File (index_text log), db_Idx := ix'\<rparr>) log"
    using LoadIndex_rep [OF assms(1)] by blast
  have "map_get (ix_Hash ix') (m_MsgId m) \<noteq> None"
    using mem_loaded_get [of ix' log "m_MsgId m"] ld assms(2) newest_None_iff [of log "m_MsgId m"]
    by (auto simp: db_loaded_def split: option.splits)
  then show ?thesis using ld by (simp add: Store_def DB_Store_def l)
qed

section \<open>Importing a bundle\<close>

text \<open>
  The log after the lines, and whether the import stopped at a message that is stored but hidden.
\<close>

fun import_log :: "int \<Rightarrow> string list \<Rightarrow> Msg list \<Rightarrow> Msg list \<times> bool" where
  "import_log now [] log = (log, False)"
| "import_log now (b # bs) log =
     (case DecodeBundle b of
        Inl _ \<Rightarrow> import_log now bs log
      | Inr m \<Rightarrow>
          if spec_get log (m_MsgId m) \<noteq> None then import_log now bs log
          else if spec_exists log (m_MsgId m) then (log, True)
          else import_log now bs (log @ [filled now m]))"

text \<open>The messages of the lines that decode; what they need of the base they are imported into.\<close>

definition delivered :: "string list \<Rightarrow> Msg list" where
  "delivered bs = concat (map (\<lambda>b. case DecodeBundle b of Inl _ \<Rightarrow> [] | Inr m \<Rightarrow> [m]) bs)"

lemma delivered_simps [simp]:
  "delivered [] = []"
  "delivered (b # bs) = (case DecodeBundle b of Inl _ \<Rightarrow> [] | Inr m \<Rightarrow> [m]) @ delivered bs"
  by (simp_all add: delivered_def)

definition fits :: "int \<Rightarrow> string list \<Rightarrow> Msg list \<Rightarrow> bool" where
  "fits now bs log =
     (in64 now \<and> (\<forall>m\<in>set (delivered bs). indexable (filled now m)) \<and>
      int (length (bundle_text (log @ map (filled now) (delivered bs)))) < 2 ^ 63)"

lemma length_bundle_append: "length (bundle_text (xs @ ys)) = length (bundle_text xs) + length (bundle_text ys)"
  by (simp add: length_bundle_lines)

lemma fits_Cons:
  assumes "fits now (b # bs) log"
  shows "DecodeBundle b = Inl e \<Longrightarrow> fits now bs log"
    and "DecodeBundle b = Inr m \<Longrightarrow> fits now bs log"
    and "DecodeBundle b = Inr m \<Longrightarrow> fits now bs (log @ [filled now m])"
    and "DecodeBundle b = Inr m \<Longrightarrow> storable (filled now m) \<and> m_MsgId (filled now m) = m_MsgId m"
    and "DecodeBundle b = Inr m \<Longrightarrow> int (length (bundle_text (log @ [filled now m]))) < 2 ^ 63"
proof -
  show "DecodeBundle b = Inr m \<Longrightarrow> storable (filled now m) \<and> m_MsgId (filled now m) = m_MsgId m"
  proof -
    assume dec: "DecodeBundle b = Inr m"
    then have ok: "bundle_ok m" "m_MsgId m \<noteq> []" using DecodeBundle_ok by auto
    then have "m_MsgId (filled now m) = m_MsgId m" by (simp add: filled_def stamped_def Let_def)
    moreover have "indexable (filled now m)" "in64 now" using assms dec by (simp_all add: fits_def)
    ultimately show ?thesis using ok bundle_ok_filled [OF ok(1)] by (simp add: storable_def)
  qed
qed (use assms in \<open>simp_all add: fits_def length_bundle_append length_bundle_lines del: bundle_text_simps\<close>)

theorem store_lines_rep:
  assumes "db_rep db log" and "fits now bs log"
  shows "\<exists>db' said. store_lines now bs db =
      (db', said, if snd (import_log now bs log) then Exit 1 else Exit 0) \<and>
    db_rep db' (fst (import_log now bs log))"
  using assms
proof (induction bs arbitrary: db log)
  case (Cons b bs)
  show ?case
  proof (cases "DecodeBundle b")
    case (Inl e)
    obtain db' said where "store_lines now bs db = (db', said, if snd (import_log now bs log) then Exit 1 else Exit 0)"
        "db_rep db' (fst (import_log now bs log))"
      using Cons.IH [OF Cons.prems(1) fits_Cons(1) [OF Cons.prems(2) Inl]] by blast
    then show ?thesis using Inl by (simp add: say_first_def)
  next
    case (Inr m)
    obtain d found where lk: "Lookup db (m_MsgId m) = (d, found)" by fastforce
    have d: "found \<noteq> None \<longleftrightarrow> spec_get log (m_MsgId m) \<noteq> None" "db_rep d log"
      using Lookup_rep [OF Cons.prems(1), of "m_MsgId m"] lk db_loaded_rep by auto
    show ?thesis
    proof (cases "spec_get log (m_MsgId m)")
      case (Some x)
      then show ?thesis
        using Inr lk d Cons.IH [OF d(2) fits_Cons(2) [OF Cons.prems(2) Inr]] by (auto split: option.splits)
    next
      case unseen: None
      show ?thesis
      proof (cases "spec_exists log (m_MsgId m)")
        case True
        then show ?thesis
          using Inr lk d unseen Store_known [OF d(2) True, of now] db_loaded_rep
          by (auto simp: stopped_def complain_def)
      next
        case False
        note st = fits_Cons(4) [OF Cons.prems(2) Inr] and size = fits_Cons(5) [OF Cons.prems(2) Inr]
        obtain d' where "Store now d m = (d', filled now m, None)" "db_rep d' (log @ [filled now m])"
          using DB_Store_rep [OF d(2) conjunct1 [OF st] size, of False] False by (auto simp: Store_def split: prod.splits)
        then show ?thesis
          using Inr lk d unseen False Cons.IH [OF _ fits_Cons(3) [OF Cons.prems(2) Inr], of d'] by auto
      qed
    qed
  qed
qed simp

text \<open>What the specification promises.\<close>

lemma import_log_new:
  "\<exists>ms. fst (import_log now bs log) = log @ ms \<and> (fits now bs log \<longrightarrow> new_only log ms) \<and>
     set ms \<subseteq> filled now ` set (delivered bs)"
proof (induction bs arbitrary: log)
  case Nil
  then show ?case by (simp add: new_only_def)
next
  case (Cons b bs)
  show ?case
  proof (cases "DecodeBundle b")
    case (Inl e)
    then show ?thesis using Cons.IH [of log] fits_Cons(1) [of now b bs log, OF _ Inl] by auto
  next
    case (Inr m)
    obtain ms where ms: "fst (import_log now bs (log @ [filled now m])) = (log @ [filled now m]) @ ms"
        "fits now bs (log @ [filled now m]) \<longrightarrow> new_only (log @ [filled now m]) ms"
        "set ms \<subseteq> filled now ` set (delivered bs)"
      using Cons.IH by blast
    have "new_only log (filled now m # ms)" if f: "fits now (b # bs) log" "\<not> spec_exists log (m_MsgId m)"
      using ms(2) fits_Cons(3) [OF f(1) Inr] fits_Cons(4) [OF f(1) Inr] f(2)
      by (auto simp: new_only_def spec_exists_def)
    moreover have "fst (import_log now bs (log @ [filled now m])) = log @ (filled now m # ms)" using ms(1) by simp
    moreover have "set (filled now m # ms) \<subseteq> filled now ` set (delivered (b # bs))" using ms(3) Inr by auto
    ultimately have new: "\<exists>ms. fst (import_log now bs (log @ [filled now m])) = log @ ms \<and>
        (fits now (b # bs) log \<and> \<not> spec_exists log (m_MsgId m) \<longrightarrow> new_only log ms) \<and>
        set ms \<subseteq> filled now ` set (delivered (b # bs))" by blast
    show ?thesis using new Inr Cons.IH [of log] fits_Cons(2) [of now b bs log, OF _ Inr] by (auto simp: new_only_def)
  qed
qed

lemma spec_exists_append: "spec_exists log k \<Longrightarrow> spec_exists (log @ ms) k"
  by (auto simp: spec_exists_def)

text \<open>
  The log after messages of which none stops the import: each id that is new is stored, in order. An id
  that is known but hidden stops it.
\<close>

definition imported :: "int \<Rightarrow> Msg list \<Rightarrow> Msg list \<Rightarrow> Msg list" where
  "imported now log ds = fold (\<lambda>m l. if spec_exists l (m_MsgId m) then l else l @ [filled now m]) ds log"

definition known_hidden :: "Msg list \<Rightarrow> string \<Rightarrow> bool" where
  "known_hidden log k = (spec_exists log k \<and> spec_get log k = None)"

lemma imported_simps [simp]:
  "imported now log [] = log"
  "imported now log (m # ds) =
     imported now (if spec_exists log (m_MsgId m) then log else log @ [filled now m]) ds"
  by (simp_all add: imported_def)

lemma spec_get_exists: "spec_get log k \<noteq> None \<Longrightarrow> spec_exists log k"
  using newest_None_iff [of log k] by (auto simp: spec_get_def split: option.splits)

text \<open>The messages before the one that stops the import, and the rest; which is empty if none does.\<close>

definition parts :: "int \<Rightarrow> Msg list \<Rightarrow> Msg list \<Rightarrow> Msg list \<Rightarrow> bool" where
  "parts now log ds rest =
     ((\<forall>xs m ys. ds = xs @ m # ys \<longrightarrow> \<not> known_hidden (imported now log xs) (m_MsgId m)) \<and>
      (rest \<noteq> [] \<longrightarrow> known_hidden (imported now log ds) (m_MsgId (hd rest))))"

lemma parts_Cons:
  assumes "parts now (if spec_exists log (m_MsgId m) then log else log @ [filled now m]) ds rest"
    and "\<not> known_hidden log (m_MsgId m)"
  shows "parts now log (m # ds) rest"
proof -
  have "\<not> known_hidden (imported now log xs) (m_MsgId x)" if "m # ds = xs @ x # ys" for xs x ys
    using that assms by (cases xs) (auto simp: parts_def)
  then show ?thesis using assms(1) by (simp add: parts_def)
qed

lemma import_log_parts:
  "\<exists>ds rest. delivered bs = ds @ rest \<and> fst (import_log now bs log) = imported now log ds \<and>
     snd (import_log now bs log) = (rest \<noteq> []) \<and> parts now log ds rest"
proof (induction bs arbitrary: log)
  case Nil
  then show ?case by (intro exI [of _ "[]"]) (simp add: parts_def)
next
  case (Cons b bs)
  show ?case
  proof (cases "DecodeBundle b")
    case (Inl e)
    then show ?thesis using Cons.IH [of log] by simp
  next
    case (Inr m)
    let ?log = "if spec_exists log (m_MsgId m) then log else log @ [filled now m]"
    show ?thesis
    proof (cases "known_hidden log (m_MsgId m)")
      case True
      then show ?thesis using Inr
        by (intro exI [of _ "[]"] exI [of _ "m # delivered bs"]) (simp add: parts_def known_hidden_def)
    next
      case False
      then have i: "import_log now (b # bs) log = import_log now bs ?log"
        using Inr spec_get_exists [of log "m_MsgId m"] by (auto simp: known_hidden_def)
      obtain ds rest where r: "delivered bs = ds @ rest" "fst (import_log now bs ?log) = imported now ?log ds"
          "snd (import_log now bs ?log) = (rest \<noteq> [])" "parts now ?log ds rest"
        using Cons.IH [of ?log] by blast
      show ?thesis
        using r Inr parts_Cons [OF r(4) False] unfolding i
        by (intro exI [of _ "m # ds"] exI [of _ rest]) simp
    qed
  qed
qed

lemma delivered_id: "m \<in> set (delivered bs) \<Longrightarrow> m_MsgId m \<noteq> []"
  using DecodeBundle_ok by (auto simp: delivered_def split: sum.splits)

lemma filled_known_id: "m_MsgId m \<noteq> [] \<Longrightarrow> m_MsgId (filled now m) = m_MsgId m"
  by (simp add: filled_def stamped_def Let_def)

lemma blacklisted_filled [simp]: "blacklisted (filled now m) = blacklisted m"
  by (simp add: blacklisted_def filled_def stamped_def Msg_tag_val_def Msg_Tag_def Let_def)

lemma imported_known:
  assumes "\<forall>m\<in>set ds. m_MsgId m \<noteq> []"
  shows "spec_exists (imported now log ds) k \<longleftrightarrow> spec_exists log k \<or> k \<in> m_MsgId ` set ds"
  using assms
proof (induction ds arbitrary: log)
  case (Cons m ds)
  then show ?case using filled_known_id [of m now] by (auto simp: spec_exists_def)
qed simp

lemma imported_hidden:
  assumes "\<forall>m\<in>set ds. m_MsgId m \<noteq> []" and "known_hidden (imported now log ds) k"
  shows "known_hidden log k \<or> (\<exists>m\<in>set ds. m_MsgId m = k \<and> blacklisted m)"
  using assms
proof (induction ds arbitrary: log)
  case (Cons m ds)
  have "known_hidden log k \<or> m_MsgId m = k \<and> blacklisted m" if "known_hidden (log @ [filled now m]) k"
    using that Cons.prems(1) filled_known_id [of m now]
    by (auto simp: known_hidden_def spec_get_snoc spec_exists_def hidden_def split: if_splits)
  then show ?case using Cons by (fastforce split: if_splits)
qed simp

text \<open>If nothing delivered is hidden, neither before the import nor by its own mark, nothing stops it.\<close>

lemma parts_all:
  assumes "parts now log ds rest" and "\<forall>m\<in>set (ds @ rest). m_MsgId m \<noteq> []"
    and "\<forall>m\<in>set (ds @ rest). \<not> known_hidden log (m_MsgId m) \<and> \<not> blacklisted m"
  shows "rest = []"
proof (rule ccontr)
  assume r: "rest \<noteq> []"
  then have "known_hidden (imported now log ds) (m_MsgId (hd rest))" using assms(1) by (simp add: parts_def)
  from imported_hidden [OF _ this] show False using assms(2,3) r by (cases rest) auto
qed

end
