(* ===== verification/II_Readers.thy ===== *)
theory II_Readers
  imports II_Import II_Listing II_Sync "HOL-Library.Sublist"
begin

text \<open>
  The commands that read: what \<^verbatim>\<open>search\<close>, \<^verbatim>\<open>sort\<close> and \<^verbatim>\<open>select\<close> print, and that no command but
  \<^verbatim>\<open>blacklist\<close>, \<^verbatim>\<open>fetch\<close> and \<^verbatim>\<open>store\<close> changes the base.
\<close>

section \<open>Readers on a log\<close>

lemma LoadIndex_loads:
  assumes "db_rep db log"
  obtains db' where "LoadIndex db = (db', None)" "db_loaded db' log"
  using LoadIndex_rep [OF assms] by blast

lemma LookupFast_loaded:
  assumes "db_loaded db log" "\<not> spec_exists log []"
  shows "LookupFast db i False = None \<longleftrightarrow> spec_get log i = None"
    and "LookupFast db i False = Some mi \<Longrightarrow> mi_Id mi = i"
proof -
  have "spec_get log [] = None" using assms(2) newest_None_iff [of log "[]"] by (simp add: spec_get_def)
  moreover have l: "map_option mi_view (snd (DB_Lookup db i False False)) =
      (case newest log i of None \<Rightarrow> None
       | Some (n, m) \<Rightarrow> if \<not> False \<and> hidden n m then None else Some (minfo m (signed_off m (msg_off log n))))"
    using DB_Lookup_loaded [OF assms(1), of i False] by blast
  ultimately show "LookupFast db i False = None \<longleftrightarrow> spec_get log i = None"
    by (auto simp: LookupFast_def spec_get_def split: option.splits prod.splits if_splits)
  show "mi_Id mi = i" if "LookupFast db i False = Some mi"
  proof -
    have "snd (DB_Lookup db i False False) = Some mi" using that by (simp add: LookupFast_def split: if_splits)
    then have "spec_get log i \<noteq> None" using l by (auto simp: spec_get_def split: option.splits prod.splits if_splits)
    from Lookup_entry [OF assms(1) this] show ?thesis using \<open>snd (DB_Lookup db i False False) = Some mi\<close> by auto
  qed
qed

lemma no_empty_id: "db_rep db log \<Longrightarrow> \<not> spec_exists log []"
  by (auto simp: spec_exists_def db_rep_def storable_def)

lemma Get_loaded: "db_loaded db log \<Longrightarrow> Get db k = (db, spec_get log k)"
proof -
  assume l: "db_loaded db log"
  have "DB_GetBundle db k True False = DB_GetBundle db k False False"
    using LoadIndex_loaded [OF l] by (simp add: DB_GetBundle_def DB_Lookup_def)
  then have "fst (Get db k) = db"
    using DB_GetBundle_loaded [OF l, of k False] by (simp add: Get_def GetBundle_def case_prod_beta)
  then show ?thesis using Get_rep [OF db_loaded_rep [OF l], of k] by (metis prod.collapse)
qed

definition found :: "Msg list \<Rightarrow> string list \<Rightarrow> Msg list" where
  "found log ids = List.map_filter (spec_get log) ids"

lemma found_simps [simp]:
  "found log [] = []" "found log (i # ids) = (case spec_get log i of None \<Rightarrow> [] | Some m \<Rightarrow> [m]) @ found log ids"
  by (simp_all add: found_def map_filter_def split: option.split)

lemma found_ids: "subseq (map m_MsgId (found log ids)) ids"
proof (induction ids)
  case (Cons i ids)
  then show ?case using spec_get_mem [of log i] by (cases "spec_get log i") auto
qed simp

lemma set_found: "m \<in> set (found log ids) \<longleftrightarrow> (\<exists>i\<in>set ids. spec_get log i = Some m)"
  by (induction ids) (auto split: option.splits)

lemma found_all: "m \<in> set (found log (first_occurrences (map m_MsgId log))) \<longleftrightarrow> spec_get log (m_MsgId m) = Some m"
proof
  assume g: "spec_get log (m_MsgId m) = Some m"
  then have "m_MsgId m \<in> set (map m_MsgId log)" using spec_get_mem [of log "m_MsgId m" m] by auto
  then have "m_MsgId m \<in> set (first_occurrences (map m_MsgId log))" by simp
  then show "m \<in> set (found log (first_occurrences (map m_MsgId log)))" unfolding set_found using g by blast
next
  assume "m \<in> set (found log (first_occurrences (map m_MsgId log)))"
  then obtain i where "spec_get log i = Some m" by (auto simp: set_found)
  then show "spec_get log (m_MsgId m) = Some m" using spec_get_mem by metis
qed

lemma pick_msgs_loaded: "db_loaded db log \<Longrightarrow> pick_msgs ids db = (db, map Some (found log ids))"
proof (induction ids)
  case (Cons i ids)
  note ne = no_empty_id [OF db_loaded_rep [OF Cons.prems]]
  show ?case
    using LookupFast_loaded [OF Cons.prems ne, of i] Get_loaded [OF Cons.prems, of i] Cons
    by (cases "LookupFast db i False") auto
qed simp

lemma pick_shown_loaded: "db_loaded db log \<Longrightarrow> pick_shown ids db = (db, map Some (found log ids))"
proof (induction ids)
  case (Cons i ids)
  note ne = no_empty_id [OF db_loaded_rep [OF Cons.prems]]
  show ?case
    using LookupFast_loaded [OF Cons.prems ne, of i] Get_loaded [OF Cons.prems, of i] Cons
    by (cases "LookupFast db i False") auto
qed simp

lemma load_picked_rep:
  assumes "db_rep db log"
  shows "\<exists>db'. load_picked env db = (db', Inr (map Some (found log (scan_lines (e_stdin env))))) \<and> db_loaded db' log"
  using assms by (rule LoadIndex_loads) (simp add: load_picked_def pick_msgs_loaded)

section \<open>Searching\<close>

text \<open>The ids of the shown messages that match, in the order of the base.\<close>

definition matching :: "Msg list \<Rightarrow> string \<Rightarrow> (string \<Rightarrow> bool) \<Rightarrow> Msg list" where
  "matching log echo re =
     filter (\<lambda>m. (echo = [] \<or> m_Echo m = echo) \<and> re (Msg_String m)) (found log (first_occurrences (map m_MsgId log)))"

definition search_lines :: "bool \<Rightarrow> Msg \<Rightarrow> said list" where
  "search_lines verbose m = Line (m_MsgId m) # (if verbose then [Line (Msg_String m)] else [])"

lemma search_loop_loaded:
  assumes "db_loaded db log"
  shows "set ids \<subseteq> set (map m_MsgId log) \<Longrightarrow> search_loop db verbose echo re ids =
    (concat (map (search_lines verbose) (filter (\<lambda>m. (echo = [] \<or> m_Echo m = echo) \<and> re (Msg_String m)) (found log ids))),
     Exit 0)"
proof (induction ids)
  case (Cons k ids)
  obtain n m where n: "newest log k = Some (n, m)"
    using Cons.prems newest_known [of k log] by auto
  have v: "map_option mi_view (map_get (ix_Hash (db_Idx db)) k) = Some (minfo m (signed_off m (msg_off log n)))"
    using mem_loaded_get [of "db_Idx db" log k] assms n by (simp add: db_loaded_def)
  then obtain mi where mi: "map_get (ix_Hash (db_Idx db)) k = Some mi" "mi_view mi = minfo m (signed_off m (msg_off log n))"
    by auto
  have e: "mi_Echo mi = m_Echo m" by (metis mi(2) minfo_sel(2) mi_view_simps(5))
  have k: "m_MsgId m = k" using newest_Some [OF n] by simp
  show ?case
    using Cons GetFast_loaded [OF assms, of k] mi(1) e k n
    by (auto simp: spec_get_def say_first_def search_lines_def split: option.splits)
qed simp

lemma cmd_search_rep:
  assumes "disk_rep d log" "e_compile env pat = Some re"
  shows "snd (cmd_search env opts (c # pat # rest) d) =
    (concat (map (search_lines (o_verbose opts)) (matching log (case rest of [] \<Rightarrow> [] | e # _ \<Rightarrow> e) re)), Exit 0)"
proof -
  have "search_loop db v e re (ix_List (db_Idx db)) =
      (concat (map (search_lines v) (matching log e re)), Exit 0)" if "db_loaded db log" for db v e
    using search_loop_loaded [OF that, of "ix_List (db_Idx db)"] mem_loaded_List [of "db_Idx db" log] that
    by (simp add: matching_def db_loaded_def)
  note loop = this
  have "snd (case LoadIndex db of (db, Some (EPanic p)) \<Rightarrow> (db, [], Crash (EPanic p))
       | (db, _) \<Rightarrow> (db, search_loop db v e re (ix_List (db_Idx db)))) =
      (concat (map (search_lines v) (matching log e re)), Exit 0)" if "db_rep db log" for db v e
    using that by (rule LoadIndex_loads) (simp add: loop)
  note body = this
  have "(if 2 < length (c # pat # rest) then (c # pat # rest) ! 2 else []) = (case rest of [] \<Rightarrow> [] | e # _ \<Rightarrow> e)"
    by (cases rest) auto
  then show ?thesis
    unfolding cmd_search_def Let_def using assms(2) body by (simp add: on_db_answer [OF assms(1)])
qed

section \<open>Sorting and selecting\<close>

lemma cmd_sort_rep:
  assumes "disk_rep d log"
  shows "snd (cmd_sort env opts d) =
    (map (\<lambda>m. Line (if o_verbose opts then Msg_String m else m_MsgId m))
       (sorted_msgs opts (found log (scan_lines (e_stdin env)))), Exit 0)"
  unfolding cmd_sort_def
proof (rule on_db_answer [OF assms])
  fix db assume "db_rep db log"
  from load_picked_rep [OF this, of env]
  show "snd (case load_picked env db of
        (db, Inl e) \<Rightarrow> (db, [], Crash e)
      | (db, Inr mm) \<Rightarrow>
          if None \<in> set mm then
            (if length mm = 1 \<and> o_verbose opts then (db, say ''<nil>'' 0)
             else (db, [], Crash (EPanic PNilPointer)))
          else (db, map (\<lambda>m. Line (if o_verbose opts then Msg_String m else m_MsgId m))
                     (sorted_msgs opts (map the mm)), Exit 0)) =
    (map (\<lambda>m. Line (if o_verbose opts then Msg_String m else m_MsgId m))
       (sorted_msgs opts (found log (scan_lines (e_stdin env)))), Exit 0)"
    by (auto simp: comp_def)
qed

lemma GetBundleAll_loaded:
  assumes "db_loaded db log"
  shows "GetBundleAll db k = (db, case newest log k of None \<Rightarrow> [] | Some (i, m) \<Rightarrow> msg_line m)"
proof -
  have "DB_GetBundle db k True True = DB_GetBundle db k False True"
    using LoadIndex_loaded [OF assms] by (simp add: DB_GetBundle_def DB_Lookup_def)
  then show ?thesis
    using DB_GetBundle_loaded [OF assms, of k True]
    by (cases "DB_GetBundle db k False True") (simp add: GetBundleAll_def split: option.split)
qed

definition select_line :: "Opts \<Rightarrow> Msg list \<Rightarrow> string \<Rightarrow> said" where
  "select_line opts log k =
     Line (if o_verbose opts then print_msg (spec_get log k)
           else if o_bundle opts then (case newest log k of None \<Rightarrow> [] | Some (i, m) \<Rightarrow> msg_line m)
           else k)"

lemma select_print_loaded:
  "db_loaded db log \<Longrightarrow> select_print opts ids db = (db, map (select_line opts log) ids)"
  by (induction ids) (simp_all add: Get_loaded GetBundleAll_loaded select_line_def)

lemma select_query_plain:
  "\<not> o_invert opts \<Longrightarrow> o_count opts = 0 \<Longrightarrow> o_skip opts = 0 \<Longrightarrow>
   (let q = select_query opts args in \<not> q_Invert q \<and> q_Skip q = 0 \<and> q_Count q = 0 \<and> q_Match q = None)"
  by (simp add: select_query_def Let_def nil_query_def case_prod_beta split: option.split)

lemma cmd_select_rep:
  assumes "disk_rep d log" "\<not> o_invert opts" "o_count opts = 0" "o_skip opts = 0"
  shows "snd (cmd_select opts (c # e # rest) d) =
    (map (select_line opts log) (log_slice log (select_query opts (c # e # rest))), Exit 0)"
proof -
  let ?q = "select_query opts (c # e # rest)"
  have q: "\<not> q_Invert ?q" "q_Skip ?q = 0" "q_Count ?q = 0" "q_Match ?q = None"
    using select_query_plain [OF assms(2-4), of "c # e # rest"] by (simp_all add: Let_def)
  have "snd (case SelectIDS db ?q of
        (db, Inl e) \<Rightarrow> (db, [], Crash e)
      | (db, Inr ids) \<Rightarrow> (case select_print opts ids db of (db, out) \<Rightarrow> (db, out, Exit 0))) =
      (map (select_line opts log) (log_slice log ?q), Exit 0)" if "db_rep db log" for db
    using SelectIDS_log [OF that q] select_print_loaded by auto
  then show ?thesis by (simp add: cmd_select_def on_db_answer [OF assms(1)])
qed

section \<open>What the commands leave alone\<close>

lemma files_rep_loaded: "db_loaded db log \<Longrightarrow> files_rep db log"
  by (rule files_repI [OF db_loaded_rep])

lemma select_reads: "db_rep db log \<Longrightarrow> db_loaded (fst (SelectIDS db q)) log"
  using SelectIDS_rep [of db log q] by auto

lemma GetTopics_files:
  assumes "db_rep db log" "GetTopics n db mi = Some (db', t)"
  shows "files_rep db' log"
  using assms(1)
proof (rule LoadIndex_loads)
  fix d assume d: "LoadIndex db = (d, None)" "db_loaded d log"
  then have "db_bundle db' = db_bundle d" "db_index db' = db_index d"
    using assms(2) by (auto simp: GetTopics_def Let_def split: option.splits prod.splits)
  then show ?thesis using files_rep_same [OF files_rep_loaded [OF d(2)]] by blast
qed

lemma get_topic_files:
  assumes "db_rep db log"
  shows "files_rep (fst (get_topic env mid db)) log"
proof -
  obtain d1 i where 1: "Lookup db mid = (d1, i)" by fastforce
  then have r1: "db_loaded d1 log" using Lookup_rep [OF assms, of mid] by simp
  show ?thesis
  proof (cases i)
    case None
    then show ?thesis using 1 files_rep_loaded [OF r1] by (simp add: get_topic_def)
  next
    case (Some mi)
    let ?q = "nil_query\<lparr>q_Echo := mi_Echo mi\<rparr>"
    have "\<exists>d2. SelectIDS d1 ?q = (d2, Inr (log_slice log ?q)) \<and> db_loaded d2 log \<and> db_Name d2 = db_Name d1"
      by (rule SelectIDS_log [OF db_loaded_rep [OF r1]]) (simp_all add: nil_query_def)
    then obtain d2 where 2: "SelectIDS d1 ?q = (d2, Inr (log_slice log ?q))" "db_loaded d2 log" by blast
    note 3 = LookupIDS_loaded [OF 2(2), of "log_slice log ?q"]
    show ?thesis
      using 1 Some 2(1) 3 files_rep_loaded [OF 2(2)] GetTopics_files [OF db_loaded_rep [OF 2(2)]]
      by (auto simp: get_topic_def Let_def split: option.split)
  qed
qed

lemma CreateIndex_rep:
  assumes "db_rep db log"
  shows "files_rep (fst (CreateIndex db)) log"
proof -
  have st: "\<forall>m\<in>set log. storable m" "holds_text (db_bundle db) (bundle_text log)" "db_index db \<noteq> Denied"
    and ix: "db_index db = NoFile \<or> db_index db = File (index_text log)"
    using assms by (auto simp: db_rep_def)
  have "overwrite (case db_index db of File s \<Rightarrow> s | _ \<Rightarrow> []) (index_text log) = index_text log"
    using ix by (auto simp: overwrite_def)
  then show ?thesis
    using CreateIndex_text [OF st] files_repI [OF assms] by (simp add: files_rep_def db_rep_def mem_rep_def nil_index_def)
qed

definition writers :: "string list" where
  "writers = [''blacklist'', ''fetch'', ''store'']"

lemma cmd_search_files:
  assumes "disk_rep d log"
  shows "disk_rep (fst (cmd_search env opts args d)) log"
proof -
  have "files_rep (fst (case LoadIndex db of (db, Some (EPanic p)) \<Rightarrow> (db, [], Crash (EPanic p))
       | (db, _) \<Rightarrow>
           (case e_compile env (args ! 1) of
              None \<Rightarrow> (db, say ''Wrong regexp'' 1)
            | Some re \<Rightarrow> (db, search_loop db (o_verbose opts) e re (ix_List (db_Idx db)))))) log"
    if "db_rep db log" for db e
    using that by (rule LoadIndex_loads) (simp add: files_rep_loaded split: option.split)
  note body = this
  show ?thesis
  proof (cases "length args < 2")
    case False
    show ?thesis unfolding cmd_search_def Let_def if_not_P [OF False] by (rule on_db_rep [OF assms body])
  qed (use assms in \<open>simp add: cmd_search_def\<close>)
qed

lemma cmd_get_files:
  assumes "disk_rep d log"
  shows "disk_rep (fst (cmd_get env opts args d)) log"
proof -
  have "files_rep (fst (if o_topics opts then get_topic env (args ! 1) db
        else (case Get db (args ! 1) of (db, None) \<Rightarrow> (db, [], Exit 0) | (db, Some m) \<Rightarrow> (db, say (Msg_String m) 0)))) log"
    if "db_rep db log" for db
    using get_topic_files [OF that] Get_rep [OF that, of "args ! 1"] files_rep_loaded
    by (auto simp: case_prod_beta split: option.split)
  then show ?thesis using assms on_db_rep [OF assms] by (simp add: cmd_get_def)
qed

lemma cmd_select_files:
  assumes "disk_rep d log"
  shows "disk_rep (fst (cmd_select opts args d)) log"
proof -
  have "files_rep (fst (case SelectIDS db q of
        (db, Inl e) \<Rightarrow> (db, [], Crash e)
      | (db, Inr ids) \<Rightarrow> (case select_print opts ids db of (db, out) \<Rightarrow> (db, out, Exit 0)))) log"
    if "db_rep db log" for db q
    using SelectIDS_rep [OF that, of q] select_print_loaded files_rep_loaded by auto
  then show ?thesis using assms on_db_rep [OF assms] by (simp add: cmd_select_def)
qed

lemma cmd_sort_files:
  assumes "disk_rep d log"
  shows "disk_rep (fst (cmd_sort env opts d)) log"
  unfolding cmd_sort_def
proof (rule on_db_rep [OF assms], goal_cases)
  case (1 db)
  from load_picked_rep [OF this, of env] show ?case using files_rep_loaded by (auto simp: comp_def)
qed

lemma cmd_template_files:
  assumes "disk_rep d log"
  shows "disk_rep (fst (cmd_template env tpl args d)) log"
proof -
  have "files_rep (fst (case load_picked env db of
             (db, Inl e) \<Rightarrow> (db, [], Crash e)
           | (db, Inr mm) \<Rightarrow> (db, run \<lparr>tc_Msg = mm, tc_Now = e_now env\<rparr>, Exit 0))) log"
    if "db_rep db log" for db run
    using load_picked_rep [OF that, of env] files_rep_loaded by auto
  note body = this
  show ?thesis
    unfolding cmd_template_def
    using assms by (cases "tpl (args ! 1)") (auto intro!: on_db_rep [OF assms] body simp del: One_nat_def)
qed

lemma cmd_index_files:
  assumes "disk_rep d log"
  shows "disk_rep (fst (cmd_index d)) log"
  unfolding cmd_index_def
proof (rule on_db_rep [OF assms], goal_cases)
  case (1 db)
  from CreateIndex_rep [OF this] show ?case by (simp add: case_prod_beta split: option.split)
qed

lemma disk_rep_cong:
  "disk_rep d log \<Longrightarrow> dk_dir d' = dk_dir d \<Longrightarrow> dk_bundle d' = dk_bundle d \<Longrightarrow> dk_index d' = dk_index d \<Longrightarrow> disk_rep d' log"
  by (simp add: disk_rep_def open_db_def)

lemma gemini_files_shown:
  "\<exists>ops said. gemini_files env v dir (map Some ms) = (ops, said, Exit 0)"
proof (induction ms)
  case (Cons m ms)
  then obtain ops said where "gemini_files env v dir (map Some ms) = (ops, said, Exit 0)" by blast
  then show ?case by (simp add: say_first_def Let_def)
qed simp

lemma cmd_gemini_rep:
  assumes "disk_rep d log"
  shows "\<exists>db. db_loaded db log \<and> cmd_gemini env opts (c # dir # rest) d =
    (case gemini_files env (o_verbose opts) (TrimSuffix dir ''/'') (map Some (found log (scan_lines (e_stdin env)))) of
       (ops, a) \<Rightarrow> ((put_db d db)\<lparr>dk_ops := dk_ops d @ ops\<rparr>, a))"
  using assms
proof (rule disk_repE)
  fix db0 assume o: "open_db d = Some db0" "db_rep db0 log"
  from o(2) obtain db where l: "LoadIndex db0 = (db, None)" "db_loaded db log" by (rule LoadIndex_loads)
  show ?thesis
    using o(1) l(1) pick_shown_loaded [OF l(2)] by (intro exI [of _ db] conjI l(2)) (simp add: cmd_gemini_def)
qed

lemma cmd_gemini_files:
  assumes "disk_rep d log"
  shows "disk_rep (fst (cmd_gemini env opts args d)) log"
proof (cases "length args < 2")
  case False
  then obtain c dir rest where a: "args = c # dir # rest" by (cases args; cases "tl args") auto
  obtain db where db: "db_loaded db log" "cmd_gemini env opts args d =
    (case gemini_files env (o_verbose opts) (TrimSuffix dir ''/'') (map Some (found log (scan_lines (e_stdin env)))) of
       (ops, a) \<Rightarrow> ((put_db d db)\<lparr>dk_ops := dk_ops d @ ops\<rparr>, a))"
    using cmd_gemini_rep [OF assms] unfolding a by blast
  have "disk_rep (put_db d db) log" by (rule put_db_rep [OF assms files_rep_loaded [OF db(1)]])
  then show ?thesis unfolding db(2) by (auto simp: case_prod_beta intro: disk_rep_cong)
qed (use assms in \<open>simp add: cmd_gemini_def\<close>)

lemma cmd_clean_files: "disk_rep d log \<Longrightarrow> disk_rep (fst (cmd_clean opts d)) log"
  by (auto simp: cmd_clean_def case_prod_beta intro: disk_rep_cong)

lemma cmd_useradd_files: "disk_rep d log \<Longrightarrow> disk_rep (fst (cmd_useradd env args d)) log"
  by (auto simp: cmd_useradd_def case_prod_beta intro: disk_rep_cong split: option.split)

lemma tool_reads:
  assumes "disk_rep d log" "args = [] \<or> hd args \<notin> set writers"
  shows "disk_rep (fst (tool env tpl opts args d)) log"
proof (cases args)
  case (Cons c rest)
  then have "c \<noteq> ''blacklist'' \<and> c \<noteq> ''fetch'' \<and> c \<noteq> ''store''" using assms(2) by (simp add: writers_def)
  then show ?thesis
    unfolding tool_def Cons
    using assms(1) cmd_search_files cmd_useradd_files cmd_clean_files cmd_get_files cmd_select_files
      cmd_sort_files cmd_index_files cmd_template_files cmd_gemini_files
    by simp
qed (use assms(1) in \<open>simp add: tool_def\<close>)

text \<open>The other files a command may write.\<close>

lemma cmd_gemini_frame:
  "dk_dir (fst (cmd_gemini env opts args d)) = dk_dir d" "dk_points (fst (cmd_gemini env opts args d)) = dk_points d"
  "dk_new (fst (cmd_gemini env opts args d)) = dk_new d"
  by (simp_all add: cmd_gemini_def put_db_def case_prod_beta split: option.split ii_error.split)

lemma tool_files:
  assumes "args \<noteq> []"
  shows "dk_points (fst (tool env tpl opts args d)) \<noteq> dk_points d \<Longrightarrow> hd args = ''useradd''"
    and "dk_new (fst (tool env tpl opts args d)) \<noteq> dk_new d \<Longrightarrow> hd args = ''clean''"
    and "dk_ops (fst (tool env tpl opts args d)) \<noteq> dk_ops d \<Longrightarrow> hd args = ''gemini''"
  using assms
  by (cases args; auto simp: tool_def cmd_search_def cmd_blacklist_def cmd_useradd_def cmd_clean_def cmd_fetch_def
      cmd_store_def cmd_get_def cmd_select_def cmd_sort_def cmd_index_def cmd_template_def on_db_frame
      cmd_gemini_frame Let_def case_prod_beta split: if_splits option.splits)+

end
