(* ===== verification/II_Gemini.thy ===== *)
theory II_Gemini
  imports II_Readers
begin

text \<open>
  The exported gemini pages: where their files go, that a file in a message is exported byte for byte, that
  text after it loses it, and that the links of a page are numbered and listed in their order.
\<close>

section \<open>Lines outside of blocks\<close>

definition pg_open :: "page \<Rightarrow> bool" where
  "pg_open p = (\<not> pg_pre p \<and> \<not> pg_xpm p \<and> \<not> pg_b64 p)"

definition gem_plain :: "string \<Rightarrow> bool" where
  "gem_plain l = (l \<noteq> ''===='' \<and> \<not> HasPrefix l ''/* XPM */'' \<and> \<not> HasPrefix l ''@base64:'' \<and> CR \<notin> set l)"

lemma gemini_line_plain:
  assumes "pg_open p" "gem_plain l"
  shows "gemini_line l p =
    (case replace_all url_len number_link l (pg_links p) of (t, links) \<Rightarrow> fprintln (p\<lparr>pg_links := links\<rparr>) t)"
  using assms by (simp add: gemini_line_def gemini_mode_def pg_open_def gem_plain_def Replace_id case_prod_beta)

lemma gemini_front: "\<forall>l\<in>set ls. gem_plain l \<Longrightarrow> pg_open p \<Longrightarrow> pg_open (fold gemini_line ls p) \<and>
    pg_b64str (fold gemini_line ls p) = pg_b64str p"
proof (induction ls arbitrary: p)
  case (Cons l ls)
  have "pg_open (gemini_line l p) \<and> pg_b64str (gemini_line l p) = pg_b64str p"
    using Cons.prems gemini_line_plain [of p l] by (simp add: pg_open_def fprintln_def case_prod_beta)
  then show ?case using Cons by simp
qed simp

section \<open>Files in messages\<close>

lemma gemini_file_line:
  assumes "pg_open p" "CR \<notin> set name"
  shows "gemini_line (''@base64:'' @ name) p = p\<lparr>pg_b64 := True, pg_b64fname := file_name (''@base64:'' @ name)\<rparr>"
proof -
  define l where "l = ''@base64:'' @ name"
  have "l \<noteq> ''===='' " "\<not> HasPrefix l ''/* XPM */''" by (simp_all add: l_def)
  moreover have "HasPrefix l ''@base64:''" unfolding l_def by (rule HasPrefix_append)
  moreover have "CR \<notin> set l" using assms(2) by (simp add: l_def)
  ultimately show ?thesis
    using assms(1) unfolding l_def [symmetric] by (simp add: gemini_line_def gemini_mode_def pg_open_def Replace_id)
qed

lemma gemini_data:
  "\<not> pg_pre p \<Longrightarrow> \<not> pg_xpm p \<Longrightarrow> pg_b64 p \<Longrightarrow> \<forall>l\<in>set ls. CR \<notin> set l \<Longrightarrow>
   fold gemini_line ls p = p\<lparr>pg_b64str := pg_b64str p @ concat ls\<rparr>"
proof (induction ls arbitrary: p)
  case (Cons l ls)
  then have "gemini_line l p = p\<lparr>pg_b64str := pg_b64str p @ l\<rparr>"
    by (simp add: gemini_line_def gemini_mode_def Replace_id)
  then show ?case using Cons by simp
qed simp

lemma gemini_page_file:
  assumes "\<forall>l\<in>set front. gem_plain l \<and> NL \<notin> set l" and "CR \<notin> set name" "NL \<notin> set name"
    and "\<forall>l\<in>set cs. CR \<notin> set l \<and> NL \<notin> set l"
    and "m_Text m = Join [NL] (front @ (''@base64:'' @ name) # cs)"
  shows "pg_b64 (gemini_page env m) \<and> pg_b64str (gemini_page env m) = concat cs \<and>
    pg_b64fname (gemini_page env m) = file_name (''@base64:'' @ name)"
proof -
  let ?ls = "front @ (''@base64:'' @ name) # cs"
  have "Split NL (m_Text m) = ?ls" unfolding assms(5) by (rule Split_Join) (use assms in auto)
  let ?p = "fold gemini_line front (new_page (gemini_head env m))"
  have o: "pg_open ?p" "pg_b64str ?p = []"
    using gemini_front [of front "new_page (gemini_head env m)"] assms(1) by (simp_all add: pg_open_def new_page_def)
  have "gemini_page env m = fold gemini_line cs (gemini_line (''@base64:'' @ name) ?p)"
    unfolding gemini_page_def \<open>Split NL (m_Text m) = ?ls\<close> by simp
  also have "\<dots> = fold gemini_line cs (?p\<lparr>pg_b64 := True, pg_b64fname := file_name (''@base64:'' @ name)\<rparr>)"
    unfolding gemini_file_line [OF o(1) assms(2)] ..
  finally show ?thesis
    using o gemini_data [of "?p\<lparr>pg_b64 := True, pg_b64fname := file_name (''@base64:'' @ name)\<rparr>" cs] assms(4)
    by (simp add: pg_open_def)
qed

definition page_text :: "page \<Rightarrow> string" where
  "page_text p = pg_out p @ concat (map (\<lambda>v. v @ [NL]) (pg_links p))"

lemma gemini_file:
  assumes "\<forall>l\<in>set front. gem_plain l \<and> NL \<notin> set l" and "CR \<notin> set name" "NL \<notin> set name"
    and "\<forall>l\<in>set cs. CR \<notin> set l \<and> NL \<notin> set l"
    and "m_Text m = Join [NL] (front @ (''@base64:'' @ name) # cs)"
  shows "gemini env f m dir = Write f (page_text (gemini_page env m)) #
    (let n = file_name (''@base64:'' @ name) in
     case StdDecode (concat cs) of None \<Rightarrow> []
     | Some d \<Rightarrow> if e_create env (dir @ ''/'' @ n)
         then [Create (dir @ ''/'' @ n), Write (dir @ ''/'' @ n) d, Write f (file_link n)] else [])"
  using gemini_page_file [OF assms, of env] by (auto simp: gemini_def page_text_def Let_def split: option.split)

lemma StdDecode_foreign: "c \<in> set s \<Longrightarrow> c \<notin> set b64_std \<Longrightarrow> c \<notin> {CR, NL, CHR ''=''} \<Longrightarrow> StdDecode s = None"
  unfolding StdDecode_def by (rule b64_dec_foreign [of c]) (auto simp: strip_crlf_def)

section \<open>Where files are written\<close>

fun op_path :: "fileop \<Rightarrow> string" where
  "op_path (Create p) = p"
| "op_path (Write p s) = p"

text \<open>A path below the directory: no part of it leads up, unless it is nothing but the parent itself.\<close>

definition below :: "string \<Rightarrow> string \<Rightarrow> bool" where
  "below dir p = (\<exists>q. p = dir @ ''/'' @ q \<and> (''..'' \<in> set (Split (CHR ''/'') q) \<longrightarrow> q = ''..''))"

lemma file_name_clean: "CHR ''/'' \<notin> set (file_name l) \<and> CHR 92 \<notin> set (file_name l)"
  using set_Replace [of "CHR 92" "''_''" "Replace (CHR ''/'') ''_'' (Trim (TrimPrefix l ''@base64:'') '' '')"]
    Replace_removes [of "CHR ''/''" "''_''"] Replace_removes [of "CHR 92" "''_''"]
  by (auto simp: file_name_def)

lemma below_name: "CHR ''/'' \<notin> set n \<Longrightarrow> below dir (dir @ ''/'' @ n)"
  unfolding below_def by (intro exI [of _ n]) (simp add: Split_no_sep)

lemma count_Join: "w \<in> set ws \<Longrightarrow> count_list w x \<le> count_list (Join sep ws) x"
proof (induction ws)
  case (Cons v ws)
  then show ?case by (cases ws) (auto simp: Join_Cons intro: le_add1 trans_le_add2)
qed simp

lemma dotted_part: "CHR ''.'' \<notin> set k \<Longrightarrow> ''..'' \<notin> set (Split (CHR ''/'') (k @ ''.gmi''))"
proof
  let ?s = "k @ ''.gmi''"
  assume k: "CHR ''.'' \<notin> set k" and dd: "''..'' \<in> set (Split (CHR ''/'') ?s)"
  from dd have "count_list ''..'' (CHR ''.'') \<le> count_list (Join ''/'' (Split (CHR ''/'') ?s)) (CHR ''.'')"
    by (rule count_Join)
  then show False using k count_notin [of "CHR ''.''" k] by (simp add: Join_Split)
qed

lemma below_page: "IsMsgId k \<Longrightarrow> below dir (dir @ ''/'' @ k @ ''.gmi'')"
  unfolding below_def using dotted_part [of k] by (intro exI [of _ "k @ ''.gmi''"]) (auto simp: IsMsgId_def)

lemma gemini_paths: "op_path ` set (gemini env f m dir) \<subseteq> {f, dir @ ''/'' @ pg_b64fname (gemini_page env m)}"
  by (cases "pg_b64 (gemini_page env m)"; cases "StdDecode (pg_b64str (gemini_page env m))";
      cases "e_create env (dir @ ''/'' @ pg_b64fname (gemini_page env m))") (simp_all add: gemini_def Let_def)

lemma gemini_below:
  assumes "IsMsgId (m_MsgId m)" "x \<in> set (gemini env (dir @ ''/'' @ m_MsgId m @ ''.gmi'') m dir)"
  shows "below dir (op_path x)"
proof -
  have "pg_b64fname (gemini_page env m) = [] \<or> (\<exists>l. pg_b64fname (gemini_page env m) = file_name l)"
  proof -
    have line: "pg_b64fname p = [] \<or> (\<exists>l. pg_b64fname p = file_name l) \<Longrightarrow>
        pg_b64fname (gemini_line l p) = [] \<or> (\<exists>l'. pg_b64fname (gemini_line l p) = file_name l')" for l p
      by (auto simp: gemini_line_def gemini_mode_def fprintln_def Let_def case_prod_beta)
    have "pg_b64fname p = [] \<or> (\<exists>l. pg_b64fname p = file_name l) \<Longrightarrow>
        pg_b64fname (fold gemini_line ls p) = [] \<or> (\<exists>l. pg_b64fname (fold gemini_line ls p) = file_name l)" for ls p
      by (induction ls arbitrary: p) (simp_all add: line)
    then show ?thesis by (simp add: gemini_page_def new_page_def)
  qed
  then have "CHR ''/'' \<notin> set (pg_b64fname (gemini_page env m))" using file_name_clean by auto
  then have "below dir (dir @ ''/'' @ pg_b64fname (gemini_page env m))" by (rule below_name)
  moreover have "op_path x \<in> {dir @ ''/'' @ m_MsgId m @ ''.gmi'', dir @ ''/'' @ pg_b64fname (gemini_page env m)}"
    using gemini_paths assms(2) by blast
  ultimately show ?thesis using below_page [OF assms(1), of dir] unfolding insert_iff empty_iff by metis
qed

lemma gemini_files_below:
  "\<forall>m\<in>set ms. IsMsgId (m_MsgId m) \<Longrightarrow> x \<in> set (fst (gemini_files env v dir (map Some ms))) \<Longrightarrow> below dir (op_path x)"
proof (induction ms)
  case (Cons m ms)
  then show ?case using gemini_below [of m x env dir] below_page [of "m_MsgId m" dir]
    by (auto simp: Let_def case_prod_beta split: if_splits)
qed simp

section \<open>Links\<close>

definition collect :: "string \<Rightarrow> string list \<Rightarrow> string \<times> string list" where
  "collect w us = (w, us @ [w])"

definition urls :: "string \<Rightarrow> string list" where
  "urls l = snd (replace_all url_len collect l [])"

definition link_line :: "nat \<Rightarrow> string \<Rightarrow> string" where
  "link_line n u = ''=> '' @ u @ '' '' @ u @ link_number n"

definition link_lines :: "string list \<Rightarrow> string list" where
  "link_lines us = map (\<lambda>(n, u). link_line n u) (enumerate 1 us)"

lemma link_lines_snoc: "link_lines (us @ [u]) = link_lines us @ [link_line (length us + 1) u]"
  by (simp add: link_lines_def enumerate_append_eq)

lemma length_link_lines [simp]: "length (link_lines us) = length us"
  by (simp add: link_lines_def)

lemma replace_all_next:
  "m s \<noteq> 0 \<Longrightarrow> s \<noteq> [] \<Longrightarrow>
   snd (replace_all m f s st) = snd (replace_all m f (drop (m s) s) (snd (f (take (m s) s) st)))"
  by (rule replace_all_hit(2))

lemma collect_append: "snd (replace_all m collect s us) = us @ snd (replace_all m collect s [])"
proof (induction s arbitrary: us rule: length_induct)
  case (1 s)
  show ?case
  proof (cases s)
    case (Cons c t)
    show ?thesis
    proof (cases "m s = 0")
      case True
      then have skip: "m (c # t) = 0" using Cons by simp
      have "length t < length s" using Cons by simp
      then have "snd (replace_all m collect t us) = us @ snd (replace_all m collect t [])" using 1 by blast
      then show ?thesis unfolding Cons replace_all_skip(2) [of m, OF skip] .
    next
      case False
      have ne: "s \<noteq> []" using Cons by simp
      have "length (drop (m s) s) < length s" using False Cons by simp
      then have ih: "snd (replace_all m collect (drop (m s) s) vs) = vs @ snd (replace_all m collect (drop (m s) s) [])" for vs
        using 1 by blast
      have hit: "snd (replace_all m collect s vs) = snd (replace_all m collect (drop (m s) s) (vs @ [take (m s) s]))" for vs
        using replace_all_next [of m s collect vs] False ne by (simp add: collect_def)
      have "snd (replace_all m collect s us) = (us @ [take (m s) s]) @ snd (replace_all m collect (drop (m s) s) [])"
        unfolding hit by (rule ih)
      moreover have "snd (replace_all m collect s []) = ([] @ [take (m s) s]) @ snd (replace_all m collect (drop (m s) s) [])"
        unfolding hit by (rule ih)
      ultimately show ?thesis by simp
    qed
  qed simp
qed

lemma number_link_lines: "snd (number_link w (link_lines us)) = link_lines (us @ [w])"
  by (simp add: number_link_def link_lines_snoc link_line_def Let_def)

lemma number_links:
  "snd (replace_all m number_link s (link_lines us)) = link_lines (snd (replace_all m collect s us))"
proof (induction s arbitrary: us rule: length_induct)
  case (1 s)
  show ?case
  proof (cases s)
    case (Cons c t)
    show ?thesis
    proof (cases "m s = 0")
      case True
      then show ?thesis using 1 Cons by (simp add: replace_all_skip del: replace_all.simps)
    next
      case False
      have ne: "s \<noteq> []" using Cons by simp
      have "length (drop (m s) s) < length s" using False Cons by simp
      then have ih: "snd (replace_all m number_link (drop (m s) s) (link_lines us)) =
          link_lines (snd (replace_all m collect (drop (m s) s) us))" for us
        using 1 by blast
      have "snd (replace_all m number_link s (link_lines us)) =
          snd (replace_all m number_link (drop (m s) s) (link_lines (us @ [take (m s) s])))"
        using replace_all_next [of m s number_link "link_lines us"] False ne by (simp only: number_link_lines simp_thms)
      also have "\<dots> = link_lines (snd (replace_all m collect s us))"
        using replace_all_next [of m s collect us] False ne by (simp add: ih collect_def)
      finally show ?thesis .
    qed
  qed simp
qed

lemma urls_append: "snd (replace_all url_len collect l us) = us @ urls l"
  unfolding urls_def by (rule collect_append)

lemma gemini_line_links:
  assumes "gem_plain l" "pg_open p" "pg_links p = link_lines us"
  shows "pg_links (gemini_line l p) = link_lines (us @ urls l)"
  using assms(3) number_links [of url_len l us]
  unfolding gemini_line_plain [OF assms(2,1)] urls_append by (simp add: fprintln_def case_prod_beta)

lemma gemini_links:
  "\<forall>l\<in>set ls. gem_plain l \<Longrightarrow> pg_open p \<Longrightarrow> pg_links p = link_lines us \<Longrightarrow>
   pg_links (fold gemini_line ls p) = link_lines (us @ concat (map urls ls))"
proof (induction ls arbitrary: p us)
  case (Cons l ls)
  have "pg_open (gemini_line l p)" using gemini_front [of "[l]" p] Cons.prems by simp
  moreover have "pg_links (gemini_line l p) = link_lines (us @ urls l)"
    using Cons.prems by (intro gemini_line_links) simp_all
  ultimately have "pg_links (fold gemini_line ls (gemini_line l p)) = link_lines ((us @ urls l) @ concat (map urls ls))"
    using Cons.prems(1) by (intro Cons.IH) simp_all
  then show ?case by simp
qed simp

end
