(* ===== verification/II_Server.thy ===== *)
theory II_Server
  imports II_Guard
begin

text \<open>
  The node as a server: its start on a set of files, the multiplexer of \<^verbatim>\<open>net/http\<close> with the patterns that
  \<^verbatim>\<open>main\<close> of \<^verbatim>\<open>ii-node/main.go\<close> registers, and the bundles after any sequence of requests. A request
  is served as a whole; the package \<^verbatim>\<open>net/http\<close> ends a request that panics and goes on with the next.
\<close>

section \<open>Start\<close>

text \<open>The files a node is started on; a policy path that is the empty string is \<open>None\<close>.\<close>

record Boot =
  bo_dir :: bool
  bo_bundle :: gofile
  bo_index :: gofile
  bo_list :: gofile
  bo_blackwords :: gofile
  bo_users :: gofile
  bo_policy :: "gofile option"
  bo_sysname :: string

datatype start = Exited nat | Panicked ii_error | Up Node

text \<open>
  Without the directory of the base the process exits. A list of areas that exists and cannot be read gives a
  nil pointer, and \<^verbatim>\<open>LoadBlockwords\<close> writes through it.
\<close>

definition boot :: "(string \<Rightarrow> (string \<Rightarrow> bool) option) \<Rightarrow> Boot \<Rightarrow> start" where
  "boot compile b =
     (case OpenDB (bo_dir b) (bo_bundle b) (bo_index b) of
        None \<Rightarrow> Exited 1
      | Some db \<Rightarrow>
          (case LoadEcholist (bo_list b) of
             Inl e \<Rightarrow> Panicked e
           | Inr None \<Rightarrow> Panicked (EPanic PNilPointer)
           | Inr (Some edb) \<Rightarrow>
               Up \<lparr>nd_db = db\<lparr>db_Name := bo_sysname b\<rparr>,
                   nd_edb = LoadBlockwords compile edb (bo_blackwords b),
                   nd_udb = OpenUsers (bo_users b) (bo_policy b)\<rparr>))"

section \<open>The multiplexer\<close>

text \<open>\<^verbatim>\<open>path.Clean\<close> of a path that starts with a slash.\<close>

definition clean_seg :: "string list \<Rightarrow> string \<Rightarrow> string list" where
  "clean_seg acc s =
     (if s = [] \<or> s = ''.'' then acc else if s = ''..'' then butlast acc else acc @ [s])"

definition path_Clean :: "string \<Rightarrow> string" where
  "path_Clean p = CHR ''/'' # Join ''/'' (foldl clean_seg [] (Split (CHR ''/'') p))"

definition cleanPath :: "string \<Rightarrow> string" where
  "cleanPath p =
     (if p = [] then ''/''
      else let p = (if hd p \<noteq> CHR ''/'' then CHR ''/'' # p else p); np = path_Clean p in
        if last p = CHR ''/'' \<and> np \<noteq> ''/'' then np @ ''/'' else np)"

definition patterns :: "string list" where
  "patterns = [''/lib/'', ''/list.txt'', ''/blacklist.txt'', ''/'', ''/u/point/'', ''/u/point'', ''/x/c/'',
     ''/u/m/'', ''/u/e/'', ''/m/'', ''/e/'', ''/x/features'', ''/robots.txt'']"

text \<open>The pattern of a path: itself if it is registered, or the longest registered prefix that ends in a slash.\<close>

definition longer :: "string option \<Rightarrow> string \<Rightarrow> string option" where
  "longer best pat =
     (case best of None \<Rightarrow> Some pat | Some b \<Rightarrow> if length b < length pat then Some pat else Some b)"

definition mux_match :: "string \<Rightarrow> string option" where
  "mux_match path =
     (if path \<in> set patterns then Some path
      else foldl longer None (filter (\<lambda>pat. HasSuffix pat ''/'' \<and> HasPrefix path pat) patterns))"

definition needs_slash :: "string \<Rightarrow> bool" where
  "needs_slash path =
     (path \<notin> set patterns \<and> path \<noteq> [] \<and> path @ ''/'' \<in> set patterns \<and> last path \<noteq> CHR ''/'')"

text \<open>Either a redirection to another path, or the pattern whose handler answers, if any.\<close>

definition mux :: "string \<Rightarrow> string \<Rightarrow> string + string option" where
  "mux meth path =
     (if meth = ''CONNECT'' then
        (if needs_slash path then Inl (path @ ''/'') else Inr (mux_match path))
      else let p = cleanPath path in
        if needs_slash p then Inl (p @ ''/'')
        else if p \<noteq> path then Inl p
        else Inr (mux_match p))"

section \<open>Handlers\<close>

text \<open>
  What a client gets: text, the reply to a post, the reply of the web interface on its context, a redirection, a file
  of the directory \<^verbatim>\<open>lib\<close>, the answer 404, or the end of the connection after a panic.
\<close>

datatype served = Text string | Posted "ii_error option option" | Web Ctx Reply | Moved string | Static string
  | Missing | Dropped ii_error

definition text_or_panic :: "ii_error + string \<Rightarrow> served" where
  "text_or_panic out = (case out of Inl e \<Rightarrow> Dropped e | Inr s \<Rightarrow> Text s)"

definition posted :: "ii_error option option \<Rightarrow> served" where
  "posted reply = (case reply of Some (Some (EPanic p)) \<Rightarrow> Dropped (EPanic p) | _ \<Rightarrow> Posted reply)"

definition robots :: string where
  "robots = print_lines [''User-agent: *'', ''Crawl-delay: 3'']"

text \<open>The handler of \<^verbatim>\<open>/u/point/\<close> answers GET requests only.\<close>

definition serve_point :: "World \<Rightarrow> Req \<Rightarrow> Node \<Rightarrow> Node \<times> served" where
  "serve_point w r node =
     (if r_Method r \<noteq> ''GET'' then (node, Text [])
      else (case handle_point (w_compile w) (w_now w) (drop 9 (r_Path r)) node of
              (node, out, Some reply) \<Rightarrow> (node, posted (Some reply))
            | (node, out, None) \<Rightarrow> (node, text_or_panic out)))"

definition serve_www :: "World \<Rightarrow> string \<Rightarrow> Req \<Rightarrow> Node \<Rightarrow> Node \<times> served" where
  "serve_www w host r node =
     (case handleWWW w host r node of
        (node, ctx, Inl e) \<Rightarrow> (node, Dropped e)
      | (node, ctx, Inr x) \<Rightarrow> (node, Web ctx x))"

definition on_base :: "Node \<Rightarrow> DB \<times> served \<Rightarrow> Node \<times> served" where
  "on_base node x = (upd_db node (fst x), snd x)"

definition handler :: "World \<Rightarrow> string \<Rightarrow> string \<Rightarrow> Req \<Rightarrow> Node \<Rightarrow> Node \<times> served" where
  "handler w host pat r node =
     (let path = r_Path r; db = nd_db node in
      if pat = ''/lib/'' then (node, Static (drop 5 path))
      else if pat = ''/list.txt'' then on_base node (map_prod id Text (handle_list (w_order w) node))
      else if pat = ''/blacklist.txt'' then on_base node (map_prod id text_or_panic (handle_blacklist db))
      else if pat = ''/u/point/'' then serve_point w r node
      else if pat = ''/u/point'' then
        map_prod id posted (handle_point_post (w_compile w) (w_now w) (r_Method r) (r_Form r) node)
      else if pat = ''/x/c/'' then on_base node (map_prod id Text (handle_xc (drop 5 path) db))
      else if pat = ''/u/m/'' then on_base node (map_prod id Text (handle_um (drop 5 path) db))
      else if pat = ''/u/e/'' then on_base node (map_prod id text_or_panic (handle_ue (drop 5 path) db))
      else if pat = ''/m/'' then on_base node (map_prod id Text (handle_m (drop 3 path) db))
      else if pat = ''/e/'' then on_base node (map_prod id text_or_panic (handle_e (drop 3 path) db))
      else if pat = ''/x/features'' then (node, Text handle_features)
      else if pat = ''/robots.txt'' then (node, Text robots)
      else serve_www w host r node)"

definition serve_req :: "World \<Rightarrow> string \<Rightarrow> Req \<Rightarrow> Node \<Rightarrow> Node \<times> served" where
  "serve_req w host r node =
     (case mux (r_Method r) (r_Path r) of
        Inl p \<Rightarrow> (node, Moved p)
      | Inr None \<Rightarrow> (node, Missing)
      | Inr (Some pat) \<Rightarrow> handler w host pat r node)"

text \<open>A node that served a sequence of requests, each in a world of its own.\<close>

inductive serves :: "string \<Rightarrow> Node \<Rightarrow> (World \<times> Req) list \<Rightarrow> Node \<Rightarrow> bool" for host node where
  none: "serves host node [] node"
| one: "serves host node evs node1 \<Longrightarrow> serve_req w host r node1 = (node2, a) \<Longrightarrow> serves host node (evs @ [(w, r)]) node2"

section \<open>Reading through the text interface\<close>

lemma ue_echoes_same: "same db (fst (ue_echoes db user idx lim es))"
proof (induction es arbitrary: db)
  case (Cons e es)
  let ?q = "nil_query\<lparr>q_Echo := e, q_Start := idx, q_Lim := lim, q_User := user\<rparr>"
  obtain d x where d: "SelectIDS db ?q = (d, x)" by fastforce
  have "same db d" using SelectIDS_same [of db ?q] d by simp
  from same_trans [OF this Cons.IH [of d]] this show ?case
    using d Cons.IH [of db] by (cases x) (auto split: prod.split sum.split)
qed (simp add: same_refl)

lemma get_ue_same: "same db (fst (get_ue es db user))"
  by (auto simp: get_ue_def same_refl ue_echoes_same split: prod.split option.split)

lemma GetBundleInfo_same: "same db (fst (GetBundleInfo db i))"
  using DB_GetBundle_same [of db i True False] by (simp add: GetBundleInfo_def)

lemma um_ids_same: "same db (fst (um_ids ok ids db))"
proof (induction ids arbitrary: db)
  case (Cons i ids)
  obtain d m info where d: "GetBundleInfo db i = (d, m, info)" by (metis prod_cases3)
  have "same db d" using GetBundleInfo_same [of db i] d by simp
  from same_trans [OF this Cons.IH] show ?case using d by (simp add: Let_def case_prod_unfold)
qed (simp add: same_refl)

lemma select_lines_same: "same db (fst (select_lines db q))"
  using SelectIDS_same [of db q] by (auto simp: select_lines_def split: prod.split sum.split)

lemma handle_m_same: "same db (fst (handle_m mid db))"
  using Get_same [of db mid] by (auto simp: handle_m_def same_refl split: prod.split option.split)

lemma handle_xc_same: "same db (fst (handle_xc path db))"
  using Echoes_same [of db "\<lambda>ks. ks"] by (simp add: handle_xc_def case_prod_unfold)

lemma handle_list_same: "same (nd_db node) (fst (handle_list order node))"
  using Echoes_same [of "nd_db node"] by (simp add: handle_list_def case_prod_unfold)

lemmas text_same = ue_echoes_same get_ue_same um_ids_same select_lines_same handle_m_same handle_xc_same
  handle_list_same same_refl

lemma find_repto_same: "same db (fst (find_repto db s))"
  using DB_Lookup_same [of db s False True] by (simp add: find_repto_def Lookup_def same_refl case_prod_unfold)

section \<open>Who may have what appended\<close>

text \<open>The secret a post to the point interface shows.\<close>

definition presents :: "Req \<Rightarrow> string \<Rightarrow> bool" where
  "presents r pauth =
     (r_Method r = ''GET'' \<and> (\<exists>tmsg. r_Path r = ''/u/point/'' @ pauth @ ''/'' @ tmsg) \<or>
      r_Method r = ''POST'' \<and> r_Path r = ''/u/point'' \<and> (\<exists>v. r_Form r = Some v \<and> v ''pauth'' = pauth))"

text \<open>
  A post of a point: the message carries name and address of the account that \<open>pauth\<close> is a secret of. A
  page of the web: the account is that of the cookie.
\<close>

definition point_grants :: "UDB \<Rightarrow> Node \<Rightarrow> string \<Rightarrow> Msg \<Rightarrow> bool" where
  "point_grants udb node pauth m =
     (UDB_Access udb pauth \<and> (\<exists>u. UserInfo udb pauth = Some u \<and> m_From m = us_Name u) \<and>
      m_Addr m = db_Name (nd_db node) @ '','' @ itoa (UDB_Id udb pauth))"

definition granted :: "World \<Rightarrow> Req \<Rightarrow> Node \<Rightarrow> Msg \<Rightarrow> bool" where
  "granted w r node m =
     (let udb = fst (LoadUsers (w_compile w) (nd_udb node)) in
      (\<exists>pauth. presents r pauth \<and> point_grants udb node pauth m) \<or>
      may_write node (identify udb (r_Cookie r)) r m)"

text \<open>
  What one request does to areas, name and bundles: at most one message is appended, and \<open>P\<close> holds for it.
\<close>

definition one_entry :: "int \<Rightarrow> (Msg \<Rightarrow> bool) \<Rightarrow> Node \<Rightarrow> Node \<Rightarrow> bool" where
  "one_entry now P node node' =
     (nd_edb node' = nd_edb node \<and> db_Name (nd_db node') = db_Name (nd_db node) \<and>
      (same (nd_db node) (nd_db node') \<or> (\<exists>m. appended now (nd_db node) m (nd_db node') \<and> P m)))"

lemma one_entry_same: "same (nd_db node) db \<Longrightarrow> one_entry now P node (upd_db node db)"
  by (simp add: one_entry_def upd_db_def same_def)

lemma one_entry_mono: "one_entry now P node node' \<Longrightarrow> (\<And>m. P m \<Longrightarrow> Q m) \<Longrightarrow> one_entry now Q node node'"
  by (auto simp: one_entry_def)

lemma one_entry_after:
  "same (nd_db node) (nd_db node1) \<Longrightarrow> nd_edb node1 = nd_edb node \<Longrightarrow> one_entry now P node1 node' \<Longrightarrow>
   one_entry now P node node'"
  using same_trans appended_after by (auto simp: one_entry_def same_def appended_def)

lemma load_users_db: "load_users compile node = (node', x) \<Longrightarrow>
   node' = node\<lparr>nd_udb := fst (LoadUsers compile (nd_udb node))\<rparr>"
  by (auto simp: load_users_def split: prod.splits)

lemma one_entry_udb [simp]: "one_entry now P (node\<lparr>nd_udb := udb\<rparr>) node' = one_entry now P node node'"
  by (simp add: one_entry_def)

lemma one_entry_refl [simp]: "one_entry now P node node"
  "one_entry now P node (node\<lparr>nd_udb := udb\<rparr>)"
  by (simp_all add: one_entry_def same_refl)

section \<open>A post of a point\<close>

lemma run_load_user_error:
  "run_lines load_user_line ls (db, None) = (db', Some e) \<Longrightarrow> \<exists>p. e = EPanic p"
proof (induction ls arbitrary: db)
  case (Cons x ls)
  then show ?case
    by (auto simp: load_user_line_def parse_user_def Let_def split: sum.splits option.splits if_splits prod.splits)
qed simp

text \<open>A load that did not panic leaves nothing for a second one.\<close>

lemma LoadUsers_again:
  assumes l: "LoadUsers compile db = (db1, x)" and p: "\<And>p. x \<noteq> Some (EPanic p)"
  shows "fst (LoadUsers compile db1) = db1"
proof -
  have f: "ud_file db1 = ud_file db" using LoadUsers_file [of compile db] l by simp
  show ?thesis
  proof (cases "filesize (ud_file db) < 0 \<or> ud_FileSize db = filesize (ud_file db)")
    case True
    then have "db1 = db" using l by (auto simp: LoadUsers_def Let_def split: if_splits)
    then show ?thesis using True by (auto simp: LoadUsers_def Let_def)
  next
    case False
    obtain d where d: "LoadUsers compile db = (case FileLines (ud_file db) load_user_line (d, None) of
        ((db1, Some e), _) \<Rightarrow> (db1, Some e)
      | ((db1, None), Some e) \<Rightarrow> (db1, Some e)
      | ((db1, None), None) \<Rightarrow> (db1\<lparr>ud_FileSize := filesize (ud_file db)\<rparr>, None))"
      using False by (simp add: LoadUsers_def Let_def loadPolicy_frame)
    have "x = None"
      using l p False unfolding d
      by (cases "ud_file db") (fastforce simp: FileLines_def f_lines_def filesize_def
        split: prod.splits option.splits dest: run_load_user_error)+
    then have "ud_FileSize db1 = filesize (ud_file db1)"
      using l f unfolding d by (auto split: prod.splits option.splits)
    then show ?thesis by (simp add: LoadUsers_def Let_def)
  qed
qed

lemma load_users_again:
  assumes "load_users compile node = (node1, None)"
  shows "nd_udb node1 = fst (LoadUsers compile (nd_udb node))"
    and "fst (LoadUsers compile (nd_udb node1)) = nd_udb node1"
proof -
  obtain udb x where l: "LoadUsers compile (nd_udb node) = (udb, x)" by fastforce
  then have "nd_udb node1 = udb" "\<And>p. x \<noteq> Some (EPanic p)"
    using assms by (auto simp: load_users_def split: option.splits ii_error.splits)
  then show "nd_udb node1 = fst (LoadUsers compile (nd_udb node))"
    "fst (LoadUsers compile (nd_udb node1)) = nd_udb node1"
    using l LoadUsers_again [OF l] by simp_all
qed

lemma Store_one_entry:
  assumes "Store now (nd_db node) m = (db, m', err)" and "P m"
  shows "one_entry now P node (upd_db node db)"
  using assms DB_Store_frame [of now "nd_db node" m False db m' err]
  by (auto simp: Store_def one_entry_def upd_db_def same_def appended_def)

text \<open>Whatever the files hold: a post appends nothing, or one message in the name of the secret's owner.\<close>

lemma PointMsg_one_entry:
  assumes "PointMsg compile now node pauth tmsg = (node', reply)"
  shows "one_entry now (point_grants (fst (LoadUsers compile (nd_udb node))) node pauth) node node'"
proof -
  let ?udb = "fst (LoadUsers compile (nd_udb node))"
  define node1 where "node1 = node\<lparr>nd_udb := ?udb\<rparr>"
  let ?P = "point_grants ?udb node pauth"
  obtain x where l: "load_users compile node = (node1, x)"
    using load_users_db [of compile node] by (cases "load_users compile node") (auto simp: node1_def)
  have [simp]: "nd_db node1 = nd_db node" "nd_udb node1 = ?udb" by (simp_all add: node1_def)
  have "one_entry now ?P node1 node'"
  proof (cases "x = None \<and> UDB_Access ?udb pauth \<and> (\<exists>m. DecodeMsgline now tmsg True = Inr m)")
    case False
    then show ?thesis using assms l by (cases x) (auto simp: PointMsg_def Let_def split: sum.splits if_splits)
  next
    case True
    then obtain m where m: "x = None" "UDB_Access ?udb pauth" "DecodeMsgline now tmsg True = Inr m" by blast
    obtain d1 ok where d1: "find_repto (nd_db node) (Msg_tag_val m ''repto'') = (d1, ok)" by fastforce
    have s1: "same (nd_db node) d1" using find_repto_same [of "nd_db node"] d1 by (metis fst_conv)
    show ?thesis
    proof (cases "ok \<and> (\<exists>u. UserInfo ?udb pauth = Some u)")
      case False
      then show ?thesis using assms l m d1 s1
        by (auto simp: PointMsg_def Let_def one_entry_same split: option.splits if_splits)
    next
      case True
      then obtain u where u: "ok" "UserInfo ?udb pauth = Some u" by blast
      define fm where "fm = m\<lparr>m_From := us_Name u, m_Addr := db_Name d1 @ '','' @ itoa (UDB_Id ?udb pauth)\<rparr>"
      obtain d2 y where d2: "PointPolicy u d1 fm = (d2, y)" by fastforce
      have s2: "same (nd_db node) d2" using same_trans [OF s1 PointPolicy_same [of d1 u fm]] d2 by simp
      have g: "?P fm" using m u s1 by (simp add: point_grants_def fm_def same_def)
      obtain d3 m3 err where st: "Store now d2 fm = (d3, m3, err)" by (metis prod_cases3)
      have "one_entry now ?P (upd_db node1 d2) (upd_db (upd_db node1 d2) d3)"
        using st g by (intro Store_one_entry [where m = fm]) (simp_all add: upd_db_def)
      then have st': "one_entry now ?P node1 (upd_db node1 d3)"
        using one_entry_after [of node1 "upd_db node1 d2"] s2 by (simp add: upd_db_def)
      have "node' = upd_db node1 d2 \<or> node' = upd_db node1 d3"
        using assms l m d1 u d2 st unfolding PointMsg_def Let_def
        by (auto simp: upd_db_def fm_def split: sum.splits bool.splits if_splits)
      then show ?thesis using st' s2 by (auto intro: one_entry_same)
    qed
  qed
  then show ?thesis by (simp add: node1_def)
qed

section \<open>Requests\<close>

text \<open>A GET request of the point interface reads, or is a post.\<close>

lemma point_calls_read:
  assumes "same (nd_db node) (nd_db node1)"
  shows "(case UserInfo (nd_udb node1) pauth of
      None \<Rightarrow> (node1, Inr [], None)
    | Some user \<Rightarrow>
        if c = ''e'' then (case get_ue es (nd_db node1) user of (db, out) \<Rightarrow> (upd_db node1 db, out, None))
        else if c = ''m'' then
          (case um_ids (\<lambda>info. Access info user) es (nd_db node1) of (db, out) \<Rightarrow> (upd_db node1 db, Inr out, None))
        else (node1, Inr [], None)) = (node', out, reply) \<Longrightarrow>
    reply = None \<and> (\<exists>db. same (nd_db node) db \<and> node' = upd_db node1 db)"
proof -
  have r: "node1 = upd_db node1 (nd_db node1)" by (simp add: upd_db_def)
  have "same (nd_db node) (fst (get_ue es (nd_db node1) user))" for user
    using same_trans [OF assms get_ue_same] .
  moreover have "same (nd_db node) (fst (um_ids ok es (nd_db node1)))" for ok
    using same_trans [OF assms um_ids_same] .
  ultimately show "?thesis"
    if "(case UserInfo (nd_udb node1) pauth of
      None \<Rightarrow> (node1, Inr [], None)
    | Some user \<Rightarrow>
        if c = ''e'' then (case get_ue es (nd_db node1) user of (db, out) \<Rightarrow> (upd_db node1 db, out, None))
        else if c = ''m'' then
          (case um_ids (\<lambda>info. Access info user) es (nd_db node1) of (db, out) \<Rightarrow> (upd_db node1 db, Inr out, None))
        else (node1, Inr [], None)) = (node', out, reply)"
    using that assms r by (cases "UserInfo (nd_udb node1) pauth") (auto simp: case_prod_unfold split: if_splits)
qed

lemma handle_point_cases:
  assumes h: "handle_point compile now path node = (node', out, reply)" and l: "load_users compile node = (node1, x)"
  shows "(\<exists>db. same (nd_db node) db \<and> node' = upd_db node1 db) \<or>
    x = None \<and> (\<exists>pauth tmsg r. path = pauth @ CHR ''/'' # tmsg \<and> PointMsg compile now node1 pauth tmsg = (node', r))"
proof (cases x)
  case (Some e)
  then have "node' = upd_db node1 (nd_db node1)" using h l by (simp add: handle_point_def upd_db_def)
  then have "same (nd_db node) (nd_db node) \<and> node' = upd_db node1 (nd_db node)"
    using load_users_db [OF l] same_refl by simp
  then show ?thesis by blast
next
  case None
  let ?args = "Split (CHR ''/'') path"
  have r: "node1 = upd_db node1 (nd_db node1)" by (simp add: upd_db_def)
  have s: "same (nd_db node) (nd_db node1)" using load_users_db [OF l] by (simp add: same_refl)
  note eq = h [unfolded handle_point_def l None prod.case option.case Let_def]
  show ?thesis
  proof (cases "length ?args \<ge> 3 \<and> ?args ! 1 = ''u''")
    case True
    then show ?thesis
      using eq r s point_calls_read [OF s, where pauth = "?args ! 0" and c = "?args ! 2" and es = "drop 3 ?args"]
      by (cases "UDB_Access (nd_udb node1) (?args ! 0)") auto
  next
    case np: False
    show ?thesis
    proof (cases "length ?args = 2")
      case True
      then have "?args = [?args ! 0, ?args ! 1]" by (cases ?args; cases "tl ?args") auto
      then have "path = ?args ! 0 @ CHR ''/'' # ?args ! 1" using Split_two by blast
      moreover obtain reply where "PointMsg compile now node1 (?args ! 0) (?args ! 1) = (node', reply)"
        using eq True by (auto split: prod.splits)
      ultimately show ?thesis using None by blast
    next
      case False
      then have "node' = node1" using eq np by (simp only: if_False if_True simp_thms prod.inject)
      then show ?thesis using r s by auto
    qed
  qed
qed

lemma serve_point_one_entry:
  assumes sp: "serve_point w r node = (node', a)" and p: "HasPrefix (r_Path r) ''/u/point/''"
  shows "one_entry (w_now w) (granted w r node) node node'"
proof (cases "r_Method r = ''GET''")
  case False
  then show ?thesis using sp by (simp add: serve_point_def)
next
  case True
  obtain node1 x where l: "load_users (w_compile w) node = (node1, x)" by fastforce
  note n1 = load_users_db [OF l]
  obtain out reply where h: "handle_point (w_compile w) (w_now w) (drop 9 (r_Path r)) node = (node', out, reply)"
    using sp True by (auto simp: serve_point_def split: prod.splits option.splits)
  from handle_point_cases [OF h l] show ?thesis
  proof (elim disjE exE conjE)
    fix db assume "same (nd_db node) db" "node' = upd_db node1 db"
    then show ?thesis using one_entry_same [of node1 db] n1 by simp
  next
    fix pauth tmsg reply
    assume x: "x = None" and path: "drop 9 (r_Path r) = pauth @ CHR ''/'' # tmsg"
      and pm: "PointMsg (w_compile w) (w_now w) node1 pauth tmsg = (node', reply)"
    have "r_Path r = ''/u/point/'' @ drop 9 (r_Path r)" using p by (auto simp: HasPrefix_iff)
    then have "presents r pauth" using path True by (auto simp: presents_def)
    moreover have "one_entry (w_now w) (point_grants (nd_udb node1) node1 pauth) node1 node'"
      using PointMsg_one_entry [OF pm] load_users_again [of "w_compile w" node node1] l x by simp
    ultimately show ?thesis
      using n1 one_entry_mono [of "w_now w" "point_grants (nd_udb node1) node1 pauth" node node' "granted w r node"]
      by (auto simp: granted_def Let_def point_grants_def)
  qed
qed

lemma serve_post_one_entry:
  assumes "handle_point_post (w_compile w) (w_now w) (r_Method r) (r_Form r) node = (node', x)" and "r_Path r = ''/u/point''"
  shows "one_entry (w_now w) (granted w r node) node node'"
proof (cases "r_Method r = ''POST'' \<and> (\<exists>v. r_Form r = Some v)")
  case True
  then obtain v where v: "r_Method r = ''POST''" "r_Form r = Some v" by blast
  obtain reply where pm: "PointMsg (w_compile w) (w_now w) node (v ''pauth'') (v ''tmsg'') = (node', reply)"
    using assms(1) v by (auto simp: handle_point_post_def split: prod.splits)
  have "presents r (v ''pauth'')" using v assms(2) by (simp add: presents_def)
  then show ?thesis
    using one_entry_mono [OF PointMsg_one_entry [OF pm], of "granted w r node"] by (auto simp: granted_def Let_def)
next
  case False
  then have "node' = node" using assms(1) by (cases "r_Form r") (auto simp: handle_point_post_def split: if_splits)
  then show ?thesis by simp
qed

lemma effect_one_entry:
  "effect w r args u node (node', c, y) \<Longrightarrow> one_entry (w_now w) (may_write node u r) node node'"
  unfolding effect_def writes_def quiet_def accounts_def one_entry_def fst_conv
  by (elim disjE) (auto simp: same_refl same_def appended_def)

lemma serve_www_one_entry:
  assumes "serve_www w host r node = (node', a)"
  shows "one_entry (w_now w) (granted w r node) node node'"
proof -
  obtain node1 x where l: "reload w node = (node1, x)" by fastforce
  have n1: "node1 = node\<lparr>nd_udb := fst (LoadUsers (w_compile w) (nd_udb node))\<rparr>"
    using load_users_db [of "w_compile w" node] l by (simp add: reload_def)
  obtain c y where h: "handleWWW w host r node = (node', c, y)"
    using assms by (auto simp: serve_www_def split: prod.splits sum.splits)
  show ?thesis
  proof (cases x)
    case (Some e)
    then show ?thesis using handleWWW_panic [of w node node1 e host r] l h n1 by simp
  next
    case None
    let ?u = "identify (nd_udb node1) (r_Cookie r)"
    have "effect w r (snd (route (r_Path r))) ?u node1 (node', c, y)"
      using handleWWW_effect [of w node node1 r host] l None h by simp
    then have "one_entry (w_now w) (may_write node1 ?u r) node1 node'"
      by (rule effect_one_entry)
    then show ?thesis
      using one_entry_mono [of "w_now w" "may_write node1 ?u r" node node' "granted w r node"] n1
      by (simp add: granted_def may_write_def own_addr_def Let_def)
  qed
qed

lemma longest_in: "foldl longer best ps = Some pat \<Longrightarrow> best = Some pat \<or> pat \<in> set ps"
  by (induction ps arbitrary: best) (fastforce simp: longer_def split: option.splits if_splits)+

lemma mux_match_pattern:
  "mux_match path = Some pat \<Longrightarrow> pat \<in> set patterns \<and> (pat = path \<or> HasSuffix pat ''/'' \<and> HasPrefix path pat)"
  unfolding mux_match_def by (auto split: if_splits dest!: longest_in)

lemma mux_pattern: "mux meth path = Inr (Some pat) \<Longrightarrow> mux_match path = Some pat"
  by (auto simp: mux_def Let_def split: if_splits)

lemma on_base_one_entry: "same (nd_db node) (fst x) \<Longrightarrow> one_entry now P node (fst (on_base node x))"
  by (simp add: on_base_def one_entry_same)

lemma one_entry_if:
  "(c \<Longrightarrow> one_entry now P node (fst a)) \<Longrightarrow> (\<not> c \<Longrightarrow> one_entry now P node (fst b)) \<Longrightarrow>
   one_entry now P node (fst (if c then a else b))"
  by simp

lemma handler_one_entry:
  assumes h: "handler w host pat r node = (node', a)" and m: "mux_match (r_Path r) = Some pat"
  shows "one_entry (w_now w) (granted w r node) node node'"
proof -
  let ?P = "granted w r node"
  have fp: "fst (map_prod id f x) = fst x" for f :: "'a \<Rightarrow> 'b" and x :: "'c \<times> 'a"
    by (cases x) simp
  have b: "one_entry (w_now w) ?P node (fst (on_base node (map_prod id f x)))" if "same (nd_db node) (fst x)"
    for f :: "'a \<Rightarrow> served" and x
    using that by (intro on_base_one_entry) (simp add: fp)
  have pt: "one_entry (w_now w) ?P node (fst (serve_point w r node))" if "pat = ''/u/point/''"
  proof -
    have "HasPrefix (r_Path r) pat" using mux_match_pattern [OF m] by (auto simp: HasPrefix_iff)
    then have "HasPrefix (r_Path r) ''/u/point/''" using that by simp
    then show ?thesis using serve_point_one_entry [of w r node] by (cases "serve_point w r node") simp
  qed
  have po: "one_entry (w_now w) ?P node
      (fst (handle_point_post (w_compile w) (w_now w) (r_Method r) (r_Form r) node))" if "pat = ''/u/point''"
  proof -
    have "r_Path r = ''/u/point''" using mux_match_pattern [OF m] that by (auto simp: HasSuffix_def)
    then show ?thesis
      using serve_post_one_entry [of w r node]
      by (cases "handle_point_post (w_compile w) (w_now w) (r_Method r) (r_Form r) node") simp
  qed
  have ww: "one_entry (w_now w) ?P node (fst (serve_www w host r node))"
    using serve_www_one_entry [of w host r node] by (cases "serve_www w host r node") simp
  have "one_entry (w_now w) ?P node (fst (handler w host pat r node))"
    unfolding handler_def Let_def
    by (intro one_entry_if; (rule b pt po ww; fail)?)
      (simp_all add: b pt po ww text_same handle_blacklist_def handle_um_def handle_ue_def handle_e_def)
  then show ?thesis using h by simp
qed

lemma serve_one_entry:
  assumes "serve_req w host r node = (node', a)"
  shows "one_entry (w_now w) (granted w r node) node node'"
proof (cases "mux (r_Method r) (r_Path r)")
  case (Inr pat)
  then show ?thesis
    using assms handler_one_entry [of w host _ r node node' a] mux_pattern
    by (cases pat) (auto simp: serve_req_def)
qed (use assms in \<open>simp add: serve_req_def\<close>)

text \<open>Areas and name never change, and the bundles only grow, an entry a request.\<close>

definition file_text :: "gofile \<Rightarrow> string" where
  "file_text f = (case f of File s \<Rightarrow> s | _ \<Rightarrow> [])"

lemma append_file_text: "append_file f l = Inr f' \<Longrightarrow> file_text f' = file_text f @ l @ [NL]"
  by (auto simp: append_file_def file_text_def split: gofile.splits)

section \<open>Paths the multiplexer passes on\<close>

definition plain_seg :: "string \<Rightarrow> bool" where
  "plain_seg s = (s \<notin> {[], ''.'', ''..''} \<and> CHR ''/'' \<notin> set s)"

lemma foldl_clean_seg: "\<forall>s\<in>set ss. plain_seg s \<Longrightarrow> foldl clean_seg acc ss = acc @ ss"
  by (induction ss arbitrary: acc) (auto simp: clean_seg_def plain_seg_def)

lemma cleanPath_plain:
  assumes "ss \<noteq> []" and "\<forall>s\<in>set ss. plain_seg s"
  shows "cleanPath (CHR ''/'' # Join ''/'' ss) = CHR ''/'' # Join ''/'' ss"
proof -
  let ?p = "CHR ''/'' # Join ''/'' ss"
  have "Split (CHR ''/'') ?p = [] # ss"
    using Split_append [of "CHR ''/''" "[]"] Split_Join [of ss "CHR ''/''"] assms by (simp add: plain_seg_def)
  then have c: "path_Clean ?p = ?p"
    using foldl_clean_seg [OF assms(2), of "[]"] by (simp add: path_Clean_def clean_seg_def)
  have "Join ''/'' ss \<noteq> [] \<and> last (Join ''/'' ss) \<noteq> CHR ''/''"
    using assms
  proof (induction ss)
    case (Cons x ss)
    then show ?case
      by (cases "ss = []") (auto simp: Join_Cons plain_seg_def last_append dest: last_in_set)
  qed simp
  then show ?thesis using c by (auto simp: cleanPath_def Let_def)
qed

text \<open>The path under which one message is asked for.\<close>

definition um_path :: "string \<Rightarrow> string" where
  "um_path mid = ''/u/m/'' @ mid"

lemma plain_seg_id: "IsMsgId mid \<Longrightarrow> CHR ''/'' \<notin> set mid \<Longrightarrow> plain_seg mid"
  by (auto simp: plain_seg_def IsMsgId_def)

lemma mux_under:
  assumes ss: "ss \<noteq> []" "\<forall>s\<in>set ss. plain_seg s" and pre: "pre = ''/u/m/'' \<or> pre = ''/u/e/''"
    and meth: "meth \<noteq> ''CONNECT''"
  shows "mux meth (pre @ Join ''/'' ss) = Inr (Some pre)"
proof -
  let ?x = "Join ''/'' ss"
  have ne: "?x \<noteq> []" using ss by (cases ss; cases "tl ss") (auto simp: plain_seg_def)
  have clean: "cleanPath (CHR ''/'' # Join ''/'' (''u'' # c # ss)) = CHR ''/'' # Join ''/'' (''u'' # c # ss)"
    if "plain_seg c" for c
    by (rule cleanPath_plain) (use ss that in \<open>simp_all add: plain_seg_def\<close>)
  have "cleanPath (''/u/m/'' @ ?x) = ''/u/m/'' @ ?x" "cleanPath (''/u/e/'' @ ?x) = ''/u/e/'' @ ?x"
    using clean [of "''m''"] clean [of "''e''"] ss(1) by (simp_all add: Join_Cons plain_seg_def)
  then have "cleanPath (pre @ ?x) = pre @ ?x" using pre by blast
  moreover have "pre @ ?x \<notin> set patterns" "\<not> needs_slash (pre @ ?x)"
    using ne pre by (elim disjE; simp add: needs_slash_def patterns_def)+
  moreover have "foldl longer None (filter (\<lambda>pat. HasSuffix pat ''/'' \<and> HasPrefix (pre @ ?x) pat) patterns) = Some pre"
    using pre by (elim disjE; simp add: patterns_def HasSuffix_def longer_def)
  ultimately show ?thesis using meth by (simp add: mux_def mux_match_def)
qed

lemma mux_um:
  assumes "IsMsgId mid" "CHR ''/'' \<notin> set mid" "meth \<noteq> ''CONNECT''"
  shows "mux meth (um_path mid) = Inr (Some ''/u/m/'')"
  using mux_under [of "[mid]" "''/u/m/''" meth] plain_seg_id [OF assms(1,2)] assms(3) by (simp add: um_path_def)

lemma MsgId_no_slash [simp]: "CHR ''/'' \<notin> set (MsgId t)"
proof -
  have "CHR ''/'' \<notin> set (Replace (CHR ''/'') ''Z'' s)" for s by (rule Replace_removes) simp
  then show ?thesis unfolding MsgId_def Let_def by (meson in_set_takeD)
qed

lemma serve_req_um:
  assumes rep: "db_rep (nd_db node) log" and mid: "IsMsgId mid" "CHR ''/'' \<notin> set mid"
    and r: "r_Method r \<noteq> ''CONNECT''" "r_Path r = um_path mid"
  shows "\<exists>node'. serve_req w host r node = (node', Text (case spec_get log mid of None \<Rightarrow> []
      | Some m \<Rightarrow> if IsPrivate (m_Echo m) then [] else msg_line m @ [NL])) \<and> db_rep (nd_db node') log"
proof -
  obtain db where u: "um_ids (\<lambda>info. \<not> IsPrivate (mi_Echo info)) [mid] (nd_db node) =
      (db, shown_bundles log (\<lambda>m. \<not> IsPrivate (m_Echo m)) [mid])" and db: "db_rep db log"
    using um_ids_log [OF rep, of "\<lambda>info. \<not> IsPrivate (mi_Echo info)" "\<lambda>m. \<not> IsPrivate (m_Echo m)" "[mid]"]
    by auto
  have "handle_um (drop 5 (r_Path r)) (nd_db node) = (db, shown_bundles log (\<lambda>m. \<not> IsPrivate (m_Echo m)) [mid])"
    using u mid r(2) by (simp add: handle_um_def um_path_def Split_no_sep)
  then have "serve_req w host r node = (upd_db node db, Text (shown_bundles log (\<lambda>m. \<not> IsPrivate (m_Echo m)) [mid]))"
    using mux_um [OF mid r(1)] r(2) by (simp add: serve_req_def handler_def on_base_def Let_def)
  then show ?thesis using db by (auto simp: shown_bundles_def upd_db_def split: option.split)
qed

section \<open>A started node\<close>

text \<open>A node started on files that hold a log, a list of accounts and a list of areas.\<close>

lemma boot_rep:
  assumes "bo_dir b" "\<forall>m\<in>set log. storable m" "int (length (bundle_text log)) < 2 ^ 63"
    "holds_text (bo_bundle b) (bundle_text log)" "bo_index b = NoFile \<or> bo_index b = File (index_text log)"
    "users_ok us" "holds_text (bo_users b) (users_text us)" "us \<noteq> []"
    "bo_list b = File (unlines (map echo_line xs))" "\<forall>x\<in>set xs. echo_ok x"
  shows "\<exists>node. boot compile b = Up node \<and> db_rep (nd_db node) log \<and> db_Name (nd_db node) = bo_sysname b \<and>
    udb_rep (nd_udb node) us \<and> nd_edb node = LoadBlockwords compile (foldl put_echo nil_edb xs) (bo_blackwords b)"
proof -
  have "udb_rep (OpenUsers (bo_users b) (bo_policy b)) us"
    using assms(6-8) by (cases us) (simp_all add: udb_rep_def OpenUsers_def users_text_def print_user_def user_line_def)
  then show ?thesis
    using assms LoadEcholist_lines [of xs]
    by (simp add: boot_def OpenDB_def db_rep_def mem_rep_def nil_index_def)
qed

lemma unreadable_list_panics:
  "bo_dir b \<Longrightarrow> bo_list b = Denied \<Longrightarrow> boot compile b = Panicked (EPanic PNilPointer)"
  by (simp add: boot_def OpenDB_def LoadEcholist_def FileLines_def)

section \<open>Sequences of requests\<close>

text \<open>
  The entries a sequence of requests added: the number of a request and the message it was granted in the state
  the requests before it led to.
\<close>

definition entries_text :: "(World \<times> Req) list \<Rightarrow> (nat \<times> Msg) list \<Rightarrow> string" where
  "entries_text evs es = concat (map (\<lambda>(i, m). snd (Encode (w_now (fst (evs ! i))) m) @ [NL]) es)"

definition justified :: "string \<Rightarrow> Node \<Rightarrow> (World \<times> Req) list \<Rightarrow> (nat \<times> Msg) list \<Rightarrow> bool" where
  "justified host node evs es =
     (sorted_wrt (<) (map fst es) \<and>
      (\<forall>(i, m)\<in>set es. i < length evs \<and>
         (\<exists>node1. serves host node (take i evs) node1 \<and> granted (fst (evs ! i)) (snd (evs ! i)) node1 m)))"

lemma justified_more:
  assumes "justified host node evs es"
  shows "justified host node (evs @ [ev]) es" "entries_text (evs @ [ev]) es = entries_text evs es"
proof -
  have i: "i < length evs" if "(i, m) \<in> set es" for i m using assms that by (auto simp: justified_def)
  show "justified host node (evs @ [ev]) es"
    using assms i unfolding justified_def by (fastforce simp: nth_append)
  show "entries_text (evs @ [ev]) es = entries_text evs es"
    unfolding entries_text_def by (rule arg_cong [where f = concat]) (use i in \<open>auto simp: nth_append\<close>)
qed

lemma justified_snoc:
  assumes "justified host node evs es" "serves host node evs node1" "granted w r node1 m"
  shows "justified host node (evs @ [(w, r)]) (es @ [(length evs, m)])"
    "entries_text (evs @ [(w, r)]) (es @ [(length evs, m)]) = entries_text evs es @ snd (Encode (w_now w) m) @ [NL]"
proof -
  have "\<forall>x\<in>set (map fst es). x < length evs" using assms(1) by (auto simp: justified_def)
  then have "sorted_wrt (<) (map fst (es @ [(length evs, m)]))"
    using assms(1) by (simp add: justified_def sorted_wrt_append)
  then show "justified host node (evs @ [(w, r)]) (es @ [(length evs, m)])"
    using justified_more(1) [OF assms(1), of "(w, r)"] assms(2,3) by (auto simp: justified_def)
  show "entries_text (evs @ [(w, r)]) (es @ [(length evs, m)]) = entries_text evs es @ snd (Encode (w_now w) m) @ [NL]"
    using justified_more(2) [OF assms(1), of "(w, r)"] by (simp add: entries_text_def)
qed

lemma serves_entries:
  assumes "serves host node evs node'"
  shows "nd_edb node' = nd_edb node \<and> db_Name (nd_db node') = db_Name (nd_db node) \<and>
    (\<exists>es. justified host node evs es \<and>
      file_text (db_bundle (nd_db node')) = file_text (db_bundle (nd_db node)) @ entries_text evs es)"
  using assms
proof induction
  case none
  have "justified host node [] [] \<and> entries_text [] [] = []" by (simp add: justified_def entries_text_def)
  then show ?case by (metis append_Nil2)
next
  case (one evs node1 w r node2 a)
  obtain es where es: "justified host node evs es"
      "file_text (db_bundle (nd_db node1)) = file_text (db_bundle (nd_db node)) @ entries_text evs es"
    using one.IH by blast
  have e: "one_entry (w_now w) (granted w r node1) node1 node2" using serve_one_entry [OF one.hyps(2)] .
  then consider "same (nd_db node1) (nd_db node2)"
    | m where "appended (w_now w) (nd_db node1) m (nd_db node2)" "granted w r node1 m"
    by (auto simp: one_entry_def)
  then have "\<exists>es. justified host node (evs @ [(w, r)]) es \<and>
      file_text (db_bundle (nd_db node2)) = file_text (db_bundle (nd_db node)) @ entries_text (evs @ [(w, r)]) es"
  proof cases
    case 1
    then show ?thesis
      using justified_more [OF es(1), of "(w, r)"] es(2) by (intro exI [of _ es]) (simp add: same_def)
  next
    case (2 m)
    then have "file_text (db_bundle (nd_db node2)) = file_text (db_bundle (nd_db node1)) @ snd (Encode (w_now w) m) @ [NL]"
      by (simp add: appended_def append_file_text)
    then show ?thesis
      using justified_snoc [OF es(1) one.hyps(1) 2(2)] es(2) by (intro exI [of _ "es @ [(length evs, m)]"]) simp
  qed
  then show ?case using e one.IH by (simp add: one_entry_def)
qed

end
