(* ===== verification/II_Peers.thy ===== *)
theory II_Peers
  imports II_Sync II_Server
begin

text \<open>
  What \<^verbatim>\<open>II_Sync\<close> takes for the other side of a connection is what the whole server answers: its
  multiplexer hands the paths a fetch builds to the handlers named there.
\<close>

lemma plain_segment_seg: "plain_segment w \<Longrightarrow> plain_seg w"
  using plain_segment_no_slash by (auto simp: plain_segment_def plain_seg_def)

lemma mux_plain:
  assumes "plain_path p" "pre = ''/u/m/'' \<or> pre = ''/u/e/''" "meth \<noteq> ''CONNECT''"
  shows "mux meth (pre @ p) = Inr (Some pre)"
  using mux_under [of "Split (CHR ''/'') p" pre meth] assms plain_segment_seg Join_Split [of "CHR ''/''" p]
  by (auto simp: plain_path_def list_all_iff)

lemma mux_fixed:
  "mux ''GET'' ''/x/features'' = Inr (Some ''/x/features'')" "mux ''GET'' ''/list.txt'' = Inr (Some ''/list.txt'')"
  "mux ''POST'' ''/u/point'' = Inr (Some ''/u/point'')"
  by (simp_all add: mux_def cleanPath_def path_Clean_def clean_seg_def needs_slash_def mux_match_def patterns_def Let_def)

text \<open>A client's GET request for a URL of this host.\<close>

definition fetches :: "string \<Rightarrow> string \<Rightarrow> Req \<Rightarrow> bool" where
  "fetches host url r = (r_Method r = ''GET'' \<and> url = host @ r_Path r)"

lemma prefix_host:
  "HasPrefix (host @ x) (host @ a) = HasPrefix x a" "TrimPrefix (host @ x) (host @ a) = (if HasPrefix x a then TrimPrefix x a else host @ x)"
  by (auto simp: HasPrefix_iff TrimPrefix_def)

text \<open>The paths \<^verbatim>\<open>II_Sync\<close> answers, and with what.\<close>

lemma serve_cases:
  assumes "serve order host node (host @ path) = Reply body ok"
  obtains p where "path = ''/u/m/'' @ p" "plain_path p" "ok" "body = snd (handle_um p (nd_db node))"
    | p where "path = ''/u/e/'' @ p" "plain_path p" "ok" "snd (handle_ue p (nd_db node)) = Inr body"
    | "path = ''/x/features''" "ok" "body = handle_features"
    | "path = ''/list.txt''" "ok" "body = snd (handle_list order node)"
proof -
  note c = that
  have m: ?thesis if "HasPrefix path ''/u/m/''" "plain_path (TrimPrefix path ''/u/m/'')"
  proof -
    obtain p where p: "path = ''/u/m/'' @ p" using \<open>HasPrefix path ''/u/m/''\<close> unfolding HasPrefix_iff by blast
    then have t: "TrimPrefix path ''/u/m/'' = p" by (simp only: TrimPrefix_append)
    show ?thesis using c(1) [OF p] assms that unfolding serve_def Let_def prefix_host t by simp
  qed
  have e: ?thesis if "HasPrefix path ''/u/e/''" "plain_path (TrimPrefix path ''/u/e/'')"
  proof -
    obtain p where p: "path = ''/u/e/'' @ p" using \<open>HasPrefix path ''/u/e/''\<close> unfolding HasPrefix_iff by blast
    then have t: "TrimPrefix path ''/u/e/'' = p" by (simp only: TrimPrefix_append)
    have "\<not> HasPrefix path ''/u/m/''" by (simp add: p)
    then show ?thesis using c(2) [OF p] assms that unfolding serve_def Let_def prefix_host t
      by (simp split: sum.splits)
  qed
  show ?thesis
    using assms m e c(3,4) unfolding serve_def Let_def prefix_host
    by (cases "HasPrefix path ''/u/m/''"; cases "HasPrefix path ''/u/e/''") (auto split: if_splits)
qed

lemma serve_served:
  assumes r: "fetches host url r" and s: "serve (w_order w) host node url = Reply body ok"
  shows "ok \<and> snd (serve_req w site r node) = Text body"
proof -
  have r: "url = host @ r_Path r" "r_Method r = ''GET''" using r by (simp_all add: fetches_def)
  from s [unfolded r(1)] show ?thesis
  proof (cases rule: serve_cases)
    case (1 p)
    then show ?thesis using mux_plain [of p "''/u/m/''" "''GET''"] r(2)
      by (simp add: serve_req_def handler_def on_base_def Let_def)
  next
    case (2 p)
    then show ?thesis using mux_plain [of p "''/u/e/''" "''GET''"] r(2)
      by (simp add: serve_req_def handler_def on_base_def Let_def text_or_panic_def)
  qed (use r(2) mux_fixed in \<open>simp_all add: serve_req_def handler_def on_base_def Let_def\<close>)
qed

section \<open>Sending\<close>

text \<open>
  A form a client posts, and what it reads as the answer: \<open>say\<close> is the text of an error. A client of
  \<^verbatim>\<open>ii/net.go\<close> posts to the point interface only.
\<close>

definition form_req :: "string \<Rightarrow> (string \<times> string) list \<Rightarrow> Req" where
  "form_req path form =
     \<lparr>r_Method = ''POST'', r_Path = path,
      r_Form = Some (\<lambda>k. case map_of form k of None \<Rightarrow> [] | Some v \<Rightarrow> v),
      r_Cookie = None, r_Forwarded = [], r_RemoteAddr = [], r_Referer = []\<rparr>"

definition answer_text :: "(ii_error \<Rightarrow> string) \<Rightarrow> served \<Rightarrow> http_reply" where
  "answer_text say x =
     (case x of
        Posted (Some None) \<Rightarrow> Reply ''msg ok'' True
      | Posted (Some (Some e)) \<Rightarrow> Reply (say e) True
      | Posted None \<Rightarrow> Reply [] True
      | Text s \<Rightarrow> Reply s True
      | _ \<Rightarrow> NoReply)"

definition deliver ::
  "(ii_error \<Rightarrow> string) \<Rightarrow> World \<Rightarrow> string \<Rightarrow> string \<Rightarrow> Node \<Rightarrow> string \<Rightarrow> (string \<times> string) list \<Rightarrow> http_reply" where
  "deliver say w site host node url form =
     answer_text say (snd (serve_req w site (form_req (TrimPrefix url host) form) node))"

lemma serve_form:
  assumes "PointMsg (w_compile w) (w_now w) node pauth tmsg = (node1, reply)"
  shows "serve_req w site (form_req ''/u/point'' [(''pauth'', pauth), (''tmsg'', tmsg)]) node =
    (node1, posted (Some reply))"
  using assms mux_fixed(3) by (simp add: serve_req_def form_req_def handler_def handle_point_post_def)

lemma filled_id_plain:
  assumes "m_MsgId m = []"
  shows "IsMsgId (m_MsgId (filled now m))" "CHR ''/'' \<notin> set (m_MsgId (filled now m))"
  using assms by (simp_all add: filled_def stamped_def Let_def)

text \<open>An accepted post is stored, and from then on served under its id to anyone.\<close>

lemma accepted_then_served:
  assumes rep: "db_rep (nd_db node) log" "udb_rep (nd_udb node) us" and us: "distinct (map us_Secret us)" "u \<in> set us"
    and m: "DecodeMsgline (w_now w) tmsg True = Inr m" "point_reply log node u m = None"
    and fm: "fm = filled (w_now w) (point_msg node u m)" "storable fm" "int (length (bundle_text (log @ [fm]))) < 2 ^ 63"
  shows "\<exists>node1. serve_req w site (form_req ''/u/point'' [(''pauth'', us_Secret u), (''tmsg'', tmsg)]) node =
      (node1, Posted (Some None)) \<and> db_rep (nd_db node1) (log @ [fm]) \<and>
    (\<forall>w' r. r_Method r \<noteq> ''CONNECT'' \<and> r_Path r = um_path (m_MsgId fm) \<longrightarrow>
       snd (serve_req w' site r node1) =
         Text (if hidden (length log) fm \<or> IsPrivate (m_Echo fm) then [] else msg_line fm @ [NL]))"
proof -
  have u: "UserInfo (fst (LoadUsers (w_compile w) (nd_udb node))) (us_Secret u) = Some u"
    using UserInfo_secret [OF rep(2) us(2) refl us(1)] .
  obtain node1 db m' where p: "PointMsg (w_compile w) (w_now w) node (us_Secret u) tmsg = (node1, None)"
      and db: "db_rep db log" and st: "Store (w_now w) db (point_msg node u m) = (nd_db node1, m', None)"
    using PointMsg_known [OF rep u m(1)] m(2) by auto
  have rep1: "db_rep (nd_db node1) (log @ [fm])"
    using DB_Store_rep [OF db fm(2,3) [unfolded fm(1)], of False] st fm(1) by (auto simp: Store_def split: if_splits)
  have "m_MsgId (point_msg node u m) = []" using DecodeMsgline_id [OF m(1)] by (simp add: point_msg_def)
  then have mid: "IsMsgId (m_MsgId fm)" "CHR ''/'' \<notin> set (m_MsgId fm)"
    using filled_id_plain [of "point_msg node u m" "w_now w"] fm(1) by simp_all
  have "snd (serve_req w' site r node1) =
      Text (if hidden (length log) fm \<or> IsPrivate (m_Echo fm) then [] else msg_line fm @ [NL])"
    if "r_Method r \<noteq> ''CONNECT''" "r_Path r = um_path (m_MsgId fm)" for w' r
    using serve_req_um [OF rep1 mid that, of w' site] by (auto simp: spec_get_snoc)
  then show ?thesis using serve_form [OF p, of site] rep1 by (simp add: posted_def)
qed

section \<open>Ids that cannot be asked for\<close>

text \<open>
  \<^verbatim>\<open>IsMsgId\<close> allows a slash, and bundles with such ids are stored; but \<^verbatim>\<open>/u/m/\<close> takes the slash for the end of
  the id, and nothing is given out.
\<close>

lemma length_Split_piece: "w \<in> set (Split c s) \<Longrightarrow> c \<in> set s \<Longrightarrow> length w < length s"
proof -
  assume w: "w \<in> set (Split c s)" and c: "c \<in> set s"
  have "length (Join [c] ws) = sum_list (map length ws) + (length ws - 1)" for ws
    by (induction "[c]" ws rule: Join.induct) auto
  from this [of "Split c s"] have l: "length s = sum_list (map length (Split c s)) + (length (Split c s) - 1)"
    by (simp add: Join_Split)
  have "length (Split c s) \<noteq> 1" using c length_Split_1_iff [of c s] by blast
  then have "2 \<le> length (Split c s)" using length_Split_pos [of c s] by linarith
  moreover have "length w \<le> sum_list (map length (Split c s))" using w by (intro member_le_sum_list) auto
  ultimately show ?thesis using l by linarith
qed

lemma slash_id_unreachable:
  assumes rep: "db_rep db log" and mid: "IsMsgId mid" "CHR ''/'' \<in> set mid"
  shows "snd (handle_um mid db) = []"
proof -
  have "spec_get log i = None" if i: "i \<in> set (Split (CHR ''/'') mid)" for i
  proof (cases "spec_get log i")
    case (Some m)
    then have "IsMsgId i" using spec_get_mem db_rep_storable [OF rep] storable_id by blast
    then show ?thesis using length_Split_piece [OF i mid(2)] mid(1) by (simp add: IsMsgId_def)
  qed simp
  then have "shown_bundles log (\<lambda>m. \<not> IsPrivate (m_Echo m)) (Split (CHR ''/'') mid) = []"
    by (simp add: shown_bundles_def)
  then show ?thesis by (simp add: handle_um_log [OF rep])
qed

end
