(* ===== verification/II_Race.thy ===== *)
theory II_Race
  imports II_Sync
begin

text \<open>
  The goroutines of a fetch on the shared database (\<^verbatim>\<open>Fetcher\<close> and \<^verbatim>\<open>Store\<close> of
  \<^verbatim>\<open>ii/net.go\<close>). Each of the operations \<^verbatim>\<open>db.Exists\<close> and \<^verbatim>\<open>db.Store\<close> excludes all others, but between two
  of them any other fetcher may run. A fetcher is the tree of the operations it does, which depends on what
  it is told; a run of several is any interleaving.
\<close>

section \<open>A fetcher as a tree of operations\<close>

datatype task = Done | Ask string "bool \<Rightarrow> task" | Put Msg task

fun collect_task :: "string list \<Rightarrow> string list \<Rightarrow> (string list \<Rightarrow> task) \<Rightarrow> task" where
  "collect_task [] res k = k res"
| "collect_task (l # ls) res k =
     (if Contains l ''.'' then collect_task ls res k
      else Ask l (\<lambda>known. collect_task ls (if known then res else res @ [l]) k))"

fun put_lines :: "string list \<Rightarrow> task \<Rightarrow> task" where
  "put_lines [] k = k"
| "put_lines (b # bs) k =
     (case DecodeBundle b of Inl _ \<Rightarrow> put_lines bs k | Inr m \<Rightarrow> Put m (put_lines bs k))"

text \<open>\<^verbatim>\<open>Store\<close> of \<^verbatim>\<open>ii/net.go\<close>: the request so far and how many ids it names, as in \<^verbatim>\<open>net_store\<close>.\<close>

fun store_task :: "http \<Rightarrow> string \<Rightarrow> string list \<Rightarrow> string \<Rightarrow> nat \<Rightarrow> task" where
  "store_task get host [] req nreq = Done"
| "store_task get host (i # ids) req nreq =
     (let req = req @ ''/'' @ i; nreq = nreq + 1 in
      if nreq < 8 \<and> ids \<noteq> [] then store_task get host ids req nreq
      else (case get (host @ ''/u/m'' @ req) of
              NoReply \<Rightarrow> Done
            | Reply body ok \<Rightarrow>
                put_lines (reply_lines body ok) (if ok then store_task get host ids [] 0 else Done)))"

definition area_task :: "http \<Rightarrow> Remote \<Rightarrow> string \<Rightarrow> int \<Rightarrow> task" where
  "area_task get n echo limit =
     (let req = rm_Host n @ ''/u/e/'' @ echo;
          req = (if limit > 0 then req @ ''/'' @ itoa (- limit) @ '':'' @ itoa limit else req) in
      case get req of
        NoReply \<Rightarrow> Done
      | Reply body ok \<Rightarrow>
          collect_task (reply_lines body ok) []
            (\<lambda>res. if ok then store_task get (rm_Host n) res [] 0 else Done))"

fun adaptive_task :: "http \<Rightarrow> string \<Rightarrow> string \<Rightarrow> nat \<Rightarrow> int \<Rightarrow> (int \<Rightarrow> task) \<Rightarrow> task" where
  "adaptive_task get host echo 0 limit k = k 0"
| "adaptive_task get host echo (Suc tries) limit k =
     (case http_get_id get (host @ ''/u/e/'' @ echo @ ''/'' @ itoa (wrap64 (- limit)) @ '':1'') of
        Inl _ \<Rightarrow> k 0
      | Inr mid \<Rightarrow>
          if \<not> IsMsgId mid then k 0
          else Ask mid (\<lambda>known. if known then k limit
                                else adaptive_task get host echo tries (wrap64 (limit * 2)) k))"

text \<open>\<^verbatim>\<open>Fetcher\<close>: nothing is done when the newest message is known, or there is no valid answer.\<close>

definition fetch_task :: "http \<Rightarrow> Remote \<Rightarrow> string \<Rightarrow> int \<Rightarrow> task" where
  "fetch_task get n echo limit =
     (let go = (if limit < 0
                then adaptive_task get (rm_Host n) echo 17 (wrap64 (- limit)) (area_task get n echo)
                else area_task get n echo limit) in
      if IsFeature n ''u/e'' then
        (if rm_Force n then go
         else (case http_get_id get (rm_Host n @ ''/u/e/'' @ echo @ ''/-1:1'') of
           Inl _ \<Rightarrow> Done
         | Inr mid \<Rightarrow> if \<not> IsMsgId mid then Done else Ask mid (\<lambda>known. if known then Done else go)))
      else area_task get n echo 0)"

section \<open>One fetcher alone\<close>

primrec run_task :: "int \<Rightarrow> task \<Rightarrow> DB \<Rightarrow> DB" where
  "run_task now Done = (\<lambda>db. db)"
| "run_task now (Ask mid k) = (\<lambda>db. case Exists db mid of (db, mi) \<Rightarrow> run_task now (k (mi \<noteq> None)) db)"
| "run_task now (Put m t) = (\<lambda>db. run_task now t (fst (Store now db m)))"

lemma run_collect:
  "run_task now (collect_task ls res k) db = (case fold new_ids ls (db, res) of (db, res) \<Rightarrow> run_task now (k res) db)"
proof (induction ls arbitrary: res db)
  case (Cons l ls)
  then show ?case
    by (cases "Exists db l") (auto simp: new_ids_def)
qed simp

lemma run_put_lines: "run_task now (put_lines bs k) db = run_task now k (fold (store_line now) bs db)"
  by (induction bs arbitrary: db) (auto simp: store_line_def split: sum.split)

lemma run_store: "run_task now (store_task get host ids req n) db = fst (net_store get now host ids req n db)"
proof (induction ids arbitrary: req n db)
  case (Cons i ids)
  then show ?case
    by (cases "get (host @ ''/u/m'' @ req @ ''/'' @ i)")
      (auto simp: Let_def http_req_lines_def run_put_lines)
qed simp

lemma run_area: "run_task now (area_task get n echo limit) db = fetch_area get now n db echo limit"
proof -
  have "run_task now (case get url of NoReply \<Rightarrow> Done | Reply body ok \<Rightarrow>
          collect_task (reply_lines body ok) [] (\<lambda>res. if ok then store_task get (rm_Host n) res [] 0 else Done)) db =
      (case http_req_lines get url new_ids (db, []) of
        ((db, res), Some e) \<Rightarrow> db | ((db, res), None) \<Rightarrow> fst (Net_Store get now n db res))" for url
    by (cases "get url") (auto simp: http_req_lines_def run_collect run_store Net_Store_def split: prod.split)
  then show ?thesis by (simp add: area_task_def fetch_area_def Let_def)
qed

lemma run_adaptive:
  "run_task now (adaptive_task get host echo tries limit k) db =
   (case adaptive get host echo tries limit db of (db, limit) \<Rightarrow> run_task now (k limit) db)"
proof (induction tries arbitrary: limit db)
  case (Suc tries)
  then show ?case
    by (cases "http_get_id get (host @ ''/u/e/'' @ echo @ ''/'' @ itoa (wrap64 (- limit)) @ '':1'')")
      (auto split: prod.split option.split)
qed simp

text \<open>A fetcher alone is the function of \<^verbatim>\<open>II_Net\<close>.\<close>

lemma run_fetch: "run_task now (fetch_task get n echo limit) db = Fetcher get now n db echo limit"
proof -
  have go: "run_task now (if limit < 0
        then adaptive_task get (rm_Host n) echo 17 (wrap64 (- limit)) (area_task get n echo)
        else area_task get n echo limit) db =
      (let (db, limit) = (if limit < 0 then adaptive get (rm_Host n) echo 17 (wrap64 (- limit)) db else (db, limit))
       in fetch_area get now n db echo limit)" for db
    by (simp add: run_adaptive run_area case_prod_unfold Let_def)
  show ?thesis
    using go by (auto simp: fetch_task_def Fetcher_def sync_needed_def run_area Let_def split: sum.split prod.split)
qed

section \<open>Interleavings\<close>

inductive race_step :: "int \<Rightarrow> task list \<times> DB \<Rightarrow> task list \<times> DB \<Rightarrow> bool" for now where
  asks: "i < length ts \<Longrightarrow> ts ! i = Ask mid k \<Longrightarrow> Exists db mid = (db', mi) \<Longrightarrow>
    race_step now (ts, db) (ts[i := k (mi \<noteq> None)], db')"
| puts: "i < length ts \<Longrightarrow> ts ! i = Put m t \<Longrightarrow> Store now db m = (db', m', err) \<Longrightarrow>
    race_step now (ts, db) (ts[i := t], db')"

inductive_cases race_stepE: "race_step now (ts, db) (ts', db')"

text \<open>A run with the number of its steps.\<close>

inductive races :: "int \<Rightarrow> task list \<times> DB \<Rightarrow> nat \<Rightarrow> task list \<times> DB \<Rightarrow> bool" for now s where
  none: "races now s 0 s"
| more: "races now s n s' \<Longrightarrow> race_step now s' s'' \<Longrightarrow> races now s (Suc n) s''"

text \<open>No run is longer than the sum of the heights of its tasks, and it stops only when all have ended.\<close>

primrec height :: "task \<Rightarrow> nat" where
  "height Done = 0"
| "height (Ask mid k) = Suc (max (height (k True)) (height (k False)))"
| "height (Put m t) = Suc (height t)"

definition work :: "task list \<Rightarrow> nat" where "work ts = sum_list (map height ts)"

lemma work_update: "i < length ts \<Longrightarrow> height t < height (ts ! i) \<Longrightarrow> work (ts[i := t]) < work ts"
proof (induction ts arbitrary: i)
  case (Cons x ts)
  then show ?case by (cases i) (auto simp: work_def)
qed simp

lemma height_branch: "height (k b) < height (Ask mid k)"
  by (cases b) auto

lemma race_step_work: "race_step now s s' \<Longrightarrow> work (fst s') < work (fst s)"
proof (induction rule: race_step.induct)
  case (asks i ts mid k db db' mi)
  then show ?case using work_update [of i ts "k (mi \<noteq> None)"] height_branch [of k "mi \<noteq> None" mid] by simp
next
  case (puts i ts m t db db' m' err)
  then show ?case using work_update [of i ts t] by simp
qed

lemma races_bounded: "races now s n s' \<Longrightarrow> n + work (fst s') \<le> work (fst s)"
  by (induction rule: races.induct) (use race_step_work in fastforce)+

lemma race_progress:
  assumes "\<exists>t\<in>set ts. t \<noteq> Done"
  shows "\<exists>s. race_step now (ts, db) s"
proof -
  obtain i where i: "i < length ts" "ts ! i \<noteq> Done" using assms by (auto simp: in_set_conv_nth)
  show ?thesis
  proof (cases "ts ! i")
    case (Ask mid k)
    then show ?thesis using asks [OF i(1) Ask] by (metis surj_pair)
  next
    case (Put m t)
    then show ?thesis using puts [OF i(1) Put] by (metis prod_cases3)
  qed (use i in simp)
qed

section \<open>What a task stores\<close>

text \<open>Every message a task puts is a bundle the other node delivered.\<close>

definition offered :: "http \<Rightarrow> string \<Rightarrow> Msg \<Rightarrow> bool" where
  "offered get host m =
     (\<exists>req body ok b. get (host @ ''/u/m'' @ req) = Reply body ok \<and> b \<in> set (reply_lines body ok) \<and>
        DecodeBundle b = Inr m)"

primrec delivers :: "http \<Rightarrow> string \<Rightarrow> task \<Rightarrow> bool" where
  "delivers get host Done = True"
| "delivers get host (Ask mid k) = (\<forall>b. delivers get host (k b))"
| "delivers get host (Put m t) = (offered get host m \<and> delivers get host t)"

text \<open>
  After the task, in whatever interleaving, every id of \<open>S\<close> is stored, provided ids that are known stay
  known.
\<close>

primrec ensures :: "task \<Rightarrow> string set \<Rightarrow> bool" where
  "ensures Done = (\<lambda>S. S = {})"
| "ensures (Ask mid k) = (\<lambda>S. ensures (k True) (S - {mid}) \<and> ensures (k False) S)"
| "ensures (Put m t) = (\<lambda>S. ensures t (S - {m_MsgId m}))"

lemma ensures_mono: "ensures t S \<Longrightarrow> T \<subseteq> S \<Longrightarrow> ensures t T"
proof (induction t arbitrary: S T)
  case (Ask mid k)
  then show ?case by (simp, meson Diff_mono order_refl rangeI)
next
  case (Put m t)
  then show ?case by (simp, meson Diff_mono order_refl)
qed simp

lemma ensures_collect:
  assumes "\<And>res'. set res' \<subseteq> U \<Longrightarrow> ensures (k res') (set res')"
  shows "set res \<subseteq> U \<Longrightarrow> \<forall>l\<in>set ls. CHR ''.'' \<in> set l \<or> l \<in> U \<Longrightarrow> S \<subseteq> set res \<union> set ls \<Longrightarrow>
    \<forall>i\<in>S. CHR ''.'' \<notin> set i \<Longrightarrow> ensures (collect_task ls res k) S"
proof (induction ls arbitrary: res S)
  case Nil
  then show ?case using ensures_mono [OF assms] by simp
next
  case (Cons l ls)
  show ?case
  proof (cases "Contains l ''.''")
    case True
    then have "l \<notin> S" using Cons.prems(4) by auto
    then have "S \<subseteq> set res \<union> set ls" using Cons.prems(3) by auto
    then show ?thesis using True Cons by simp
  next
    case False
    then have "l \<in> U" using Cons.prems(2) by auto
    then have "ensures (collect_task ls res k) (S - {l})" "ensures (collect_task ls (res @ [l]) k) S"
      using Cons.prems by (intro Cons.IH; auto)+
    then show ?thesis using False by simp
  qed
qed

lemma ensures_put: "ensures k (S - line_ids bs) \<Longrightarrow> ensures (put_lines bs k) S"
proof (induction bs arbitrary: S)
  case (Cons b bs)
  have e: "line_ids (b # bs) = (case DecodeBundle b of Inl _ \<Rightarrow> {} | Inr m \<Rightarrow> {m_MsgId m}) \<union> line_ids bs"
    by (auto simp: line_ids_def split: sum.split)
  show ?case using Cons unfolding e by (cases "DecodeBundle b") (simp_all add: Diff_Un Un_commute Diff_insert2 [symmetric] set_diff_eq)
qed (simp add: line_ids_def)

lemma delivers_collect: "(\<And>res. delivers get host (k res)) \<Longrightarrow> delivers get host (collect_task ls res k)"
  by (induction ls arbitrary: res) auto

lemma delivers_put:
  "delivers get host k \<Longrightarrow> (\<And>b m. b \<in> set bs \<Longrightarrow> DecodeBundle b = Inr m \<Longrightarrow> offered get host m) \<Longrightarrow>
   delivers get host (put_lines bs k)"
  by (induction bs) (auto split: sum.split)

lemma delivers_store: "delivers get host (store_task get host ids req n)"
proof (induction ids arbitrary: req n)
  case (Cons i ids)
  show ?case
  proof (cases "get (host @ ''/u/m'' @ req @ ''/'' @ i)")
    case (Reply body ok)
    then have "delivers get host (put_lines (reply_lines body ok) (if ok then store_task get host ids [] 0 else Done))"
      using Cons by (intro delivers_put) (auto simp: offered_def)
    then show ?thesis using Cons Reply by (simp add: Let_def)
  qed (use Cons in \<open>simp add: Let_def\<close>)
qed simp

lemma delivers_area: "delivers get (rm_Host n) (area_task get n echo limit)"
  by (simp add: area_task_def Let_def delivers_collect delivers_store split: http_reply.split)

lemma delivers_adaptive: "(\<And>l. delivers get host (k l)) \<Longrightarrow> delivers get host (adaptive_task get host echo tries limit k)"
  by (induction tries arbitrary: limit) (auto split: sum.split)

lemma delivers_fetch: "delivers get (rm_Host n) (fetch_task get n echo limit)"
  by (simp add: fetch_task_def Let_def delivers_area delivers_adaptive split: sum.split)

section \<open>Invariant of an interleaving\<close>

text \<open>The task at each place still ensures the ids of its area that are not in the set \<open>D\<close> of stored ones.\<close>

definition race_inv :: "http \<Rightarrow> string \<Rightarrow> int \<Rightarrow> Msg list \<Rightarrow> string set list \<Rightarrow> task list \<times> DB \<Rightarrow> bool" where
  "race_inv get host now log ws s =
     (\<exists>D. extends get host now log D (snd s) \<and> length (fst s) = length ws \<and>
        (\<forall>i<length ws. delivers get host (fst s ! i) \<and> ensures (fst s ! i) (ws ! i - D)))"

lemma extends_known:
  assumes "extends get host now log D db" "Exists db mid = (db', mi)"
  shows "extends get host now log (if mi \<noteq> None then insert mid D else D) db'"
proof -
  obtain ms where ms: "db_rep db (log @ ms)" "new_only log ms" "set ms \<subseteq> fetched get host now"
      "D \<subseteq> m_MsgId ` set (log @ ms)"
    using assms(1) by (auto simp: extends_def)
  have e: "db_rep db' (log @ ms)" "mi \<noteq> None \<longleftrightarrow> spec_exists (log @ ms) mid"
    using Exists_rep [OF ms(1), of mid] assms(2) db_loaded_rep by auto
  then have "(if mi \<noteq> None then insert mid D else D) \<subseteq> m_MsgId ` set (log @ ms)"
    using ms(4) by (auto simp: spec_exists_def)
  then show ?thesis unfolding extends_def using ms(2,3) e(1) by blast
qed

lemma extends_put:
  assumes "good_remote get host now log" "extends get host now log D db" "offered get host m"
  shows "extends get host now log (insert (m_MsgId m) D) (fst (Store now db m))"
proof -
  obtain req body ok b where b: "get (host @ ''/u/m'' @ req) = Reply body ok" "b \<in> set (reply_lines body ok)"
      "DecodeBundle b = Inr m"
    using assms(3) unfolding offered_def by blast
  show ?thesis using store_line_extends [OF assms(1,2) b(1,2)] b(3) by (simp add: store_line_def)
qed

lemma race_inv_step:
  assumes good: "good_remote get host now log" and step: "race_step now s s'" and inv: "race_inv get host now log ws s"
  shows "race_inv get host now log ws s'"
proof -
  obtain D where D: "extends get host now log D (snd s)" "length (fst s) = length ws"
      "\<And>i. i < length ws \<Longrightarrow> delivers get host (fst s ! i) \<and> ensures (fst s ! i) (ws ! i - D)"
    using inv by (auto simp: race_inv_def)
  have later: "ensures (fst s ! j) (ws ! j - insert x D)" if "j < length ws" for j x
    using D(3) [OF that] ensures_mono by (meson Diff_mono order_refl subset_insertI)
  from step show ?thesis
  proof cases
    case (asks i ts mid k db db' mi)
    let ?D = "if mi \<noteq> None then insert mid D else D"
    have i: "i < length ws" using asks D(2) by simp
    have e: "extends get host now log ?D db'" using extends_known D(1) asks by fastforce
    have t: "delivers get host (Ask mid k)" "ensures (Ask mid k) (ws ! i - D)"
      using D(3) [OF i] unfolding asks(1) fst_conv asks(4) by blast+
    from t(2) have "ensures (k True) (ws ! i - insert mid D)" by (simp only: ensures.simps Diff_insert [of _ mid D])
    moreover have "ensures (k False) (ws ! i - D)" using t(2) by (simp only: ensures.simps)
    ultimately have "ensures (k (mi \<noteq> None)) (ws ! i - ?D)" by (cases "mi = None") simp_all
    moreover have "delivers get host (k (mi \<noteq> None))" using t(1) by (simp only: delivers.simps)
    ultimately have k: "delivers get host (k (mi \<noteq> None)) \<and> ensures (k (mi \<noteq> None)) (ws ! i - ?D)" by simp
    then have "\<forall>j<length ws. delivers get host (ts[i := k (mi \<noteq> None)] ! j) \<and> ensures (ts[i := k (mi \<noteq> None)] ! j) (ws ! j - ?D)"
      using D(2,3) later asks(1,3) k by (auto simp: nth_list_update split: if_splits)
    then show ?thesis unfolding race_inv_def using e D(2) asks(1,2) by (intro exI [of _ ?D]) simp
  next
    case (puts i ts m t db db' m' err)
    let ?D = "insert (m_MsgId m) D"
    have i: "i < length ws" using puts D(2) by simp
    have "offered get host m" using D(3) [OF i] puts by simp
    then have e: "extends get host now log ?D db'" using extends_put [OF good, of D db m] D(1) puts by simp
    have "delivers get host (Put m t)" "ensures (Put m t) (ws ! i - D)"
      using D(3) [OF i] unfolding puts(1) fst_conv puts(4) by blast+
    then have k: "delivers get host t \<and> ensures t (ws ! i - ?D)" by (simp only: ensures.simps delivers.simps Diff_insert [of _ "m_MsgId m" D])
    then have "\<forall>j<length ws. delivers get host (ts[i := t] ! j) \<and> ensures (ts[i := t] ! j) (ws ! j - ?D)"
      using D(2,3) later puts(1,3) k by (auto simp: nth_list_update split: if_splits)
    then show ?thesis unfolding race_inv_def using e D(2) puts(1,2) by (intro exI [of _ ?D]) simp
  qed
qed

lemma race_inv_run:
  "races now s n s' \<Longrightarrow> good_remote get host now log \<Longrightarrow> race_inv get host now log ws s \<Longrightarrow> race_inv get host now log ws s'"
  by (induction rule: races.induct) (use race_inv_step in blast)+

lemma race_inv_done:
  assumes "race_inv get host now log ws (ts, db)" "\<forall>t\<in>set ts. t = Done"
  shows "extends get host now log (\<Union> (set ws)) db"
proof -
  obtain D where D: "extends get host now log D db" "length ts = length ws"
      "\<And>i. i < length ws \<Longrightarrow> ensures (ts ! i) (ws ! i - D)"
    using assms(1) by (auto simp: race_inv_def)
  have "w \<subseteq> D" if "w \<in> set ws" for w
  proof -
    note w = that
    obtain i where i: "i < length ws" "ws ! i = w" using w unfolding in_set_conv_nth by blast
    then have "ts ! i \<in> set ts" using D(2) by simp
    then have d: "ts ! i = Done" using assms(2) by blast
    have "ensures Done (w - D)" using D(3) [OF i(1)] unfolding d i(2) .
    then show ?thesis by simp
  qed
  then have "\<Union> (set ws) \<subseteq> D" by (rule Union_least)
  then show ?thesis by (rule extends_mono [OF D(1)])
qed

section \<open>Fetchers of a node running this program\<close>

lemma store_task_batch:
  "ids \<noteq> [] \<Longrightarrow> n < 8 \<Longrightarrow>
     store_task get host ids req n =
       (case get (host @ ''/u/m'' @ req @ concat (map (\<lambda>i. ''/'' @ i) (take (8 - n) ids))) of
          NoReply \<Rightarrow> Done
        | Reply body ok \<Rightarrow>
            put_lines (reply_lines body ok) (if ok then store_task get host (drop (8 - n) ids) [] 0 else Done))"
proof (induction ids arbitrary: req n)
  case (Cons i ids)
  have s: "8 - n = Suc (8 - (n + 1))" using Cons.prems(2) by simp
  show ?case
  proof (cases "n + 1 < 8 \<and> ids \<noteq> []")
    case True
    then have "store_task get host (i # ids) req n = store_task get host ids (req @ ''/'' @ i) (n + 1)" by simp
    then show ?thesis using Cons.IH [of "n + 1" "req @ ''/'' @ i"] True unfolding s
      by (simp split: http_reply.split)
  next
    case False
    then have "take (8 - (n + 1)) ids = []" "drop (8 - (n + 1)) ids = ids" using Cons.prems(2) by auto
    then show ?thesis using False unfolding s by (auto simp: Let_def split: http_reply.split)
  qed
qed simp

lemma ensures_store:
  assumes rep: "db_rep (nd_db node) rlog"
  shows "\<forall>i\<in>set ids. open_id rlog i \<Longrightarrow> ensures (store_task (serve order host node) host ids [] 0) (set ids)"
proof (induction "length ids" arbitrary: ids rule: less_induct)
  case less
  let ?get = "serve order host node"
  show ?case
  proof (cases "ids = []")
    case False
    have b: "take 8 ids \<noteq> []" "\<forall>i\<in>set (take 8 ids). open_id rlog i"
      using False less.prems by (auto dest: in_set_takeD)
    obtain body where r: "?get (um_request host (take 8 ids)) = Reply body True"
        "set (take 8 ids) \<subseteq> line_ids (reply_lines body True)"
      using batch_reply [OF rep b] .
    have "length (drop 8 ids) < length ids" using False by simp
    then have "ensures (store_task ?get host (drop 8 ids) [] 0) (set (drop 8 ids))"
      using less.hyps [of "drop 8 ids"] less.prems by (auto dest: in_set_dropD)
    moreover have "set ids - line_ids (reply_lines body True) \<subseteq> set (drop 8 ids)"
      using r(2) set_append [of "take 8 ids" "drop 8 ids"] by auto
    ultimately have "ensures (put_lines (reply_lines body True) (store_task ?get host (drop 8 ids) [] 0)) (set ids)"
      by (rule ensures_put [OF ensures_mono])
    then show ?thesis
      using store_task_batch [OF False, of 0 ?get host "[]"] r(1) by (simp add: um_request_def)
  qed simp
qed

text \<open>The newest id of an area, which the code asks for to see if there is anything new.\<close>

lemma wanted_ids:
  "wanted log e limit =
     (if limit > 0 then last_n (nat limit) (log_ids log (nil_query\<lparr>q_Echo := e\<rparr>)) else log_ids log (nil_query\<lparr>q_Echo := e\<rparr>))"
proof -
  have "log_ids log (nil_query\<lparr>q_Echo := e, q_Start := a, q_Lim := b\<rparr>) = log_ids log (nil_query\<lparr>q_Echo := e\<rparr>)" for a b
  proof -
    have "base_match info (nil_query\<lparr>q_Echo := e, q_Start := a, q_Lim := b\<rparr>) = base_match info (nil_query\<lparr>q_Echo := e\<rparr>)" for info
      by (simp add: base_match_def)
    then show ?thesis by (simp only: log_ids_def)
  qed
  moreover have "q_Start (nil_query\<lparr>q_Echo := e, q_Start := a, q_Lim := b\<rparr>) = a"
    "q_Lim (nil_query\<lparr>q_Echo := e, q_Start := a, q_Lim := b\<rparr>) = b" for a b
    by simp_all
  ultimately show ?thesis by (simp add: wanted_def log_slice_def limited_def last_n_def max_def)
qed

lemma wanted_newest:
  "wanted log e 1 = [] \<or> (\<exists>i. wanted log e 1 = [i])"
  "0 \<le> limit \<Longrightarrow> set (wanted log e 1) \<subseteq> set (wanted log e limit)"
proof -
  have one: "last_n (Suc 0) xs = (if xs = [] then [] else [last xs])" for xs :: "string list"
    by (cases xs rule: rev_cases) (simp_all add: last_n_def)
  show "wanted log e 1 = [] \<or> (\<exists>i. wanted log e 1 = [i])" by (simp add: wanted_ids one)
  have "last xs \<in> set (last_n k xs)" if "xs \<noteq> []" "0 < k" for xs :: "string list" and k
    using that by (cases xs rule: rev_cases; cases k) (simp_all add: last_n_def)
  then show "set (wanted log e 1) \<subseteq> set (wanted log e limit)" if "0 \<le> limit"
    using that by (simp add: wanted_ids one)
qed

lemma newest_answer:
  assumes rep: "db_rep (nd_db node) rlog" and ids: "\<forall>m\<in>set rlog. plain_segment (m_MsgId m)"
    and e: "IsEcho e" "plain_segment e"
  shows "http_get_id (serve order host node) (host @ ''/u/e/'' @ e @ ''/-1:1'') = Inr (concat (wanted rlog e 1))"
proof -
  have in1: "in64 1" by (simp add: in_range_def)
  have "(of_char (CHR ''1'') :: nat) = 49" by simp
  then have "char_of (49 :: nat) = CHR ''1''" by (metis char_of_char)
  then have "itoa (- 1) = ''-1''" "itoa 1 = ''1''" by (simp_all add: itoa_def utoa.simps [of "Suc 0"] digit_def)
  then have path: "ue_path e 1 = e @ ''/-1:1''" by (simp add: ue_path_def)
  have dots: "\<forall>i\<in>set (wanted rlog e 1). CHR ''.'' \<notin> set i" using wanted_open [OF rep ids e(2)] by blast
  have join: "fold (\<lambda>line res. if Contains line ''.'' then res else res @ line) ls r = r @ concat ls"
    if "\<forall>i\<in>set ls. CHR ''.'' \<notin> set i" for ls r
    using that by (induction ls arbitrary: r) auto
  have "Contains e ''.''" using e(1) by (auto simp: IsEcho_def Let_def)
  then show ?thesis
    using serve_wanted [OF rep e in1, of order host] wanted_lines [OF rep ids e(2), of 1] join [OF dots]
    by (simp add: http_get_id_def http_req_lines_def path)
qed

text \<open>
  A fetcher ensures the newest id the other node shows of its area. Forced, or without the query for parts
  of an area, it ensures all ids it asks for.
\<close>

definition asked :: "Remote \<Rightarrow> Msg list \<Rightarrow> int \<Rightarrow> string \<Rightarrow> string set" where
  "asked n rlog limit e =
     set (wanted rlog e 1) \<union>
     (if rm_Force n \<or> \<not> IsFeature n ''u/e''
      then set (wanted rlog e (if IsFeature n ''u/e'' then limit else 0)) else {})"

lemma ensures_fetch:
  assumes rep: "db_rep (nd_db node) rlog" and ids: "\<forall>m\<in>set rlog. plain_segment (m_MsgId m)"
    and e: "IsEcho e" "plain_segment e" and lim: "in64 limit" "0 \<le> limit"
  shows "ensures (fetch_task (serve order (rm_Host n) node) n e limit) (asked n rlog limit e)"
proof -
  let ?get = "serve order (rm_Host n) node"
  have area: "ensures (area_task ?get n e l) (set (wanted rlog e l))" if l: "in64 l" "0 \<le> l" for l
  proof -
    let ?w = "wanted rlog e l"
    have open_w: "\<forall>i\<in>set ?w. open_id rlog i \<and> CHR ''.'' \<notin> set i" using wanted_open [OF rep ids e(2)] by blast
    have "ensures (store_task ?get (rm_Host n) res [] 0) (set res)" if "set res \<subseteq> set ?w" for res
      using ensures_store [OF rep] that open_w by blast
    then have "ensures (collect_task (e # ?w) [] (\<lambda>res. store_task ?get (rm_Host n) res [] 0)) (set ?w)"
      using open_w e(1) by (intro ensures_collect [where U = "set ?w"]) (auto simp: IsEcho_def Let_def)
    moreover have "area_task ?get n e l = collect_task (e # ?w) [] (\<lambda>res. store_task ?get (rm_Host n) res [] 0)"
      unfolding area_task_def using ue_path_request [of "rm_Host n" e l] serve_wanted [OF rep e l, of order "rm_Host n"]
        wanted_lines [OF rep ids e(2), of l]
      by (simp add: Let_def)
    ultimately show ?thesis by simp
  qed
  note newest = newest_answer [OF rep ids e, of order "rm_Host n"]
  have in0: "in64 0" by (simp add: in_range_def)
  consider "\<not> IsFeature n ''u/e''" | "IsFeature n ''u/e''" "rm_Force n" | "IsFeature n ''u/e''" "\<not> rm_Force n" by blast
  then show ?thesis
  proof cases
    case 1
    then have "asked n rlog limit e = set (wanted rlog e 0)" using wanted_newest(2) [of 0 rlog e] by (auto simp: asked_def)
    then show ?thesis using 1 area [OF in0] by (simp add: fetch_task_def)
  next
    case 2
    then have "asked n rlog limit e = set (wanted rlog e limit)"
      using wanted_newest(2) [OF lim(2), of rlog e] by (auto simp: asked_def)
    then show ?thesis using 2 area [OF lim] lim(2) by (simp add: fetch_task_def Let_def)
  next
    case 3
    then have a: "asked n rlog limit e = set (wanted rlog e 1)" by (simp add: asked_def)
    consider "wanted rlog e 1 = []" | i where "wanted rlog e 1 = [i]" using wanted_newest(1) by blast
    then show ?thesis
    proof cases
      case 1
      have "\<not> IsMsgId []" by (simp add: IsMsgId_def)
      then show ?thesis using 1 3 newest by (simp add: a fetch_task_def)
    next
      case (2 i)
      have "i \<in> set (wanted rlog e 1)" using 2 by simp
      then obtain m where m: "spec_get rlog i = Some m" using wanted_open [OF rep ids e(2)] by (auto simp: open_id_def)
      have id: "IsMsgId i" using spec_get_mem [OF m] db_rep_storable [OF rep] storable_id by blast
      have "ensures (area_task ?get n e limit) {i}"
        using ensures_mono [OF area [OF lim]] wanted_newest(2) [OF lim(2), of rlog e] 2 by simp
      then show ?thesis using 2 3 newest id lim(2) by (simp add: a fetch_task_def Let_def)
    qed
  qed
qed

text \<open>The start of a fetch of several areas: a goroutine for each.\<close>

definition fetch_tasks :: "http \<Rightarrow> Remote \<Rightarrow> string list \<Rightarrow> int \<Rightarrow> task list" where
  "fetch_tasks get n es limit = map (\<lambda>e. fetch_task get n e limit) (filter IsEcho es)"

lemma race_inv_start:
  assumes "db_rep db log" "\<And>e. e \<in> set es \<Longrightarrow> IsEcho e \<Longrightarrow> ensures (fetch_task get n e limit) (W e)"
  shows "race_inv get (rm_Host n) now log (map W (filter IsEcho es)) (fetch_tasks get n es limit, db)"
proof -
  have "delivers get (rm_Host n) (fetch_tasks get n es limit ! i) \<and>
      ensures (fetch_tasks get n es limit ! i) (map W (filter IsEcho es) ! i)" if "i < length (filter IsEcho es)" for i
    using that nth_mem [OF that] assms(2) delivers_fetch [of get n] by (auto simp: fetch_tasks_def)
  then show ?thesis
    unfolding race_inv_def using extends_start [OF assms(1)] by (intro exI [of _ "{}"]) (simp add: fetch_tasks_def)
qed

text \<open>Running the fetchers one after the other, as \<^verbatim>\<open>II_Net\<close> does, is one of the interleavings.\<close>

lemma races_trans: "races now s n s' \<Longrightarrow> races now s' k s'' \<Longrightarrow> races now s (n + k) s''"
  by (rotate_tac, induction rule: races.induct) (auto intro: races.more)

lemma races_one:
  "i < length ts \<Longrightarrow> ts ! i = t \<Longrightarrow> \<exists>n. races now (ts, db) n (ts[i := Done], run_task now t db)"
proof (induction t arbitrary: ts db)
  case Done
  then have "ts[i := Done] = ts" by (metis list_update_id)
  then show ?case using races.none [of now "(ts, db)"] by auto
next
  case (Ask mid k)
  obtain db' mi where e: "Exists db mid = (db', mi)" by fastforce
  have "races now (ts, db) (Suc 0) (ts[i := k (mi \<noteq> None)], db')"
    using races.more [OF races.none asks [OF Ask.prems e]] .
  moreover obtain n where "races now (ts[i := k (mi \<noteq> None)], db') n (ts[i := Done], run_task now (k (mi \<noteq> None)) db')"
    using Ask.IH [of "k (mi \<noteq> None)" "ts[i := k (mi \<noteq> None)]" db'] Ask.prems by auto
  ultimately show ?case using races_trans e by fastforce
next
  case (Put m t)
  obtain db' m' err where st: "Store now db m = (db', m', err)" by (metis prod_cases3)
  have "races now (ts, db) (Suc 0) (ts[i := t], db')"
    using races.more [OF races.none puts [OF Put.prems st]] .
  moreover obtain n where "races now (ts[i := t], db') n (ts[i := Done], run_task now t db')"
    using Put.IH [of "ts[i := t]" db'] Put.prems by auto
  ultimately show ?case using races_trans st by fastforce
qed

end
