(* ===== verification/Spec2Isabelle.thy ===== *)
theory Spec2Isabelle
  imports II_Topics II_Sync II_Lock II_Pool II_Pitfalls II_Templates II_Gemini II_Peers II_Race
begin

text \<open>
  The node and the message base of ii-go, an implementation of the ii protocol in Go.

  \<^bold>\<open>The program.\<close> Package \<^verbatim>\<open>ii\<close> holds messages (\<^verbatim>\<open>ii/msg.go\<close>), the message base with its
  index, queries, threads, accounts and areas (\<^verbatim>\<open>ii/db.go\<close>) and the client of other nodes
  (\<^verbatim>\<open>ii/net.go\<close>); \<^verbatim>\<open>ii-node\<close> is a server that publishes a message base and takes messages of
  its points, as plain text (\<^verbatim>\<open>ii-node/main.go\<close>) and as web pages (\<^verbatim>\<open>ii-node/web.go\<close>, with the pictures of
  \<^verbatim>\<open>ii-node/xpm.go\<close>); \<^verbatim>\<open>ii-tool\<close> is a command line tool that works on the same files
  (\<^verbatim>\<open>ii-tool/main.go\<close>). A message base is two text files that only grow: the bundles, one encoded message a
  line, and an index with one record a line. The index in memory is a cache of the index file, the
  index file a cache of the bundles. A later line with the same id replaces an earlier one.

  \<^bold>\<open>The theories.\<close>
  \<^item> \<^verbatim>\<open>Go_Prelude\<close>, \<^verbatim>\<open>Go_Strings\<close>, \<^verbatim>\<open>Go_Numbers\<close>, \<^verbatim>\<open>Go_Regexp\<close>, \<^verbatim>\<open>Base64\<close> and \<^verbatim>\<open>Sha256\<close> model what
    the code uses of Go and its standard library: maps that can be nil, byte strings as lists of
    characters, 64 and 32 bit numbers with their wrap-around, \<^verbatim>\<open>Sscanf\<close> on numbers, the expression for
    mail addresses, the two base64 alphabets, SHA-256 on 32 bit words.
  \<^item> \<^verbatim>\<open>II_Tags\<close> and \<^verbatim>\<open>II_Msg\<close> model \<^verbatim>\<open>ii/msg.go\<close>: tags, ids, areas, the decoding of a point's line, the
    printing and the two codings of a bundle line.
  \<^item> \<^verbatim>\<open>II_Files\<close>, \<^verbatim>\<open>II_Index\<close>, \<^verbatim>\<open>II_Replay\<close> and \<^verbatim>\<open>II_DB\<close> model the first part of \<^verbatim>\<open>ii/db.go\<close>: a file is
    its bytes, or missing, or not accessible; \<open>CreateIndex\<close>, \<open>LoadIndex\<close>, \<open>DB_Lookup\<close>, \<open>DB_GetBundle\<close> and
    \<open>DB_Store\<close> are \<^verbatim>\<open>_CreateIndex\<close>, \<^verbatim>\<open>LoadIndex\<close>, \<^verbatim>\<open>_Lookup\<close>, \<^verbatim>\<open>_GetBundle\<close> and \<^verbatim>\<open>_Store\<close>. An operation takes
    the \<open>DB\<close> record (the two files, the index in memory, the name) and returns it.
  \<^item> \<^verbatim>\<open>II_Query\<close> and \<^verbatim>\<open>II_Topics\<close> model \<^verbatim>\<open>Access\<close>, \<^verbatim>\<open>Match\<close>, \<^verbatim>\<open>SelectIDS\<close>, \<^verbatim>\<open>Echoes\<close> and \<^verbatim>\<open>GetTopics\<close>.
  \<^item> \<^verbatim>\<open>II_Users\<close> and \<^verbatim>\<open>II_Echolist\<close> model the accounts (\<^verbatim>\<open>UDB\<close>) and the list of areas (\<^verbatim>\<open>EDB\<close>).
  \<^item> \<^verbatim>\<open>II_Node\<close> models \<^verbatim>\<open>ii-node/main.go\<close>: taking a message of a point and the handlers of the plain text
    interface. \<^verbatim>\<open>II_Net\<close> models \<^verbatim>\<open>ii/net.go\<close>: reading another node, fetching, sending. \<^verbatim>\<open>II_Sync\<close> puts the
    two together: the client of one node and the handlers of another.
  \<^item> \<^verbatim>\<open>II_Pool\<close> models how a fetch starts its goroutines and waits for them, as steps; \<^verbatim>\<open>II_Race\<close> what they do,
    as trees of operations on the shared base that are interleaved in any way.
  \<^item> \<^verbatim>\<open>II_Server\<close> models the start of the node and the patterns \<^verbatim>\<open>main\<close> of \<^verbatim>\<open>ii-node/main.go\<close> registers with the
    multiplexer of \<^verbatim>\<open>net/http\<close> (\<open>boot\<close>, \<open>mux\<close>, \<open>handler\<close>, \<open>serve_req\<close>), and sequences of requests (\<open>serves\<close>); it shows
    what any sequence may do to the bundles. \<^verbatim>\<open>II_Peers\<close> shows that this server answers a client as \<^verbatim>\<open>II_Sync\<close> says.
  \<^item> \<^verbatim>\<open>II_Lock\<close> models the lock file (\<^verbatim>\<open>DB.Lock\<close>, \<^verbatim>\<open>DB.Unlock\<close>) as steps of the threads of several processes.
  \<^item> \<^verbatim>\<open>Go_Runes\<close>, \<^verbatim>\<open>II_Xpm\<close>, \<^verbatim>\<open>II_Render\<close> and \<^verbatim>\<open>II_Links\<close> model the text functions of \<^verbatim>\<open>ii-node/web.go\<close>, from
    \<^verbatim>\<open>str_esc\<close> to \<^verbatim>\<open>msg_trunc\<close>, and the parser of pictures.
  \<^item> \<^verbatim>\<open>II_Pages\<close>, \<^verbatim>\<open>II_Post\<close>, \<^verbatim>\<open>II_Account\<close> and \<^verbatim>\<open>II_Web\<close> model the handlers of the web interface: reading, writing,
    accounts, dispatch. A handler takes the node and the context of the request and returns both with its
    reply or error; \<^verbatim>\<open>II_Templates\<close> has the functions the templates call. \<^verbatim>\<open>II_Guard\<close> shows what each of them leaves alone, \<^verbatim>\<open>II_Listing\<close> what lists show,
    \<^verbatim>\<open>II_Session\<close> that logins and avatars work, \<^verbatim>\<open>II_Attach\<close> that files in messages and marks of edits do,
    \<^verbatim>\<open>II_Pitfalls\<close> where the interface gives way.
  \<^item> \<^verbatim>\<open>II_Clean\<close>, \<^verbatim>\<open>II_Tool\<close> and \<^verbatim>\<open>II_Export\<close> model \<^verbatim>\<open>ii-tool/main.go\<close>: the two passes of \<^verbatim>\<open>clean\<close>, the commands on
    the base, the export of pages and files, the choice of the command (\<open>tool\<close>). A command takes the \<open>Disk\<close>, that
    is the files it may touch, and returns it with what it prints and how it ends. \<^verbatim>\<open>II_Import\<close> shows what
    \<^verbatim>\<open>store\<close> does to a log, \<^verbatim>\<open>II_Readers\<close> what the reading commands print and leave alone, \<^verbatim>\<open>II_Gemini\<close> what
    the export writes.

  \<^bold>\<open>Specification.\<close> A message base is specified by the log of the messages stored in it, a list.
  \<open>db_rep db log\<close> says that the files and the index in memory represent \<open>log\<close>; the index may be
  behind the files. \<open>spec_get\<close>, \<open>spec_exists\<close>, \<open>log_ids\<close>, \<open>log_slice\<close> and \<open>shown_bundles\<close> say on
  the log what the operations return, and the properties show that they do. \<open>udb_rep\<close> does the same
  for the list of accounts and \<open>users\<close>, \<open>areas\<close> (interpretations of \<open>line_codec\<close>) for the text files.
  The interfaces are locales: a file of lines that grows (\<open>line_log\<close>), a table filled by keyed records
  (\<open>keyed_table\<close>), a text format of records (\<open>line_codec\<close>), a byte coding (\<open>byte_codec\<close>); each is
  interpreted on the definitions of the model.

  \<^bold>\<open>The groups of properties\<close>, in the order below: the message base; messages and tags; the node's
  answers; selections, areas and threads; accounts and areas; where the code stops or goes wrong;
  fetching; the lock file; the web interface and where it gives way; the command line tool; the goroutines of a fetch; the
  server as a whole. A property on a failure states what the code does, which is not what it is meant to do.

  \<^bold>\<open>Bounds and fuel.\<close> Offsets are 64 bit numbers, so properties on the base bound the length of the
  bundle file by \<open>2 ^ 63\<close>. Only the walk to the root of a thread takes fuel, since it may not end:
  \<open>topics_partition\<close> gives a fuel that is enough on acyclic replies, \<open>walk_ends_in_area\<close> one for one
  area, and \<open>walk_stuck_elsewhere\<close> shows that on some cycles none is; \<open>get_walk_ends\<close> and \<open>get_walk_stuck\<close> say the
  same of the walk of \<^verbatim>\<open>get -t\<close>. The other loops are recursive on
  their data. The adaptive search of a fetch has the 17 tries of the code.

  \<^bold>\<open>Parameters.\<close> The clock (\<open>now\<close>), the regular expression compiler for the administrator's
  expressions (\<open>compile\<close>), the order in which a map is listed (\<open>order\<close>), and the HTTP client (\<open>get\<close>,
  \<open>post\<close>). The web interface takes its parameters in the record \<open>World\<close>: beside these the printing of dates,
  the encoder of PNG files, the fuel of \<^verbatim>\<open>GetTopics\<close>, the answers of whois servers and the lower case of letters
  outside ASCII. The tool takes them in the record \<open>Env\<close>, with the files named on its command line, the standard input and
  which paths can be created; its options are the record \<open>Opts\<close>. A failing system call is modelled for opening a file; reads and writes of an opened file
  succeed, and \<^verbatim>\<open>UDB.Edit\<close> can create its temporary file. A Go panic is the error value \<open>EPanic\<close>.

  \<^bold>\<open>Abstractions.\<close> Records are values: a user or message that is changed by a handler and shared with the
  database through its tags is written back by the same handler, with \<^verbatim>\<open>UDB.Edit\<close> or \<^verbatim>\<open>DB.Edit\<close>, so that
  the sharing is not observed once this succeeds. A web page is the name of its template and the context it
  is executed on. Requests take place one after the other; what the lock file is for is shown
  in \<^verbatim>\<open>II_Lock\<close>. In \<^verbatim>\<open>II_Race\<close> an operation on the base is one step, since the mutex of the base is held
  for all of it, and what another node answers does not change during the fetch. The panic of
  \<^verbatim>\<open>LoadIndex\<close> on an index file that another process has cut is, for the operations that drop the error of
  \<^verbatim>\<open>LoadIndex\<close> (\<^verbatim>\<open>Lookup\<close>, \<^verbatim>\<open>SelectIDS\<close>, \<^verbatim>\<open>Echoes\<close>), treated like an error.

  \<^bold>\<open>Not modelled.\<close> The templates under \<^verbatim>\<open>tpl\<close>; HTTP headers beyond the cookie; the flags on the command line; the files
  under \<^verbatim>\<open>lib\<close>, which the standard library serves; the network connection of \<^verbatim>\<open>whois_query\<close>; the language of the templates of \<^verbatim>\<open>ii-tool template\<close>, which is an argument of
  \<open>cmd_template\<close>, and the reading of its command line; \<^verbatim>\<open>contrib/secure\<close>, a proxy put together from the standard
  library; logging (\<^verbatim>\<open>ii/log.go\<close>).
\<close>
section \<open>Sample data for the witnesses\<close>

definition ex_id :: string where "ex_id = ''0123456789abcdefghij''"
definition ex_id2 :: string where "ex_id2 = ''ABCDEFGHIJ0123456789''"

definition ex_msg :: Msg where
  "ex_msg = \<lparr>m_MsgId = ex_id, m_Tags = nil_tags, m_Echo = ''ii.test'', m_Date = 5, m_From = ''anna'',
     m_Addr = ''n,1'', m_To = ''All'', m_Subj = ''s'', m_Text = ''hi''\<rparr>"

definition ex_msg2 :: Msg where
  "ex_msg2 = ex_msg\<lparr>m_MsgId := ex_id2, m_From := ''bert''\<rparr>"

definition ex_db :: DB where
  "ex_db = \<lparr>db_bundle = NoFile, db_index = NoFile, db_Idx = nil_index, db_Name = ''node''\<rparr>"

definition ex_db1 :: DB where
  "ex_db1 = ex_db\<lparr>db_bundle := File (bundle_text [ex_msg])\<rparr>"

lemma ex_storable: "storable ex_msg" "storable ex_msg2" "storable (filled n ex_msg)" "storable (filled n ex_msg2)"
  "filled n ex_msg = ex_msg" "filled n ex_msg2 = ex_msg2"
  by (simp_all add: storable_def bundle_ok_def indexable_def ex_msg_def ex_msg2_def ex_id_def ex_id2_def filled_def
      stamped_def IsMsgId_def line_ok_def IsEcho_def Tags_String_def nil_tags_def Msg_tag_val_def Msg_Tag_def
      Tags_Get_def Tags_val_def in_range_def Contains_def tags_ok_def)

lemma ex_length: "length (bundle_text [ex_msg]) < 100" "length (bundle_text [ex_msg, ex_msg2]) < 200"
  by (simp_all add: msg_line_def StdEncode_def length_b64_enc Msg_String_def ex_msg_def ex_msg2_def ex_id_def ex_id2_def
      Tags_String_def nil_tags_def itoa_def utoa.simps)

lemma ex_db_rep: "db_rep ex_db []" "db_rep ex_db1 [ex_msg]"
  using ex_length(1) ex_storable
  by (auto simp: db_rep_def ex_db_def ex_db1_def holds_text_def mem_rep_def nil_index_def simp del: bundle_text_simps)
     (simp_all add: bundle_text_def)

lemma msgline_std:
  assumes "length (StdEncode s) \<le> 65536"
  shows "DecodeMsgline now (StdEncode s) True = DecodeMsgline now s False"
proof -
  have "length s \<le> length (StdEncode s)" by (simp add: StdEncode_def length_b64_enc)
  then show ?thesis using assms by (simp add: DecodeMsgline_def msgline_data_def StdDecode_StdEncode)
qed

section \<open>The database keeps what it is given\<close>

text \<open>
  C1: storing a message whose id is not in the database appends it, filled in with the date and the
  id; afterwards reading that id gives the message, and reading any other id gives what it gave
  before.
\<close>

theorem Store_then_Get:
  assumes "db_rep db log" and "storable (filled now m)"
    and "int (length (bundle_text (log @ [filled now m]))) < 2 ^ 63" and "\<not> spec_exists log (m_MsgId m)"
  shows "case Store now db m of (db', m', err) \<Rightarrow>
    err = None \<and> m' = filled now m \<and> db_rep db' (log @ [m']) \<and>
    (\<forall>k. snd (Get db' k) =
       (if k = m_MsgId m' then (if hidden (length log) m' then None else Some m') else snd (Get db k)))"
proof -
  obtain db' m' err where s: "Store now db m = (db', m', err)" by (metis prod_cases3)
  have r: "err = None" "m' = filled now m" "db_rep db' (log @ [filled now m])"
    using DB_Store_rep [OF assms(1-3), of False] s assms(4) by (auto simp: Store_def)
  then show ?thesis using s Get_rep [OF r(3)] Get_rep [OF assms(1)] by (simp add: spec_get_snoc)
qed

theorem Store_then_Get_witness:
  "case Store 7 ex_db1 ex_msg2 of (db', m', err) \<Rightarrow> snd (Get db' ex_id2) = Some ex_msg2"
proof -
  have "int (length (bundle_text ([ex_msg] @ [filled 7 ex_msg2]))) < 2 ^ 63"
    using ex_length(2) by (simp add: ex_storable del: bundle_text_simps)
  moreover have "\<not> spec_exists [ex_msg] (m_MsgId ex_msg2)"
    by (simp add: spec_exists_def ex_msg2_def ex_msg_def ex_id_def ex_id2_def)
  ultimately have "case Store 7 ex_db1 ex_msg2 of (db', m', err) \<Rightarrow>
    err = None \<and> m' = filled 7 ex_msg2 \<and> db_rep db' ([ex_msg] @ [m']) \<and>
    (\<forall>k. snd (Get db' k) = (if k = m_MsgId m' then (if hidden (length [ex_msg]) m' then None else Some m')
       else snd (Get ex_db1 k)))"
    by (intro Store_then_Get [OF ex_db_rep(2) ex_storable(4)])
  moreover have "m_MsgId ex_msg2 = ex_id2" "\<not> hidden n ex_msg2" for n
    by (simp_all add: ex_msg2_def ex_msg_def hidden_def blacklisted_def Msg_tag_val_def Tags_val_def Tags_Get_def
        nil_tags_def)
  ultimately show ?thesis by (auto simp: ex_storable split: prod.splits)
qed

text \<open>
  A message whose id is stored already is refused: the error says so, the files of the database
  still hold the same log and every read gives what it gave before.
\<close>

theorem Store_refuses_known:
  assumes "db_rep db log" and "storable (filled now m)"
    and "int (length (bundle_text (log @ [filled now m]))) < 2 ^ 63" and "spec_exists log (m_MsgId m)"
  shows "case Store now db m of (db', m', err) \<Rightarrow>
    err = Some EAlreadyExists \<and> m' = m \<and> db_rep db' log \<and> (\<forall>k. snd (Get db' k) = snd (Get db k))"
proof -
  obtain db' m' err where s: "Store now db m = (db', m', err)" by (metis prod_cases3)
  have r: "err = Some EAlreadyExists" "m' = m" "db_loaded db' log"
    using DB_Store_rep [OF assms(1-3), of False] s assms(4) by (auto simp: Store_def)
  then show ?thesis using s Get_rep [OF db_loaded_rep [OF r(3)]] Get_rep [OF assms(1)] db_loaded_rep by simp
qed

theorem Store_refuses_known_witness:
  "case Store 7 ex_db1 ex_msg of (db', m', err) \<Rightarrow> err = Some EAlreadyExists"
proof -
  have "int (length (bundle_text ([ex_msg] @ [filled 7 ex_msg]))) < 2 ^ 63"
    using ex_length(1) by (simp add: ex_storable)
  then show ?thesis
    using Store_refuses_known [OF ex_db_rep(2) ex_storable(3), of 7]
    by (auto simp: spec_exists_def split: prod.splits)
qed

text \<open>
  C2: blacklisting a message hides it from readers, keeps its id known and changes no other message.
  The database must not be empty: a mark on the first record has no effect.
\<close>

theorem Blacklist_hides:
  assumes "db_rep db log" and "log \<noteq> []"
    and "storable (filled now (m\<lparr>m_Tags := add_tag (m_Tags m) ''access/blacklist''\<rparr>))"
    and "int (length (bundle_text (log @ [filled now (m\<lparr>m_Tags := add_tag (m_Tags m) ''access/blacklist''\<rparr>)]))) < 2 ^ 63"
  shows "case Blacklist now db m of (db', m', err) \<Rightarrow>
    err = None \<and> snd (Get db' (m_MsgId m')) = None \<and> snd (Exists db' (m_MsgId m')) \<noteq> None \<and>
    (\<forall>k. k \<noteq> m_MsgId m' \<longrightarrow> snd (Get db' k) = snd (Get db k))"
proof -
  let ?m = "m\<lparr>m_Tags := add_tag (m_Tags m) ''access/blacklist''\<rparr>"
  let ?f = "filled now ?m"
  obtain db' m' err where s: "Blacklist now db m = (db', m', err)" by (metis prod_cases3)
  have r: "err = None" "m' = ?f" "db_rep db' (log @ [?f])"
    using DB_Store_rep [OF assms(1,3,4), of True] s by (auto simp: Blacklist_def Edit_def)
  have "Tags_Get (add_tag (m_Tags m) ''access/blacklist'') ''access'' = Some ''blacklist''"
    using Tags_Add_Get [of "''access''" "''blacklist''" "m_Tags m" "''access''"] by simp
  then have "blacklisted ?f"
    by (simp add: blacklisted_def Msg_tag_val_def Tags_val_def filled_def stamped_def Let_def)
  then have "hidden (length log) ?f" using assms(2) by (simp add: hidden_def)
  moreover have "spec_exists (log @ [?f]) (m_MsgId ?f)" by (simp add: spec_exists_def)
  ultimately show ?thesis
    using s r Get_rep [OF r(3)] Get_rep [OF assms(1)] Exists_rep [OF r(3), of "m_MsgId ?f"]
    by (simp add: spec_get_snoc)
qed

definition ex_black :: Msg where
  "ex_black = ex_msg\<lparr>m_Tags := add_tag (m_Tags ex_msg) ''access/blacklist''\<rparr>"

lemma ex_black_eq: "ex_black = ex_msg\<lparr>m_Tags := \<lparr>tg_Hash = Some [''access'' \<mapsto> ''blacklist''], tg_List = [''access'']\<rparr>\<rparr>"
  by (simp add: ex_black_def ex_msg_def add_tag_def Tags_Add_def nil_tags_def)

lemma ex_black_ok: "storable (filled n ex_black)" "length (bundle_text [ex_msg, filled n ex_black]) < 300"
  by (simp_all add: ex_black_eq storable_def bundle_ok_def indexable_def ex_msg_def ex_id_def filled_def
      stamped_def IsMsgId_def line_ok_def IsEcho_def Tags_String_def nil_tags_def Msg_tag_val_def Msg_Tag_def
      Tags_Get_def Tags_val_def in_range_def Contains_def tags_ok_def no_lead_def no_trail_def
      TrimSuffix_def HasSuffix_def msg_line_def StdEncode_def length_b64_enc Msg_String_def itoa_def utoa.simps)

theorem Blacklist_hides_witness:
  "case Blacklist 7 ex_db1 ex_msg of (db', m', err) \<Rightarrow> err = None \<and> snd (Get db' (m_MsgId m')) = None"
proof -
  have "int (length (bundle_text ([ex_msg] @ [filled 7 ex_black]))) < 2 ^ 63"
    using ex_black_ok(2) [of 7] by (simp del: bundle_text_simps)
  then show ?thesis
    using Blacklist_hides [OF ex_db_rep(2), of 7 ex_msg] ex_black_ok(1)
    by (auto simp: ex_black_def split: prod.splits)
qed

text \<open>
  C3: the index is a cache of the message file. If the index file is deleted, the next load writes
  the file that storing the messages one by one had left, and every read gives the same message.
\<close>

theorem index_rebuilt_same:
  assumes "db_rep db log"
  shows "case LoadIndex (db\<lparr>db_index := NoFile\<rparr>) of (db', err) \<Rightarrow>
    err = None \<and> db_index db' = db_index (fst (LoadIndex db)) \<and>
    ix_List (db_Idx db') = ix_List (db_Idx (fst (LoadIndex db))) \<and>
    (\<forall>k. snd (Get db' k) = snd (Get db k))"
proof -
  have rep: "db_rep (db\<lparr>db_index := NoFile\<rparr>) log" using assms by (simp add: db_rep_def)
  obtain d ix where l: "LoadIndex (db\<lparr>db_index := NoFile\<rparr>) = (d, None)" "db_index d = File (index_text log)"
      "db_loaded d log"
    using LoadIndex_rep [OF rep] by auto
  obtain d0 where l0: "LoadIndex db = (d0, None)" "db_index d0 = File (index_text log)" "db_loaded d0 log"
    using LoadIndex_rep [OF assms] by auto
  have "ix_List (db_Idx d) = ix_List (db_Idx d0)"
    using l(3) l0(3) mem_loaded_List [of "db_Idx d" log] mem_loaded_List [of "db_Idx d0" log]
    by (simp add: db_loaded_def)
  then show ?thesis using l l0 Get_rep [OF db_loaded_rep [OF l(3)]] Get_rep [OF assms] by simp
qed

theorem index_rebuilt_same_witness:
  "case LoadIndex (ex_db1\<lparr>db_index := NoFile\<rparr>) of (db', err) \<Rightarrow> err = None"
  using index_rebuilt_same [OF ex_db_rep(2)] by (auto split: prod.splits)

text \<open>
  C4: whatever bytes the index file holds, a load that reports no error leaves an index in memory
  whose list has every key once, and whose entries know their id and their position in the list.
\<close>

theorem LoadIndex_keeps_wf:
  assumes "index_wf (db_Idx db)" and "LoadIndex db = (db', None)"
  shows "index_wf (db_Idx db')"
  by (rule LoadIndex_wf [OF assms])

theorem LoadIndex_keeps_wf_witness: "index_wf (db_Idx (fst (LoadIndex ex_db)))"
proof -
  obtain db' where "LoadIndex ex_db = (db', None)" using LoadIndex_rep [OF ex_db_rep(1)] by auto
  moreover have "index_wf (db_Idx ex_db)" by (simp add: ex_db_def)
  ultimately show ?thesis using LoadIndex_keeps_wf [of ex_db db'] by simp
qed

section \<open>Messages\<close>

lemma NewTags_ii_ok: "Tags_val (NewTags ''ii/ok'') ''ii'' = ''ok''"
  by (simp add: NewTags_def MakeTags_def Let_def Trim_def TrimLeft_def TrimRight_def Tags_val_def Tags_Get_def)

lemma add_repto_ii:
  "CHR ''/'' \<notin> set r \<Longrightarrow> Tags_val (add_tag (NewTags ''ii/ok'') (''repto/'' @ r)) ''ii'' = ''ok''"
  using Tags_Add_Get [of "''repto''" r "NewTags ''ii/ok''" "''ii''"] NewTags_ii_ok
  by (simp add: Tags_val_def)

lemma repto_piece:
  assumes "HasPrefix r ''@repto:''"
  shows "set (Split (CHR '':'') r ! 1) \<subseteq> set r"
proof -
  obtain t where "r = ''@repto'' @ CHR '':'' # t" using assms by (auto simp: HasPrefix_iff)
  then have "Split (CHR '':'') r = ''@repto'' # Split (CHR '':'') t" using Split_append by simp
  then have "1 < length (Split (CHR '':'') r)" by simp
  then show ?thesis by (intro Split_pieces_subset [of _ "CHR '':''"] nth_mem)
qed

text \<open>
  C5: a message read from a bundle line survives the way back. Whatever line was decoded, encoding the
  message and decoding the result gives the same message; only a message without a date, which is the
  date 0, gets the time of the encoding.
\<close>

theorem decode_encode_decoded:
  assumes "DecodeBundle s = Inr m" and "in64 now"
  defines "m' \<equiv> m\<lparr>m_Date := (if m_Date m = 0 then now else m_Date m)\<rparr>"
  shows "fst (Encode now m) = m' \<and> DecodeBundle (snd (Encode now m)) = Inr m'"
proof -
  have ok: "bundle_ok m" "m_MsgId m \<noteq> []" using DecodeBundle_ok [OF assms(1)] by auto
  have "m_Echo m \<noteq> []" using ok(1) IsEcho_nonempty by (auto simp: bundle_ok_def)
  then have "fst (Encode now m) = m'"
    using Encode_filled ok(2) by (simp add: filled_def stamped_def Let_def m'_def)
  then show ?thesis using DecodeBundle_Encode [OF ok(1) assms(2)] by simp
qed

theorem decode_encode_decoded_witness:
  "DecodeBundle (snd (Encode 7 ex_msg)) = Inr ex_msg \<and> snd (Encode 7 ex_msg) = msg_line ex_msg"
proof -
  have d: "DecodeBundle (msg_line ex_msg) = Inr ex_msg" using DecodeBundle_msg_line ex_storable(1) by blast
  have "DecodeBundle (snd (Encode 7 ex_msg)) = Inr ex_msg"
    using decode_encode_decoded [OF d, of 7] by (simp add: ex_msg_def in_range_def)
  moreover have "m_Echo ex_msg \<noteq> []" by (simp add: ex_msg_def)
  ultimately show ?thesis using Encode_filled [of ex_msg 7] ex_storable(5)
    by (simp add: msg_line_def stamped_def ex_msg_def)
qed

text \<open>
  A message a program builds itself, with lines that hold no line breaks, encodes to a line that
  decodes to the message with its date and id filled in.
\<close>

theorem encode_decode_built:
  assumes "bundle_ok m" and "in64 now"
  shows "DecodeBundle (snd (Encode now m)) = Inr (fst (Encode now m)) \<and> IsMsgId (m_MsgId (fst (Encode now m)))"
proof -
  have "m_Echo m \<noteq> []" using assms(1) IsEcho_nonempty by (auto simp: bundle_ok_def)
  then show ?thesis
    using DecodeBundle_Encode [OF assms] filled_MsgId [OF assms(1)] Encode_filled by simp
qed

theorem encode_decode_built_witness:
  "DecodeBundle (snd (Encode 7 (ex_msg\<lparr>m_MsgId := []\<rparr>))) = Inr (fst (Encode 7 (ex_msg\<lparr>m_MsgId := []\<rparr>)))"
  by (rule encode_decode_built [THEN conjunct1])
     (simp_all add: bundle_ok_def ex_msg_def in_range_def tags_ok_def line_ok_def IsEcho_def Tags_String_def
       nil_tags_def Msg_Tag_def Tags_Get_def)

text \<open>
  What a point's line is when it is accepted: a valid area, a subject that is more than spaces, a
  recipient, the current time, no id or author yet, and, if no line holds a slash, the tag
  \<^verbatim>\<open>ii/ok\<close>.
\<close>

theorem DecodeMsgline_accepts:
  assumes "DecodeMsgline now s enc = Inr m"
  shows "length s \<le> 65536 \<and> IsEcho (m_Echo m) \<and> m_To m \<noteq> [] \<and> IsEmptySubject (m_Subj m) \<and>
    m_Date m = now \<and> m_MsgId m = [] \<and> m_From m = [] \<and>
    (\<forall>d. msgline_data s enc = Some d \<and> CHR ''/'' \<notin> set d \<longrightarrow> Msg_tag_val m ''ii'' = ''ok'')"
proof -
  obtain d where d: "msgline_data s enc = Some d" "length (Split NL d) \<ge> 5"
    using assms by (auto simp: DecodeMsgline_def Let_def split: option.splits if_splits)
  let ?r = "Split NL d ! 4"
  have "set ?r \<subseteq> set d" using d(2) by (intro Split_pieces_subset [of _ NL]) simp
  then have "CHR ''/'' \<notin> set (Trim (Split (CHR '':'') ?r ! 1) '' '')"
    if "CHR ''/'' \<notin> set d" "HasPrefix ?r ''@repto:''"
    using that set_Trim repto_piece [OF that(2)] by blast
  then have "Tags_val (add_tag (NewTags ''ii/ok'') (''repto/'' @ Trim (Split (CHR '':'') ?r ! 1) '' '')) ''ii'' = ''ok''"
    if "CHR ''/'' \<notin> set d" "HasPrefix ?r ''@repto:''"
    using that add_repto_ii by blast
  then show ?thesis
    using assms d NewTags_ii_ok
    by (auto simp: DecodeMsgline_def Let_def Msg_tag_val_def split: option.splits if_splits)
qed

theorem DecodeMsgline_accepts_witness:
  "\<exists>m. DecodeMsgline 9 (''ii.test'' @ [NL, NL] @ ''subj'' @ [NL, NL] @ ''text'') False = Inr m \<and> m_To m = ''All'' \<and>
     Msg_tag_val m ''ii'' = ''ok''"
proof -
  let ?s = "''ii.test'' @ [NL, NL] @ ''subj'' @ [NL, NL] @ ''text''"
  obtain m where m: "DecodeMsgline 9 ?s False = Inr m" "m_To m = ''All''"
    by (simp add: DecodeMsgline_def msgline_data_def Let_def TrimSpace_def space_runes_def IsEcho_def Contains_def
        IsEmptySubject_def)
  have "msgline_data ?s False = Some ?s" "CHR ''/'' \<notin> set ?s" by (simp_all add: msgline_data_def)
  then show ?thesis using DecodeMsgline_accepts [OF m(1)] m by blast
qed

text \<open>
  The reply line of a point can carry any tags. What follows the id after a slash is added as
  further tags, here the mark of a blacklisted message.
\<close>

theorem repto_injects_tags:
  "\<exists>m. DecodeMsgline now (''ii.test'' @ [NL, NL] @ ''subj'' @ [NL, NL] @ ''@repto:x/access/blacklist'' @ [NL] @ ''text'') False
     = Inr m \<and> blacklisted m"
  by (simp add: DecodeMsgline_def msgline_data_def Let_def TrimSpace_def space_runes_def IsEcho_def Contains_def
      IsEmptySubject_def blacklisted_def Msg_tag_val_def Tags_val_def Tags_Get_def add_tag_def Tags_Add_def
      NewTags_def MakeTags_def Trim_def TrimLeft_def TrimRight_def)

text \<open>
  A point may send its message in either base64 alphabet: both are understood as the plain text.
\<close>

theorem point_line_alphabets:
  assumes "length (StdEncode s) \<le> 65536"
  shows "DecodeMsgline now (StdEncode s) True = DecodeMsgline now s False \<and>
    DecodeMsgline now (URLEncode s) True = DecodeMsgline now s False"
proof -
  have l: "length (URLEncode s) = length (StdEncode s)" by (simp add: URLEncode_def StdEncode_def length_b64_enc)
  have "length s \<le> length (StdEncode s)" by (simp add: StdEncode_def length_b64_enc)
  then have "length s \<le> 65536" using assms by simp
  then show ?thesis
    using assms l msgline_std [OF assms] by (simp add: DecodeMsgline_def msgline_data_def URL_or_Std)
qed

theorem point_line_alphabets_witness: "DecodeMsgline 9 (URLEncode ''~~~~'') True = DecodeMsgline 9 ''~~~~'' False"
  by (rule point_line_alphabets [THEN conjunct2]) (simp add: StdEncode_def length_b64_enc)

text \<open>The id computed for any text is a valid id, and fits in an index record.\<close>

theorem MsgId_valid: "IsMsgId (MsgId s) \<and> CHR '':'' \<notin> set (MsgId s) \<and> NL \<notin> set (MsgId s)"
  using IsMsgId_MsgId [of s] MsgId_clean [of s] by simp

text \<open>
  Tags that were parsed print and parse to themselves: the text they were parsed from may differ
  in surrounding spaces only by what was cut off.
\<close>

theorem tags_roundtrip:
  assumes "MakeTags s = Inr t"
  shows "MakeTags (Tags_String t) = Inr t"
  using MakeTags_Tags_String MakeTags_ok assms by blast

theorem tags_roundtrip_witness:
  "MakeTags (Tags_String (NewTags ''a/1/b/2'')) = Inr (NewTags ''a/1/b/2'')"
proof -
  obtain t where t: "MakeTags ''a/1/b/2'' = Inr t"
    by (simp add: MakeTags_def Let_def Trim_def TrimLeft_def TrimRight_def)
  then show ?thesis using tags_roundtrip [OF t] by (simp add: NewTags_def)
qed

text \<open>
  Adding a tag sets its value, leaves every other value, and keeps tags that can be printed and
  parsed again so.
\<close>

theorem tag_added:
  assumes "tags_ok t" and "CHR ''/'' \<notin> set k" "CHR ''/'' \<notin> set v" and "no_lead k" "no_trail v"
  shows "Tags_Get (add_tag t (k @ ''/'' @ v)) k' = (if k' = k then Some v else Tags_Get t k') \<and>
    MakeTags (Tags_String (add_tag t (k @ ''/'' @ v))) = Inr (add_tag t (k @ ''/'' @ v))"
  using Tags_Add_Get [OF assms(2,3)] MakeTags_Tags_String [OF tags_ok_Add [OF assms]] by simp

theorem tag_added_witness: "Tags_Get (add_tag nil_tags (''a'' @ ''/'' @ ''1'')) ''a'' = Some ''1''"
  using tag_added [of nil_tags "''a''" "''1''" "''a''"] by (simp add: no_lead_def no_trail_def)

section \<open>The node\<close>

definition ex_user :: User where
  "ex_user = \<lparr>us_Id = 1, us_Name = ''anna'', us_Mail = ''a@b.c'', us_Secret = ''0123456789'', us_Tags = nil_tags\<rparr>"

definition ex_udb :: UDB where "ex_udb = OpenUsers (File (users_text [ex_user])) None"

definition ex_node :: Node where
  "ex_node = \<lparr>nd_db = ex_db1, nd_edb = nil_edb, nd_udb = ex_udb\<rparr>"

definition ex_point_line :: string where
  "ex_point_line = ''ii.test'' @ [NL, NL] @ ''subj'' @ [NL, NL] @ ''text''"

definition no_regexp :: "string \<Rightarrow> (string \<Rightarrow> bool) option" where "no_regexp s = None"

lemma ex_users: "users_ok [ex_user]" "udb_rep ex_udb [ex_user]"
proof -
  show "users_ok [ex_user]"
    by (simp add: users_ok_def user_ok_def ex_user_def field_ok_def in_range_def Tags_String_def nil_tags_def tags_ok_def)
  then show "udb_rep ex_udb [ex_user]"
    using users_text_pos [of "[ex_user]"] by (simp add: udb_rep_def ex_udb_def OpenUsers_def holds_text_def)
qed

lemma ex_point_decoded: "\<exists>m. DecodeMsgline 9 (StdEncode ex_point_line) True = Inr m \<and> m_Echo m = ''ii.test'' \<and> Msg_tag_val m ''repto'' = []"
proof -
  have "length (StdEncode ex_point_line) \<le> 65536" by (simp add: StdEncode_def length_b64_enc ex_point_line_def)
  then show ?thesis
    unfolding msgline_std [OF \<open>length (StdEncode ex_point_line) \<le> 65536\<close>]
    by (simp add: ex_point_line_def DecodeMsgline_def msgline_data_def Let_def TrimSpace_def
      space_runes_def IsEcho_def Contains_def IsEmptySubject_def Msg_tag_val_def
      Tags_val_def Tags_Get_def NewTags_def MakeTags_def Trim_def TrimLeft_def TrimRight_def)
qed

text \<open>
  C6: what the node answers to a point with a valid secret and a line that decodes: it refuses a reply
  to a message it does not show, an account over its limit, and an area the point may not write to; it
  accepts everything else. The superuser may write everywhere.
\<close>

theorem PointMsg_decides:
  assumes "db_rep (nd_db node) log" and "udb_rep (nd_udb node) us" and "distinct (map us_Secret us)"
    and "u \<in> set us" and "DecodeMsgline now tmsg True = Inr m"
  shows "snd (PointMsg compile now node (us_Secret u) tmsg) = point_reply log node u m"
  using PointMsg_known [OF assms(1,2) UserInfo_secret [OF assms(2,4) refl assms(3)] assms(5), of compile] by auto

theorem PointMsg_decides_witness:
  "snd (PointMsg no_regexp 9 ex_node ''0123456789'' (StdEncode ex_point_line)) = None"
proof -
  obtain m where m: "DecodeMsgline 9 (StdEncode ex_point_line) True = Inr m" "Msg_tag_val m ''repto'' = []"
    using ex_point_decoded by blast
  have "snd (PointMsg no_regexp 9 ex_node (us_Secret ex_user) (StdEncode ex_point_line)) = point_reply [ex_msg] ex_node ex_user m"
    by (rule PointMsg_decides [of _ _ "[ex_user]"]) (simp_all add: ex_node_def ex_db_rep ex_users m del: bundle_text_simps)
  then show ?thesis
    using m(2) by (simp add: point_reply_def may_post_def EDB_Access_def ex_node_def nil_edb_def ex_user_def
        Tags_val_def Tags_Get_def nil_tags_def)
qed

text \<open>
  C7: what is stored for a point is the decoded line with the author and the address of the owner of
  the secret, whatever the line says; the log grows by that one message.
\<close>

theorem PointMsg_stores:
  assumes "db_rep (nd_db node) log" and "udb_rep (nd_udb node) us"
    and "PointMsg compile now node pauth tmsg = (node', None)"
  shows "\<exists>u m. u \<in> set us \<and> us_Secret u = pauth \<and> DecodeMsgline now tmsg True = Inr m \<and>
    point_reply log node u m = None \<and> m_From (point_msg node u m) = us_Name u \<and>
    (storable (filled now (point_msg node u m)) \<and>
       int (length (bundle_text (log @ [filled now (point_msg node u m)]))) < 2 ^ 63 \<longrightarrow>
     db_rep (nd_db node') (log @ [filled now (point_msg node u m)]))"
proof -
  obtain u m db m' where p: "u \<in> set us" "us_Secret u = pauth" "DecodeMsgline now tmsg True = Inr m"
      "Msg_tag_val m ''repto'' \<noteq> [] \<longrightarrow> spec_get log (Msg_tag_val m ''repto'') \<noteq> None"
      "may_post log u (us_Name u)" "EDB_Access (nd_edb node) (point_msg node u m) \<or> us_Id u = 1"
      "db_rep db log" "Store now db (point_msg node u m) = (nd_db node', m', None)"
    using PointMsg_log [OF assms] by auto
  have "point_reply log node u m = None" using p by (auto simp: point_reply_def)
  moreover have "db_rep (nd_db node') (log @ [filled now (point_msg node u m)])"
    if "storable (filled now (point_msg node u m))"
      "int (length (bundle_text (log @ [filled now (point_msg node u m)]))) < 2 ^ 63"
    using DB_Store_rep [OF p(7) that, of False] p(8) by (auto simp: Store_def split: if_splits)
  ultimately show ?thesis using p(1-3) by (intro exI [of _ u] exI [of _ m]) (simp add: point_msg_def)
qed

theorem PointMsg_stores_witness:
  "\<exists>m. point_reply [ex_msg] ex_node ex_user m = None \<and> m_From (point_msg ex_node ex_user m) = ''anna''"
proof -
  obtain m where m: "DecodeMsgline 9 (StdEncode ex_point_line) True = Inr m" "Msg_tag_val m ''repto'' = []"
    using ex_point_decoded by blast
  have u: "UserInfo (fst (LoadUsers no_regexp (nd_udb ex_node))) (us_Secret ex_user) = Some ex_user"
    by (rule UserInfo_secret [of _ "[ex_user]"]) (simp_all add: ex_node_def ex_users)
  have rep: "db_rep (nd_db ex_node) [ex_msg]" "udb_rep (nd_udb ex_node) [ex_user]"
    by (simp_all add: ex_node_def ex_db_rep ex_users)
  obtain node' where "PointMsg no_regexp 9 ex_node (us_Secret ex_user) (StdEncode ex_point_line) =
      (node', point_reply [ex_msg] ex_node ex_user m)"
    using PointMsg_known [OF rep u m(1)] by blast
  moreover have "point_reply [ex_msg] ex_node ex_user m = None"
    using m(2) by (simp add: point_reply_def may_post_def EDB_Access_def ex_node_def nil_edb_def ex_user_def
        Tags_val_def Tags_Get_def nil_tags_def)
  ultimately have "PointMsg no_regexp 9 ex_node (us_Secret ex_user) (StdEncode ex_point_line) = (node', None)" by simp
  from PointMsg_stores [OF rep this] show ?thesis by (auto simp: ex_user_def)
qed

text \<open>
  A refused post changes nothing a reader could see: the database still represents the same log.
  Without a secret of the user file the answer is that access is denied.
\<close>

theorem PointMsg_refuses:
  assumes "db_rep (nd_db node) log" and "udb_rep (nd_udb node) us"
    and "PointMsg compile now node pauth tmsg = (node', reply)" and "pauth \<notin> us_Secret ` set us \<or> reply \<noteq> None"
  shows "db_rep (nd_db node') log \<and> reply \<noteq> None \<and> (pauth \<notin> us_Secret ` set us \<longrightarrow> reply = Some EAccessDenied)"
proof -
  have l: "case reply of Some e \<Rightarrow> db_rep (nd_db node') log
     | None \<Rightarrow> \<exists>u. u \<in> set us \<and> us_Secret u = pauth"
    using PointMsg_log [OF assms(1-3)] by (auto split: option.splits)
  have "reply = Some EAccessDenied" if "pauth \<notin> us_Secret ` set us"
  proof -
    have "udb_loaded (fst (LoadUsers compile (nd_udb node))) us" using LoadUsers_rep [OF assms(2)] by blast
    from UserInfo_loaded [OF this, of pauth] that have "\<not> UDB_Access (fst (LoadUsers compile (nd_udb node))) pauth"
      by (auto split: option.splits)
    then show ?thesis using assms(3) by (simp add: PointMsg_def load_users_rep [OF assms(2)])
  qed
  then show ?thesis using l assms(4) by (auto split: option.splits)
qed

theorem PointMsg_refuses_witness:
  "snd (PointMsg no_regexp 9 ex_node ''wrong'' (StdEncode ex_point_line)) = Some EAccessDenied"
proof -
  obtain node' reply where p: "PointMsg no_regexp 9 ex_node ''wrong'' (StdEncode ex_point_line) = (node', reply)" by fastforce
  have "db_rep (nd_db ex_node) [ex_msg]" "udb_rep (nd_udb ex_node) [ex_user]"
    by (simp_all add: ex_node_def ex_db_rep ex_users)
  from PointMsg_refuses [OF this p] show ?thesis by (simp add: p ex_user_def)
qed

text \<open>
  C8: \<^verbatim>\<open>/u/m/\<close> writes, for the ids asked for, the stored lines of the messages that are
  shown and in no private area, and nothing else.
\<close>

theorem um_public:
  assumes "db_rep db log"
  shows "snd (handle_um path db) = shown_bundles log (\<lambda>m. \<not> IsPrivate (m_Echo m)) (Split (CHR ''/'') path)"
  using um_ids_log [OF assms, of "\<lambda>info. \<not> IsPrivate (mi_Echo info)" "\<lambda>m. \<not> IsPrivate (m_Echo m)"
      "Split (CHR ''/'') path"]
  by (auto simp: handle_um_def)

theorem um_public_witness: "snd (handle_um ex_id ex_db1) = msg_line ex_msg @ [NL]"
proof -
  have "Split (CHR ''/'') ex_id = [ex_id]" by (rule Split_no_sep) (simp add: ex_id_def)
  moreover have "spec_get [ex_msg] ex_id = Some ex_msg"
    by (simp add: spec_get_def newest_def ex_msg_def hidden_def)
  moreover have "\<not> IsPrivate (m_Echo ex_msg)" by (simp add: ex_msg_def IsPrivate_def)
  ultimately show ?thesis using um_public [OF ex_db_rep(2), of ex_id] by (simp add: shown_bundles_def)
qed

text \<open>
  C9: \<^verbatim>\<open>/u/point/<secret>/u/m/\<close> writes the stored lines of the messages that are shown and
  that the owner of the secret may read, and nothing else; with any other secret it writes nothing.
\<close>

theorem point_reads:
  assumes "db_rep (nd_db node) log" and "udb_rep (nd_udb node) us" and "distinct (map us_Secret us)"
    and "Split (CHR ''/'') path = pauth # ''u'' # ''m'' # ids"
  shows "fst (snd (handle_point compile now path node)) =
    Inr (case find (\<lambda>u. us_Secret u = pauth) us of None \<Rightarrow> [] | Some u \<Rightarrow> shown_bundles log (may_read u) ids)"
proof (cases "find (\<lambda>u. us_Secret u = pauth) us")
  case None
  then have "pauth \<notin> us_Secret ` set us" by (auto simp: find_None_iff)
  moreover have "udb_loaded (fst (LoadUsers compile (nd_udb node))) us" using LoadUsers_rep [OF assms(2)] by blast
  ultimately have "\<not> UDB_Access (fst (LoadUsers compile (nd_udb node))) pauth"
    using UserInfo_loaded [of "fst (LoadUsers compile (nd_udb node))" us pauth] by (auto split: option.splits)
  then show ?thesis using None assms(4) by (simp add: handle_point_def load_users_rep [OF assms(2)] Let_def)
next
  case (Some u)
  then have u: "u \<in> set us" "us_Secret u = pauth" by (auto simp: find_Some_iff)
  have ui: "UserInfo (fst (LoadUsers compile (nd_udb node))) pauth = Some u"
    by (rule UserInfo_secret [OF assms(2) u assms(3)])
  then have "UDB_Access (fst (LoadUsers compile (nd_udb node))) pauth"
    by (auto simp: UserInfo_def UDB_Access_def)
  moreover obtain db' where "um_ids (\<lambda>info. Access info u) ids (nd_db node) = (db', shown_bundles log (may_read u) ids)"
    using um_ids_log [OF assms(1), of "\<lambda>info. Access info u" "may_read u" ids] Access_may_read by blast
  ultimately show ?thesis using ui Some assms(4) by (simp add: handle_point_def load_users_rep [OF assms(2)] Let_def)
qed

theorem point_reads_witness:
  "fst (snd (handle_point no_regexp 9 ''0123456789/u/m/x'' ex_node)) = Inr []"
proof -
  have "fst (snd (handle_point no_regexp 9 ''0123456789/u/m/x'' ex_node)) =
      Inr (case find (\<lambda>u. us_Secret u = ''0123456789'') [ex_user] of None \<Rightarrow> []
           | Some u \<Rightarrow> shown_bundles [ex_msg] (may_read u) [''x''])"
    by (rule point_reads) (simp_all add: ex_node_def ex_db_rep ex_users del: bundle_text_simps)
  then show ?thesis by (simp add: ex_user_def shown_bundles_def spec_get_def newest_def ex_msg_def ex_id_def)
qed

text \<open>
  \<^verbatim>\<open>/u/e/\<close> writes for every valid area asked for its name and the slice of its ids, as the
  log and the public view of it determine them.
\<close>

theorem ue_slices:
  assumes "db_rep db log"
  shows "snd (handle_ue path db) = Inr
    (let es = Split (CHR ''/'') path;
         (idx, lim, es) = (case sscan_dd (last es) of (Some i, Some l) \<Rightarrow> (i, l, butlast es) | _ \<Rightarrow> (0, 0, es))
     in concat (map (\<lambda>e. print_lines (e # log_slice log (nil_query\<lparr>q_Echo := e, q_Start := idx, q_Lim := lim\<rparr>)))
          (filter IsEcho es)))"
proof -
  have q: "nil_query\<lparr>q_Echo := e, q_Start := i, q_Lim := l, q_User := nil_user\<rparr> =
      nil_query\<lparr>q_Echo := e, q_Start := i, q_Lim := l\<rparr>" for e i l
    by (simp add: nil_query_def)
  have "snd (ue_echoes db nil_user i l es) = Inr (concat (map (\<lambda>e. print_lines (e # log_slice log
      (nil_query\<lparr>q_Echo := e, q_Start := i, q_Lim := l\<rparr>))) (filter IsEcho es)))" for i l es
    using ue_echoes_log [OF assms, of nil_user i l es] unfolding q by auto
  then show ?thesis by (auto simp: handle_ue_def get_ue_def Let_def split: prod.split option.split)
qed

theorem ue_slices_witness: "snd (handle_ue ''no-echo'' ex_db1) = Inr []"
  using ue_slices [OF ex_db_rep(2), of "''no-echo''"]
  by (simp add: IsEcho_def Contains_def Let_def split: prod.split option.split)



section \<open>Selections, areas and threads\<close>

text \<open>
  C11: a selection is the slice of the ids in the order they were first stored that the query accepts:
  a negative start counts from the end, a limit cuts the slice.
\<close>

theorem select_slice:
  assumes "db_rep db log" and "\<not> q_Invert q" "q_Skip q = 0" "q_Count q = 0" "q_Match q = None"
  shows "snd (SelectIDS db q) = Inr
    (limited (q_Lim q)
      (let ids = filter (\<lambda>mid. case log_info log mid of None \<Rightarrow> False | Some info \<Rightarrow> base_match info q)
                   (first_occurrences (map m_MsgId log)) in
       if q_Start q < 0 then drop (length ids - nat (- q_Start q)) ids else drop (nat (q_Start q)) ids))"
  using SelectIDS_log [OF assms] by (auto simp: log_slice_def log_ids_def last_n_def Let_def)

theorem select_slice_witness: "snd (SelectIDS ex_db1 (nil_query\<lparr>q_Start := -1, q_Lim := 1\<rparr>)) = Inr [ex_id]"
proof -
  have "\<not> hidden 0 ex_msg" by (simp add: hidden_def)
  have n: "newest [ex_msg] ex_id = Some (0, ex_msg)" by (simp add: newest_def ex_msg_def)
  have m: "base_match (minfo ex_msg (signed_off ex_msg (msg_off [ex_msg] 0))) (nil_query\<lparr>q_Start := -1, q_Lim := 1\<rparr>)"
    by (simp add: base_match_def nil_query_def signed_off_def Access_def IsPrivate_def ex_msg_def)
  have "first_occurrences (map m_MsgId [ex_msg]) = [ex_id]" by (simp add: first_occurrences_def add_new_def ex_msg_def)
  then show ?thesis
    using select_slice [OF ex_db_rep(2), of "nil_query\<lparr>q_Start := -1, q_Lim := 1\<rparr>"] n m
    by (simp add: nil_query_def log_info_def limited_def)
qed

text \<open>
  A counted query skips its first matches and stops after its count, over the whole log, oldest
  first; a negative count matches nothing.
\<close>

theorem select_counted:
  assumes "db_rep db log" and "\<not> q_Invert q" "0 \<le> q_Skip q" "q_Match q = None" and "q_Start q = 0" "q_Lim q \<le> 0"
  shows "snd (SelectIDS db q) = Inr (counted (q_Skip q) (q_Count q) (log_ids log q))"
proof -
  obtain db' h where s: "SelectIDS db q = (db', Inr (slice h (first_occurrences (map m_MsgId log)) q))"
      "db_loaded db' log" "ix_Hash (db_Idx db') = Some h" "table_wf h (first_occurrences (map m_MsgId log))"
    using SelectIDS_rep [OF assms(1)] by blast
  have "base_ok h q = (\<lambda>mid. case log_info log mid of None \<Rightarrow> False | Some info \<Rightarrow> base_match info q)"
    using base_ok_log [of "db_Idx db'" log h q] s(2,3) assms(4) by (auto simp: db_loaded_def)
  moreover have "set (first_occurrences (map m_MsgId log)) \<subseteq> dom h" using s(4) by (simp add: table_wf_def)
  ultimately show ?thesis
    using s(1) run_match_counted [OF _ assms(2,3)] assms(5,6) by (simp add: slice_def limited_def log_ids_def)
qed

theorem select_counted_witness: "snd (SelectIDS ex_db1 (nil_query\<lparr>q_Skip := 1\<rparr>)) = Inr []"
proof -
  have "length (log_ids [ex_msg] (nil_query\<lparr>q_Skip := 1\<rparr>)) \<le> 1"
    by (simp add: log_ids_def first_occurrences_def add_new_def)
  then show ?thesis
    using select_counted [OF ex_db_rep(2), of "nil_query\<lparr>q_Skip := 1\<rparr>"]
    by (simp add: nil_query_def counted_def)
qed

lemma mem_loaded_info:
  "mem_loaded ix log \<Longrightarrow> ix_Hash ix = Some h \<Longrightarrow> log_info log mid = map_option mi_view (h mid)"
  using mem_loaded_get [of ix log mid] by (simp add: log_info_def)

lemma echo_seen_log:
  assumes "mem_loaded ix log" "ix_Hash ix = Some h"
  shows "(echo_seen h names (nil_query\<lparr>q_User := u\<rparr>) mid \<longleftrightarrow>
      (\<exists>m. spec_get log mid = Some m \<and> may_read u m \<and> (\<forall>ns. names = Some ns \<longrightarrow> m_Echo m \<in> set ns))) \<and>
    (\<forall>m. spec_get log mid = Some m \<longrightarrow>
      mi_Echo (the (h mid)) = m_Echo m \<and> mi_Repto (the (h mid)) = Msg_tag_val m ''repto'')"
proof (cases "h mid")
  case None
  then have "log_info log mid = None" using mem_loaded_info [OF assms, of mid] by simp
  then have "newest log mid = None" by (cases "newest log mid") (auto simp: log_info_def)
  then show ?thesis using None by (simp add: echo_seen_def spec_get_def)
next
  case (Some info)
  then have "log_info log mid = Some (mi_view info)" using mem_loaded_info [OF assms, of mid] by simp
  then obtain i m where n: "newest log mid = Some (i, m)"
      and v: "mi_view info = minfo m (signed_off m (msg_off log i))"
    by (cases "newest log mid") (auto simp: log_info_def)
  have f: "mi_Off info = signed_off m (msg_off log i)" "mi_Echo info = m_Echo m" "mi_To info = m_To m"
      "mi_From info = m_From m" "mi_Repto info = Msg_tag_val m ''repto''"
    using arg_cong [OF v, of mi_Off] arg_cong [OF v, of mi_Echo] arg_cong [OF v, of mi_To]
      arg_cong [OF v, of mi_From] arg_cong [OF v, of mi_Repto] by simp_all
  have "hidden i m \<longleftrightarrow> mi_Off info < 0" using signed_off_hidden [of i log m] newest_Some [OF n] f(1) by simp
  moreover have "Access info u = may_read u m" using Access_may_read f by blast
  moreover have "base_match info (nil_query\<lparr>q_User := u\<rparr>) \<longleftrightarrow> 0 \<le> mi_Off info \<and> Access info u"
    by (auto simp: base_match_def nil_query_def)
  ultimately show ?thesis
    using Some n f by (auto simp: echo_seen_def spec_get_def split: option.splits)
qed

text \<open>
  The counts of an area in the list of areas are the number of messages the user may read in it
  and how many of them answer nothing, each id counted once in its newest version.
\<close>

theorem echo_counts:
  assumes "db_rep db log" and "v \<in> set (snd (Echoes order db names (nil_query\<lparr>q_User := u\<rparr>)))"
  shows "let ms = filter (\<lambda>m. m_Echo m = ec_Name v \<and> may_read u m)
                  (List.map_filter (spec_get log) (first_occurrences (map m_MsgId log)))
         in ec_Count v = length ms \<and> ec_Topics v = length (filter (\<lambda>m. Msg_tag_val m ''repto'' = []) ms) \<and> 0 < ec_Count v"
proof -
  let ?q = "nil_query\<lparr>q_User := u\<rparr>" and ?ids = "first_occurrences (map m_MsgId log)"
  obtain db' where l: "LoadIndex db = (db', None)" "db_loaded db' log" using LoadIndex_rep [OF assms(1)] by auto
  have ml: "mem_loaded (db_Idx db') log" using l(2) by (simp add: db_loaded_def)
  then obtain h where h1: "ix_Hash (db_Idx db') = Some h" unfolding mem_loaded_def by blast
  note h = h1 ml mem_loaded_List [OF ml]
  have "area (echo_infos h names ?q ?ids) (ec_Name v) = Some (v\<lparr>ec_Msg := nil_msg\<rparr>)"
    using Echoes_summaries [OF _ _ _ l(1) h(1) assms(2)] h(3) by (simp add: nil_query_def)
  then obtain ls where ls: "ls = filter (\<lambda>i. mi_Echo i = ec_Name v) (echo_infos h names ?q ?ids)" "ls \<noteq> []"
      "ec_Count v = length ls" "ec_Topics v = length (filter (\<lambda>i. mi_Repto i = []) ls)"
    by (cases v) (auto simp: area_def Let_def split: if_splits)
  from ls(2) obtain mid0 where m0: "echo_seen h names ?q mid0" "mi_Echo (the (h mid0)) = ec_Name v"
    unfolding ls(1) by (auto simp: filter_empty_conv echo_infos_def)
  then have names: "\<forall>ns. names = Some ns \<longrightarrow> ec_Name v \<in> set ns"
    using echo_seen_log [OF h(2,1), of names u mid0] by auto
  let ?ms = "\<lambda>ids. filter (\<lambda>m. m_Echo m = ec_Name v \<and> may_read u m) (List.map_filter (spec_get log) ids)"
  have "map mi_Repto (filter (\<lambda>i. mi_Echo i = ec_Name v) (echo_infos h names ?q ids)) =
      map (\<lambda>m. Msg_tag_val m ''repto'') (?ms ids)" for ids
  proof (induction ids)
    case (Cons mid ids)
    then show ?case
      using echo_seen_log [OF h(2,1), of names u mid] names
      by (cases "spec_get log mid") (auto simp: echo_infos_def map_filter_simps)
  qed (simp add: echo_infos_def map_filter_simps)
  then have e: "map mi_Repto ls = map (\<lambda>m. Msg_tag_val m ''repto'') (?ms ?ids)" by (simp add: ls(1))
  have "length (filter (\<lambda>i. mi_Repto i = []) ls) = length (filter (\<lambda>r. r = []) (map mi_Repto ls))"
    by (simp add: filter_map comp_def)
  also have "\<dots> = length (filter (\<lambda>m. Msg_tag_val m ''repto'' = []) (?ms ?ids))"
    unfolding e by (simp add: filter_map comp_def)
  finally have t: "length (filter (\<lambda>i. mi_Repto i = []) ls) = length (filter (\<lambda>m. Msg_tag_val m ''repto'' = []) (?ms ?ids))" .
  have c: "ec_Count v = length (?ms ?ids)" using arg_cong [OF e, of length] ls(3) by simp
  have n: "0 < ec_Count v" using ls(2,3) by simp
  show ?thesis unfolding Let_def by (intro conjI c n trans [OF ls(4) t])
qed

theorem echo_counts_witness:
  "\<exists>v. v \<in> set (snd (Echoes (\<lambda>ks. ks) ex_db1 None (nil_query\<lparr>q_User := nil_user\<rparr>))) \<and> 0 < ec_Count v"
proof -
  let ?q = "nil_query\<lparr>q_User := nil_user\<rparr>" and ?ids = "first_occurrences (map m_MsgId [ex_msg])"
  obtain db' where l: "LoadIndex ex_db1 = (db', None)" "db_loaded db' [ex_msg]" using LoadIndex_rep [OF ex_db_rep(2)] by auto
  have ml: "mem_loaded (db_Idx db') [ex_msg]" using l(2) by (simp add: db_loaded_def)
  then obtain h where h: "ix_Hash (db_Idx db') = Some h" unfolding mem_loaded_def by blast
  have "spec_get [ex_msg] ex_id = Some ex_msg" "may_read nil_user ex_msg"
    by (simp_all add: spec_get_def newest_def ex_msg_def hidden_def may_read_def IsPrivate_def)
  then have "echo_seen h None ?q ex_id" using echo_seen_log [OF ml h, of None nil_user ex_id] by blast
  then have i: "echo_infos h None ?q ?ids = [the (h ex_id)]"
    by (simp add: echo_infos_def first_occurrences_def add_new_def ex_msg_def)
  have "Echoes (\<lambda>ks. ks) ex_db1 None ?q = (db', sort_key (\<lambda>v. - m_Date (ec_Msg v))
      (map (echo_msg db') (List.map_filter (area [the (h ex_id)]) (first_occurrences (map mi_Echo [the (h ex_id)])))))"
    using Echoes_plain [OF _ _ _ l(1) h, of ?q "\<lambda>ks. ks" None] i mem_loaded_List [OF ml]
    by (simp add: nil_query_def Let_def)
  moreover have "List.map_filter (area [the (h ex_id)]) (first_occurrences (map mi_Echo [the (h ex_id)])) \<noteq> []"
    by (simp add: first_occurrences_def add_new_def map_filter_simps area_def Let_def)
  ultimately have "snd (Echoes (\<lambda>ks. ks) ex_db1 None ?q) \<noteq> []"
    using length_sort [of "\<lambda>v. - m_Date (ec_Msg v)"] by (metis length_0_conv map_is_Nil_conv snd_conv)
  then obtain v where v: "v \<in> set (snd (Echoes (\<lambda>ks. ks) ex_db1 None ?q))" using list.set_sel(1) by blast
  then show ?thesis using echo_counts [OF ex_db_rep(2) v] by (auto simp: Let_def)
qed

definition ex_mi :: "nat \<Rightarrow> string \<Rightarrow> string \<Rightarrow> string \<Rightarrow> MsgInfo" where
  "ex_mi n mid e r = \<lparr>mi_Num = n, mi_Id = mid, mi_Echo = e, mi_To = ''All'', mi_Off = 0, mi_Repto = r,
     mi_From = ''anna'', mi_Topic = []\<rparr>"

definition ex_tree :: "string \<rightharpoonup> MsgInfo" where
  "ex_tree = [''A'' \<mapsto> ex_mi 1 ''A'' ''ii.test'' [], ''B'' \<mapsto> ex_mi 0 ''B'' ''ii.test'' ''A'']"

definition ex_tdb :: DB where
  "ex_tdb = \<lparr>db_bundle = NoFile, db_index = File ''x'',
     db_Idx = \<lparr>ix_Hash = Some ex_tree, ix_List = [''B'', ''A''], ix_FileSize = 1\<rparr>, db_Name = ''node''\<rparr>"

text \<open>
  C12: on an index whose replies are acyclic, in whatever order the messages were stored, threads end and
  partition the messages: every message asked for is in the list of its oldest ancestor in the area, every
  list starts with that ancestor, has no repetitions, and holds only messages with this ancestor. The topics
  that are already cached must be right; \<^verbatim>\<open>LoadIndex\<close> drops them when the index has grown, and what the
  call caches keeps the hypothesis of the next call. A walk takes at most as many turns as there are messages.
\<close>

theorem topics_partition:
  assumes "LoadIndex db = (db', None)" and "ix_Hash (db_Idx db') = Some h"
    and "acyclic_replies h" "proper_ids h" and "\<forall>x p. h x = Some p \<longrightarrow> mi_Topic p = [] \<or> mi_Topic p = root h x"
    and "set mi \<subseteq> dom h" and "card (dom h) \<le> n"
  shows "\<exists>db'' h' topics. GetTopics (Suc n) db mi = Some (db'', topics) \<and>
    (\<forall>mid\<in>set mi. mid \<in> set (topic_list topics (root h mid))) \<and>
    (\<forall>t ts. topics t = Some ts \<longrightarrow> ts \<noteq> [] \<and> hd ts = t \<and> distinct ts \<and> (\<forall>x\<in>set ts. root h x = t)) \<and>
    ix_Hash (db_Idx db'') = Some h' \<and> alike h' h \<and>
    (\<forall>x p. h' x = Some p \<longrightarrow> mi_Topic p = [] \<or> mi_Topic p = root h x)"
proof -
  obtain rk where rk: "ranked rk h" using acyclic_ranked [OF assms(3)] by blast
  have start: "topics_inv h {} h Map.empty Map.empty" by (rule topics_inv_start [OF assms(5)])
  have ranks: "\<forall>mid\<in>set mi. mid \<in> dom h \<and> rk mid < n"
    using assms(6,7) ranked_card [OF rk] by (meson domD less_le_trans subsetD)
  obtain h' it tp where s: "topic_steps (Suc n) mi (h, Map.empty, Map.empty) = Some (h', it, tp)"
      and inv: "topics_inv h {} h' it tp" and c: "\<forall>mid\<in>set mi. mid \<in> set (topic_list tp (root h mid))"
    using topic_steps_inv [OF start rk assms(4) ranks] by blast
  have g: "GetTopics (Suc n) db mi =
      Some (db'\<lparr>db_Idx := (db_Idx db')\<lparr>ix_Hash := Some h'\<rparr>\<rparr>, tp)"
    using assms(1,2) s by (simp add: GetTopics_def)
  have "ts \<noteq> [] \<and> hd ts = t \<and> distinct ts \<and> (\<forall>x\<in>set ts. root h x = t)" if "tp t = Some ts" for t ts
  proof -
    note l = inv_list [OF inv that]
    have "root h x = t" if x: "x \<in> set ts" for x
    proof (cases "x = t")
      case False
      then have "x \<in> set (tl ts)" using l x by (cases ts) auto
      then have "it x = Some t" using l by blast
      from inv_member [OF inv this] show ?thesis by simp
    qed (use l in simp)
    then show ?thesis using l by blast
  qed
  moreover have "\<forall>x p. h' x = Some p \<longrightarrow> mi_Topic p = [] \<or> mi_Topic p = root h x"
    using inv_topic [OF inv] by blast
  ultimately show ?thesis
    using g c inv_alike [OF inv]
    by (intro exI [of _ "db'\<lparr>db_Idx := (db_Idx db')\<lparr>ix_Hash := Some h'\<rparr>\<rparr>"] exI [of _ h'] exI [of _ tp]) simp
qed

theorem topics_partition_witness:
  "\<exists>db'' topics. GetTopics 4 ex_tdb [''A'', ''B''] = Some (db'', topics) \<and> ''B'' \<in> set (topic_list topics ''A'')"
proof -
  have l: "LoadIndex ex_tdb = (ex_tdb, None)" by (simp add: LoadIndex_def load_opened_def ex_tdb_def)
  have h: "ix_Hash (db_Idx ex_tdb) = Some ex_tree" by (simp add: ex_tdb_def)
  have dom: "dom ex_tree = {''A'', ''B''}" by (auto simp: ex_tree_def)
  have "replies ex_tree = {(''A'', ''B'')}"
    by (auto simp: replies_def ex_tree_def ex_mi_def parent_def split: if_splits)
  then have a: "acyclic (replies ex_tree)" by (simp add: wf_acyclic)
  have "\<forall>mid p. ex_tree mid = Some p \<longrightarrow> mi_Id p = mid \<and> mi_Repto p \<noteq> mid"
    by (auto simp: ex_tree_def ex_mi_def split: if_splits)
  then have r: "acyclic_replies ex_tree" using dom a by (simp add: acyclic_replies_def)
  have p: "proper_ids ex_tree" by (simp add: proper_ids_def ex_tree_def)
  have t: "\<forall>x p. ex_tree x = Some p \<longrightarrow> mi_Topic p = [] \<or> mi_Topic p = root ex_tree x"
    by (auto simp: ex_tree_def ex_mi_def split: if_splits)
  have d: "set [''A'', ''B''] \<subseteq> dom ex_tree" by (auto simp: ex_tree_def)
  have root: "root ex_tree ''B'' = ''A''"
    unfolding root_def lineage_def dom by (simp add: ex_tree_def ex_mi_def parent_def same_echo_def)
  have n: "card (dom ex_tree) \<le> 3" unfolding dom by simp
  obtain db'' topics where g: "GetTopics (Suc 3) ex_tdb [''A'', ''B''] = Some (db'', topics)"
      "\<forall>mid\<in>set [''A'', ''B'']. mid \<in> set (topic_list topics (root ex_tree mid))"
    using topics_partition [OF l h r p t d n] by blast
  have "''B'' \<in> set (topic_list topics ''A'')" using g(2) root by simp
  moreover have "GetTopics 4 ex_tdb [''A'', ''B''] = Some (db'', topics)" using g(1) by (simp add: eval_nat_numeral)
  ultimately show ?thesis by blast
qed

text \<open>
  In one area with no thread resolved yet the walk to the root ends whatever the replies form,
  also on a cycle, since it marks what it passes.
\<close>

theorem walk_ends_in_area:
  assumes "finite (dom h)"
    and "\<forall>k p. h k = Some p \<longrightarrow> mi_Echo p = echo \<and> (mi_Topic p = [] \<or> mi_Topic p = ''visited'')"
  shows "\<exists>r. topic_walk (Suc (Suc (card (dom h)))) h echo mid l = Some r"
proof -
  have "card (unmarked h) \<le> card (dom h)"
    using assms(1) by (intro card_mono) (auto simp: unmarked_def)
  then have "card (unmarked h) < Suc (card (dom h))" by simp
  from topic_walk_guarded [OF assms(1) this assms(2)] show ?thesis by blast
qed

theorem walk_ends_in_area_witness: "\<exists>r. topic_walk 4 ex_tree ''ii.test'' (Some ''B'') [] = Some r"
proof -
  have d: "dom ex_tree = {''A'', ''B''}" by (auto simp: ex_tree_def)
  have e: "\<forall>k p. ex_tree k = Some p \<longrightarrow> mi_Echo p = ''ii.test'' \<and> (mi_Topic p = [] \<or> mi_Topic p = ''visited'')"
    by (auto simp: ex_tree_def ex_mi_def split: if_splits)
  have "card (dom ex_tree) = 2" "finite (dom ex_tree)" unfolding d by simp_all
  then have "\<exists>r. topic_walk (Suc (Suc 2)) ex_tree ''ii.test'' (Some ''B'') [] = Some r"
    using walk_ends_in_area [OF _ e, of "Some ''B''" "[]"] by metis
  moreover have "Suc (Suc 2) = 4" by simp
  ultimately show ?thesis by (simp only:)
qed

text \<open>
  The guard does not reach other areas. If the ancestors of a message include two messages of
  another area that answer each other, the walk never ends: no fuel is enough.
\<close>

theorem walk_stuck_elsewhere:
  assumes "h a = Some pa" "h b = Some pb" "parent h pa = Some b" "parent h pb = Some a"
    and "mi_Echo pa \<noteq> echo" "mi_Echo pb \<noteq> echo" and "mi_Repto pa \<noteq> mi_Id pa" "mi_Repto pb \<noteq> mi_Id pb"
    and "mi_Topic pa \<noteq> ''visited''" "mi_Topic pb \<noteq> ''visited''"
    and "h mid = Some p" "mi_Echo p = echo" "mi_Topic p = []" "mi_Repto p \<noteq> mi_Id p" "parent h p = Some a" "mid \<noteq> a" "mid \<noteq> b"
  shows "topic_walk n h echo (Some mid) [] = None"
proof (cases n)
  case (Suc k)
  let ?h = "set_topic mid ''visited'' h"
  have "?h a = Some pa" "?h b = Some pb" using assms(1,2,16,17) by (simp_all add: set_topic_other)
  moreover have "parent ?h q = parent h q" for q by (rule alike_parent) simp_all
  ultimately have "topic_walk k ?h echo (Some a) [mid] = None"
    using topic_walk_foreign_cycle [of ?h a pa b pb echo k "[mid]"] assms by simp
  then show ?thesis using assms(11-15) Suc by simp
qed simp

definition ex_cycle :: "string \<rightharpoonup> MsgInfo" where
  "ex_cycle = [''A'' \<mapsto> ex_mi 0 ''A'' ''ii.else'' ''B'', ''B'' \<mapsto> ex_mi 1 ''B'' ''ii.else'' ''A'',
     ''C'' \<mapsto> ex_mi 2 ''C'' ''ii.test'' ''A'']"

theorem walk_stuck_elsewhere_witness: "topic_walk 1000 ex_cycle ''ii.test'' (Some ''C'') [] = None"
  by (rule walk_stuck_elsewhere [of ex_cycle "''A''" "ex_mi 0 ''A'' ''ii.else'' ''B''" "''B''"
        "ex_mi 1 ''B'' ''ii.else'' ''A''" "''ii.test''" "''C''" "ex_mi 2 ''C'' ''ii.test'' ''A''"])
     (simp_all add: ex_cycle_def ex_mi_def parent_def)

section \<open>Users and areas\<close>

text \<open>
  C13: registration on an up-to-date database: what is refused and why, and that what is accepted
  appends one user, with an id no other user has, to the file.
\<close>

theorem register_outcomes:
  assumes "udb_loaded db us" and "field_ok (Tags_String (NewTags info))"
    and "Max (insert 0 (us_Id ` set us)) < 2 ^ 31 - 1"
  shows "case UDB_Add db name mail passwd info of (db', err) \<Rightarrow>
    if name \<in> us_Name ` set us then err = Some EUserExists \<and> db' = db
    else if \<not> IsUsername name then err = Some EWrongUsername \<and> db' = db
    else if \<not> IsPassword passwd then err = Some EBadPassword \<and> db' = db
    else if \<not> rx_match emailRegex mail then err = Some EWrongEmail \<and> db' = db
    else if ud_Locked db then err = Some EMaxUsers \<and> db' = db
    else err = None \<and> udb_rep db' (us @ [new_user us name mail passwd info]) \<and>
         us_Id (new_user us name mail passwd info) \<notin> us_Id ` set us"
proof -
  have "us_Id (new_user us name mail passwd info) \<notin> us_Id ` set us"
    using max_id_bound [of "us_Id ` set us" "Max (insert 0 (us_Id ` set us)) + 1"] by (auto simp: new_user_def)
  then show ?thesis
    using UDB_Add_rep [OF assms, where name = name and mail = mail and passwd = passwd]
    by (cases "UDB_Add db name mail passwd info") simp
qed

definition ex_udb1 :: UDB where "ex_udb1 = fst (LoadUsers no_regexp ex_udb)"

lemma ex_udb1: "udb_loaded ex_udb1 [ex_user]"
  unfolding ex_udb1_def using LoadUsers_rep [OF ex_users(2)] by blast

theorem register_outcomes_witness: "snd (UDB_Add ex_udb1 ''anna'' ''a@b.c'' ''x'' []) = Some EUserExists"
proof -
  have "field_ok (Tags_String (NewTags []))"
    by (simp add: field_ok_def NewTags_def MakeTags_def Trim_def TrimLeft_def TrimRight_def Tags_String_def nil_tags_def)
  then show ?thesis
    using register_outcomes [OF ex_udb1, where info = "[]" and name = "''anna''" and mail = "''a@b.c''" and passwd = "''x''"]
    by (cases "UDB_Add ex_udb1 ''anna'' ''a@b.c'' ''x'' []") (simp add: ex_user_def)
qed

text \<open>
  C14: after a registration and the next load, the new name opens with its password, every other
  account is as it was, and the user is found under its id.
\<close>

theorem register_then_auth:
  assumes "udb_loaded db us" and "field_ok (Tags_String (NewTags info))"
    and "Max (insert 0 (us_Id ` set us)) < 2 ^ 31 - 1" and "UDB_Add db name mail passwd info = (db', None)"
  shows "let db'' = fst (LoadUsers compile db') in
    Auth db'' name passwd \<and> UserInfoName db'' name = Some (new_user us name mail passwd info) \<and>
    (\<forall>u\<in>set us. UserInfoName db'' (us_Name u) = Some u \<and> us_Name u \<noteq> name)"
proof -
  let ?u = "new_user us name mail passwd info" and ?db = "fst (LoadUsers compile db')"
  have a: "udb_rep db' (us @ [?u])" "name \<notin> us_Name ` set us"
    using UDB_Add_rep [OF assms(1-3), where name = name and mail = mail and passwd = passwd] assms(4)
    by (simp_all split: if_splits)
  have ld: "udb_loaded ?db (us @ [?u])" using LoadUsers_rep [OF a(1)] by blast
  then have mem: "udb_mem ?db (us @ [?u])" "users_ok (us @ [?u])" by (auto simp: udb_loaded_def)
  have n: "map_get (ud_Names ?db) name = Some ?u"
    using udb_mem_user [OF mem, of ?u] by (simp add: new_user_def)
  have "\<forall>u\<in>set us. UserInfoName ?db (us_Name u) = Some u \<and> us_Name u \<noteq> name"
    using udb_mem_user [OF mem] a(2) by (auto simp: UserInfoName_def)
  then show ?thesis using n by (auto simp: Let_def UserInfoName_def Auth_def new_user_def)
qed

lemma ex_email: "rx_match emailRegex ''b@c.d''"
  by (simp add: emailRegex_def RPlus_def rx_label_def ROpt_def rx_local_def rx_alnum_def eval_nat_numeral)

lemma ex_unlocked: "\<not> ud_Locked ex_udb1"
  unfolding ex_udb1_def
  using ex_users(1) users_text_pos [of "[ex_user]"]
  by (intro LoadUsers_unlocked [of _ "[ex_user]"]) (simp_all add: ex_udb_def OpenUsers_def users_ok_def)

lemma no_tags_field: "field_ok (Tags_String (NewTags []))"
  by (simp add: field_ok_def NewTags_def MakeTags_def Trim_def TrimLeft_def TrimRight_def Tags_String_def nil_tags_def)

theorem register_then_auth_witness:
  "\<exists>db'. UDB_Add ex_udb1 ''bert'' ''b@c.d'' ''pw'' [] = (db', None) \<and>
     Auth (fst (LoadUsers no_regexp db')) ''bert'' ''pw''"
proof -
  have m: "Max (insert 0 (us_Id ` set [ex_user])) < 2 ^ 31 - 1" by (simp add: ex_user_def)
  have "IsUsername ''bert''" by (simp add: IsUsername_def ContainsAny_def HasSuffix_def)
  moreover have "IsPassword ''pw''" by (simp add: IsPassword_def)
  ultimately obtain db' where a: "UDB_Add ex_udb1 ''bert'' ''b@c.d'' ''pw'' [] = (db', None)"
    using UDB_Add_rep [OF ex_udb1 no_tags_field m, where name = "''bert''" and mail = "''b@c.d''" and passwd = "''pw''"]
      ex_email ex_unlocked
    by (cases "UDB_Add ex_udb1 ''bert'' ''b@c.d'' ''pw'' []") (simp add: ex_user_def)
  from register_then_auth [OF ex_udb1 no_tags_field m a, of no_regexp] a show ?thesis by (auto simp: Let_def)
qed

text \<open>
  The user file is read back as it was written: after a load every user of the file is found under
  the name and the id, and nothing else is.
\<close>

theorem users_read_back:
  assumes "udb_rep db us"
  shows "let db' = fst (LoadUsers compile db) in snd (LoadUsers compile db) = None \<and>
    (\<forall>u\<in>set us. UserInfoName db' (us_Name u) = Some u \<and> UserInfoId db' (us_Id u) = Some u) \<and>
    (\<forall>n. n \<notin> us_Name ` set us \<longrightarrow> UserInfoName db' n = None) \<and>
    (\<forall>i. i \<notin> us_Id ` set us \<longrightarrow> UserInfoId db' i = None)"
proof -
  let ?db = "fst (LoadUsers compile db)"
  have ok: "snd (LoadUsers compile db) = None" "udb_loaded ?db us" using LoadUsers_rep [OF assms] by auto
  then have mem: "udb_mem ?db us" "users_ok us" by (auto simp: udb_loaded_def)
  have name: "map_get (ud_Names ?db) (us_Name u) = Some u" if "u \<in> set us" for u
    using udb_mem_user [OF mem that] .
  have "ud_ById ?db (us_Id u) = Some (us_Name u)" if "u \<in> set us" for u
    using mem last_of_distinct [of us_Id us u us_Name] that by (simp add: udb_mem_def users_ok_def)
  then have "UserInfoId ?db (us_Id u) = Some u" if "u \<in> set us" for u
    using name that by (simp add: UserInfoId_def user_of_def)
  moreover have "UserInfoId ?db i = None" if "i \<notin> us_Id ` set us" for i
    using mem(1) that last_of_keys [of us_Id us_Name us i] by (simp add: udb_mem_def UserInfoId_def)
  ultimately show ?thesis
    using ok(1) name udb_mem_absent [OF mem(1)] by (simp add: Let_def UserInfoName_def)
qed

theorem users_read_back_witness: "UserInfoId (fst (LoadUsers no_regexp ex_udb)) 1 = Some ex_user"
  using users_read_back [OF ex_users(2), of no_regexp] by (simp add: Let_def ex_user_def)

text \<open>
  C15: changing a user and loading again shows the changed record, or no record if its status is
  \<^verbatim>\<open>remove\<close>; every other user is as before, unless it was waiting for removal itself.
\<close>

theorem edit_then_load:
  assumes "udb_loaded db us" and "user_ok u" "v \<in> set us" "us_Name v = us_Name u" "us_Id v = us_Id u"
    and "edited us u \<noteq> []"
  shows "case UDB_Edit db u of (db', err) \<Rightarrow> err = None \<and>
    (let db'' = fst (LoadUsers compile db') in
     UserInfoName db'' (us_Name u) = (if removed u then None else Some u) \<and>
     (\<forall>w\<in>set us. us_Name w \<noteq> us_Name u \<longrightarrow> UserInfoName db'' (us_Name w) = (if removed w then None else Some w)))"
proof -
  obtain db' err where e: "UDB_Edit db u = (db', err)" by fastforce
  have r: "err = None" "udb_rep db' (edited us u)" using UDB_Edit_rep [OF assms(1-5)] assms(6) e by auto
  let ?db = "fst (LoadUsers compile db')"
  have "udb_loaded ?db (edited us u)" using LoadUsers_rep [OF r(2)] by blast
  then have mem: "udb_mem ?db (edited us u)" "users_ok (edited us u)" by (auto simp: udb_loaded_def)
  have d: "distinct (map us_Name us)" using assms(1) by (auto simp: udb_loaded_def users_ok_def)
  have found: "UserInfoName ?db (us_Name w) = Some w" if "w \<in> set (edited us u)" for w
    using udb_mem_user [OF mem that] by (simp add: UserInfoName_def)
  have gone: "UserInfoName ?db n = None" if "n \<notin> us_Name ` set (edited us u)" for n
    using udb_mem_absent [OF mem(1), of n] that by (simp add: UserInfoName_def)
  have "UserInfoName ?db (us_Name u) = (if removed u then None else Some u)"
  proof (cases "removed u")
    case True
    then have "us_Name u \<notin> us_Name ` set (edited us u)" by (auto simp: edited_def)
    then show ?thesis using gone True by simp
  next
    case False
    then have "u \<in> set (edited us u)"
      using assms(3,4) by (auto simp: edited_def intro!: image_eqI [of _ _ v])
    then show ?thesis using found False by simp
  qed
  moreover have "UserInfoName ?db (us_Name w) = (if removed w then None else Some w)"
    if w: "w \<in> set us" "us_Name w \<noteq> us_Name u" for w
  proof (cases "removed w")
    case True
    have "x = w" if "x \<in> set us" "us_Name x = us_Name w" for x
      using d that w(1) by (auto simp: distinct_map inj_on_def)
    then have "us_Name w \<notin> us_Name ` set (edited us u)" using True w(2) by (auto simp: edited_def split: if_splits)
    then show ?thesis using gone True by simp
  next
    case False
    then have "w \<in> set (edited us u)"
      using w by (auto simp: edited_def intro!: image_eqI [of _ _ w])
    then show ?thesis using found False by simp
  qed
  ultimately show ?thesis using e r(1) by (simp add: Let_def)
qed

theorem edit_then_load_witness:
  "case UDB_Edit ex_udb1 (ex_user\<lparr>us_Mail := ''x@y''\<rparr>) of (db', err) \<Rightarrow>
     UserInfoName (fst (LoadUsers no_regexp db')) ''anna'' = Some (ex_user\<lparr>us_Mail := ''x@y''\<rparr>)"
proof -
  let ?u = "ex_user\<lparr>us_Mail := ''x@y''\<rparr>"
  have ok: "user_ok ?u"
    by (simp add: user_ok_def ex_user_def field_ok_def in_range_def Tags_String_def nil_tags_def tags_ok_def)
  have nr: "\<not> removed ?u" by (simp add: removed_def ex_user_def Tags_val_def Tags_Get_def nil_tags_def)
  then have ne: "edited [ex_user] ?u \<noteq> []" by (simp add: edited_def ex_user_def)
  have n: "us_Name ?u = ''anna''" by (simp add: ex_user_def)
  have "case UDB_Edit ex_udb1 ?u of (db', err) \<Rightarrow> err = None \<and>
    (let db'' = fst (LoadUsers no_regexp db') in
     UserInfoName db'' (us_Name ?u) = (if removed ?u then None else Some ?u) \<and>
     (\<forall>w\<in>set [ex_user]. us_Name w \<noteq> us_Name ?u \<longrightarrow> UserInfoName db'' (us_Name w) = (if removed w then None else Some w)))"
    by (rule edit_then_load [OF ex_udb1 ok _ _ _ ne, of ex_user]) simp_all
  then show ?thesis using nr n by (auto simp: Let_def split: prod.splits)
qed

text \<open>
  The last user cannot be removed: the change reports an error and the file keeps the user.
\<close>

theorem last_user_stays:
  assumes "udb_loaded db us" and "user_ok u" "v \<in> set us" "us_Name v = us_Name u" "us_Id v = us_Id u"
    and "edited us u = []"
  shows "case UDB_Edit db u of (db', err) \<Rightarrow> err = Some EIO \<and> ud_file db' = ud_file db"
  using UDB_Edit_rep [OF assms(1-5)] assms(6) by simp

theorem last_user_stays_witness:
  "snd (UDB_Edit ex_udb1 (ex_user\<lparr>us_Tags := NewTags ''status/remove''\<rparr>)) = Some EIO"
proof -
  let ?u = "ex_user\<lparr>us_Tags := NewTags ''status/remove''\<rparr>"
  have t: "NewTags ''status/remove'' = \<lparr>tg_Hash = Some [''status'' \<mapsto> ''remove''], tg_List = [''status'']\<rparr>"
    by (simp add: NewTags_def MakeTags_def Let_def Trim_def TrimLeft_def TrimRight_def)
  have ok: "user_ok ?u"
    unfolding t by (simp add: user_ok_def ex_user_def field_ok_def in_range_def Tags_String_def tags_ok_def
        no_lead_def no_trail_def TrimSuffix_def HasSuffix_def)
  have "edited [ex_user] ?u = []"
    unfolding t by (simp add: edited_def removed_def ex_user_def Tags_val_def Tags_Get_def)
  then have "case UDB_Edit ex_udb1 ?u of (db', err) \<Rightarrow> err = Some EIO \<and> ud_file db' = ud_file ex_udb1"
    by (intro last_user_stays [OF ex_udb1 ok, of ex_user]) simp_all
  then show ?thesis by (auto split: prod.splits)
qed

text \<open>
  Any change of a user opens a registration the administrator had locked in the file: the file is
  rewritten without the line \<^verbatim>\<open>!lock\<close>.
\<close>

theorem edit_unlocks:
  assumes "udb_mem db us" "users_ok us" and "user_ok u" "v \<in> set us" "us_Name v = us_Name u" "us_Id v = us_Id u"
    and "edited us u \<noteq> []" and "ud_policy db = None"
  shows "\<not> ud_Locked (fst (LoadUsers compile (fst (UDB_Edit db u))))"
proof -
  obtain h where e: "UDB_Edit db u =
      (db\<lparr>ud_Names := Some h, ud_file := File (users_text (edited us u)), ud_FileSize := 0\<rparr>, None)"
    using UDB_Edit_mem [OF assms(1,2,4,5)] assms(7) by auto
  have "\<forall>u\<in>set (edited us u). user_ok u" using edited_ok [OF assms(2-6)] by (simp add: users_ok_def)
  then show ?thesis
    using users_text_pos [OF assms(7)] assms(8) unfolding e
    by (intro LoadUsers_unlocked [of _ "edited us u"]) simp_all
qed

definition ex_locked :: UDB where
  "ex_locked = ex_udb1\<lparr>ud_file := File (unlines [''!lock'', print_user ex_user]), ud_Locked := True\<rparr>"

theorem edit_unlocks_witness:
  "ud_Locked ex_locked \<and> \<not> ud_Locked (fst (LoadUsers no_regexp (fst (UDB_Edit ex_locked ex_user))))"
proof -
  have "udb_mem ex_locked [ex_user]" using ex_udb1 by (simp add: ex_locked_def udb_loaded_def udb_mem_def)
  moreover have "ud_policy ex_udb1 = None"
    unfolding ex_udb1_def using load_user_lines [of "[ex_user]"] ex_users(1) users_text_pos [of "[ex_user]"]
    by (simp add: LoadUsers_def ex_udb_def OpenUsers_def Let_def FileLines_def filesize_def loadPolicy_def
        users_ok_def put_user_def)
  moreover have "edited [ex_user] ex_user \<noteq> []"
    by (simp add: edited_def removed_def ex_user_def Tags_val_def Tags_Get_def nil_tags_def)
  ultimately have "\<not> ud_Locked (fst (LoadUsers no_regexp (fst (UDB_Edit ex_locked ex_user))))"
    using ex_users(1) by (intro edit_unlocks [of _ "[ex_user]" _ ex_user]) (simp_all add: users_ok_def ex_locked_def)
  then show ?thesis by (simp add: ex_locked_def)
qed

text \<open>
  C16: the area list is read back as it was written, and with it and any block words \<open>ws\<close> a message is
  accepted as the lines say: an area without a line is closed; in an area with addresses these may write, and
  others may answer if it is writable; any other area is as writable as its line says, for texts without a block
  word. A list file without a line, though it exists, allows everything.
\<close>

theorem areas_decide:
  assumes "\<forall>x\<in>set xs. echo_ok x"
  shows "\<exists>db. LoadEcholist (File (unlines (map echo_line xs))) = Inr (Some db) \<and>
    (\<forall>m ws. EDB_Access (db\<lparr>ed_BlockWords := ws\<rparr>) m = (xs = [] \<or>
       (case last_of (map (\<lambda>(e, p, i). (e, p)) xs) (m_Echo m) of
          None \<Rightarrow> False
        | Some p \<Rightarrow> if ep_Allow p = [] then ep_Write p \<and> (\<forall>re\<in>set ws. \<not> re (m_Text m))
                   else m_Addr m \<in> set (ep_Allow p) \<or> Msg_tag_val m ''repto'' \<noteq> [] \<and> ep_Write p)))"
proof -
  let ?db = "foldl put_echo nil_edb xs"
  have "EDB_Access (?db\<lparr>ed_BlockWords := ws\<rparr>) m = (xs = [] \<or>
       (case last_of (map (\<lambda>(e, p, i). (e, p)) xs) (m_Echo m) of
          None \<Rightarrow> False
        | Some p \<Rightarrow> if ep_Allow p = [] then ep_Write p \<and> (\<forall>re\<in>set ws. \<not> re (m_Text m))
                   else m_Addr m \<in> set (ep_Allow p) \<or> Msg_tag_val m ''repto'' \<noteq> [] \<and> ep_Write p))" for m ws
    using put_echos [of xs] by (auto simp: EDB_Access_def split: option.split)
  then show ?thesis using LoadEcholist_lines [OF assms] by blast
qed

theorem areas_decide_witness:
  "\<exists>db. LoadEcholist (File (unlines [''-ii.ro:0:read only''])) = Inr (Some db) \<and>
     \<not> EDB_Access (db\<lparr>ed_BlockWords := []\<rparr>) (ex_msg\<lparr>m_Echo := ''ii.ro''\<rparr>)"
proof -
  let ?x = "(''ii.ro'', \<lparr>ep_Allow = [], ep_Write = False\<rparr>, ''read only'')"
  have "\<forall>x\<in>set [?x]. echo_ok x" by (simp add: echo_ok_def)
  from areas_decide [OF this] obtain db where db: "LoadEcholist (File (unlines (map echo_line [?x]))) = Inr (Some db)"
      and a: "\<And>m ws. EDB_Access (db\<lparr>ed_BlockWords := ws\<rparr>) m = ([?x] = [] \<or>
       (case last_of (map (\<lambda>(e, p, i). (e, p)) [?x]) (m_Echo m) of
          None \<Rightarrow> False
        | Some p \<Rightarrow> if ep_Allow p = [] then ep_Write p \<and> (\<forall>re\<in>set ws. \<not> re (m_Text m))
                   else m_Addr m \<in> set (ep_Allow p) \<or> Msg_tag_val m ''repto'' \<noteq> [] \<and> ep_Write p))"
    by blast
  have "map echo_line [?x] = [''-ii.ro:0:read only'']" by (simp add: echo_line_def)
  moreover have "\<not> EDB_Access (db\<lparr>ed_BlockWords := []\<rparr>) (ex_msg\<lparr>m_Echo := ''ii.ro''\<rparr>)" unfolding a by simp
  ultimately show ?thesis using db by metis
qed

section \<open>Where the code stops or goes wrong\<close>

text \<open>
  An index file that became shorter than what was read of it makes the load panic: the table is
  rebuilt into a nil map. One message in the database is enough.
\<close>

theorem truncated_index_panics:
  assumes "db_index db = File s" "ix_Hash (db_Idx db) \<noteq> None" "int (length s) < ix_FileSize (db_Idx db)"
    and "db_bundle db = File (bundle_text log)" "log \<noteq> []" "\<forall>m\<in>set log. storable m"
    and "int (length (bundle_text log)) < 2 ^ 63"
  shows "snd (LoadIndex db) = Some (EPanic PNilMap)"
proof -
  have c: "CreateIndex db = (db\<lparr>db_index := File (overwrite s (index_text log))\<rparr>, None)"
    using CreateIndex_text [of log db] assms by (simp add: holds_text_def)
  obtain m ms where log: "log = m # ms" using assms(5) by (cases log) auto
  have m: "storable m" using assms(6) log by simp
  let ?l = "index_line m (signed_off m 0)"
  obtain rest where t: "overwrite s (index_text log) = ?l @ NL # rest"
    by (simp add: overwrite_def index_text_def log)
  have sp: "Split (CHR '':'') ?l = [m_MsgId m, m_Echo m, itoa (signed_off m 0), m_To m, m_From m, Msg_tag_val m ''repto'']"
    by (rule Split_index_line [OF m])
  have "sscan_d 64 (itoa (signed_off m 0)) = Some (signed_off m 0, [])"
    using sscan_d_itoa [of 64 "signed_off m 0" "[]"] signed_off_in64 [of 0 m] by simp
  then have l: "load_line ?l st = (st\<lparr>ld_linenr := ld_linenr st + 1, ld_List := ld_List st @ [m_MsgId m],
      ld_nr := ld_nr st + 1, ld_err := Some (EPanic PNilMap)\<rparr>, False)" if "ld_Hash st = None" for st
    using that by (simp add: load_line_def sp Let_def)
  have "ld_err (load_run nil_index (overwrite s (index_text log))) = Some (EPanic PNilMap)"
    unfolding load_run_def f_lines_def t text_lines_Cons [OF index_line_no_NL [OF m]]
    by (simp add: l nil_index_def)
  then show ?thesis
    using assms(1-3) c by (simp add: LoadIndex_def load_opened_def ReopenIndex_def load_finish_def Let_def)
qed

theorem truncated_index_panics_witness:
  "snd (LoadIndex (ex_db1\<lparr>db_index := File [], db_Idx := \<lparr>ix_Hash = Some Map.empty, ix_List = [], ix_FileSize = 9\<rparr>\<rparr>))
     = Some (EPanic PNilMap)"
  by (rule truncated_index_panics [of _ "[]" "[ex_msg]"])
     (use ex_length(1) ex_storable(1) in \<open>simp_all add: ex_db1_def ex_db_def del: bundle_text_simps\<close>)

text \<open>
  A recipient with a colon shifts the fields of the index record: the entry that is read back has
  the rest of the recipient as the author and the author as the message answered. A point chooses its
  recipient freely, and access to private areas is decided on the entry.
\<close>

theorem index_record_confused:
  assumes "m_To m = a @ CHR '':'' # b" and "CHR '':'' \<notin> set a" "CHR '':'' \<notin> set b" "CHR '':'' \<notin> set (m_From m)"
    and "CHR '':'' \<notin> set (m_MsgId m)" "CHR '':'' \<notin> set (m_Echo m)" and "in64 off"
    and "ld_Hash st = Some h" "h (m_MsgId m) = None"
  shows "\<exists>mi h'. ld_Hash (fst (load_line (index_line m off) st)) = Some h' \<and> h' (m_MsgId m) = Some mi \<and>
    mi_To mi = a \<and> mi_From mi = b \<and> mi_Repto mi = m_From m"
proof -
  have sp: "\<exists>r. Split (CHR '':'') (index_line m off) = [m_MsgId m, m_Echo m, itoa off, a, b, m_From m] @ r"
    using assms(1-6) by (simp add: index_line_def Split_append Split_no_sep)
  then obtain r where sp: "Split (CHR '':'') (index_line m off) = [m_MsgId m, m_Echo m, itoa off, a, b, m_From m] @ r" by blast
  have "sscan_d 64 (itoa off) = Some (off, [])" using sscan_d_itoa [of 64 off "[]"] assms(7) by simp
  then show ?thesis using assms(8,9) by (simp add: load_line_def sp Let_def)
qed

theorem index_record_confused_witness:
  "\<exists>mi h'. ld_Hash (fst (load_line (index_line (ex_msg\<lparr>m_To := ''x:boss''\<rparr>) 0)
        \<lparr>ld_Hash = Some Map.empty, ld_List = [], ld_nr = 0, ld_linenr = 0, ld_err = None\<rparr>)) = Some h' \<and>
     h' ex_id = Some mi \<and> mi_From mi = ''boss''"
  using index_record_confused [of "ex_msg\<lparr>m_To := ''x:boss''\<rparr>" "''x''" "''boss''" 0
      "\<lparr>ld_Hash = Some Map.empty, ld_List = [], ld_nr = 0, ld_linenr = 0, ld_err = None\<rparr>" Map.empty]
  by (fastforce simp: ex_msg_def ex_id_def in_range_def)

text \<open>
  The first record of a database cannot be hidden: its offset is 0 and the mark is a sign. A
  message stored first with the tag of a blacklisted one is shown.
\<close>

theorem first_record_shown:
  assumes "db_rep db []" and "storable (filled now m)" and "blacklisted m"
    and "int (length (bundle_text [filled now m])) < 2 ^ 63"
  shows "case Store now db m of (db', m', err) \<Rightarrow> err = None \<and> snd (Get db' (m_MsgId m')) = Some m'"
proof -
  obtain db' m' err where s: "Store now db m = (db', m', err)" by (metis prod_cases3)
  have r: "err = None" "m' = filled now m" "db_rep db' [filled now m]"
    using DB_Store_rep [OF assms(1,2), of False] s assms(4) by (auto simp: Store_def spec_exists_def)
  have "spec_get [filled now m] (m_MsgId (filled now m)) = Some (filled now m)"
    using spec_get_snoc [of "[]" "filled now m"] by (simp add: hidden_def)
  then show ?thesis using s r Get_rep [OF r(3)] by simp
qed

theorem first_record_shown_witness:
  "case Store 7 ex_db ex_black of (db', m', err) \<Rightarrow> err = None \<and> snd (Get db' (m_MsgId m')) = Some m'"
proof -
  have "blacklisted ex_black"
    by (simp add: ex_black_eq blacklisted_def Msg_tag_val_def Tags_val_def Tags_Get_def)
  moreover have "int (length (bundle_text [filled 7 ex_black])) < 2 ^ 63"
    using ex_black_ok(2) [of 7] by simp
  ultimately show ?thesis using first_record_shown [OF ex_db_rep(1) ex_black_ok(1)] by simp
qed

section \<open>Fetching from other nodes\<close>

text \<open>
  C17: a fetch only adds. Whatever lines the other node answers with, of which the decodable ones are
  messages an index record can hold, the log is extended by messages it delivered under ids that
  were not stored, each once; every message stored before reads as before, also if the other node
  delivers another message under its id.
\<close>

theorem fetch_only_adds:
  assumes "good_remote get (rm_Host n) now log" and "db_rep db log"
  shows "\<exists>ms. db_rep (Fetch get now n db echolist limit) (log @ ms) \<and> new_only log ms \<and> set ms \<subseteq> fetched get (rm_Host n) now \<and>
    (\<forall>k. spec_exists log k \<longrightarrow> snd (Get (Fetch get now n db echolist limit) k) = snd (Get db k))"
proof -
  obtain ms where ms: "db_rep (Fetch get now n db echolist limit) (log @ ms)" "new_only log ms" "set ms \<subseteq> fetched get (rm_Host n) now"
    using Fetch_extends [OF assms, of echolist limit] by (auto simp: extends_def)
  have "snd (Get (Fetch get now n db echolist limit) k) = snd (Get db k)" if "spec_exists log k" for k
    using Get_rep [OF ms(1), of k] Get_rep [OF assms(2), of k] spec_get_new_only [OF ms(2) that] by simp
  then show ?thesis using ms by blast
qed

definition ex_get :: http where "ex_get url = Reply (msg_line ex_msg2) True"

lemma ex_remote: "good_remote ex_get ''h'' 7 [ex_msg]"
proof -
  have nl: "NL \<notin> set (msg_line ex_msg2)" by (rule msg_line_no_NL [OF ex_storable(2)])
  have ne: "msg_line ex_msg2 \<noteq> []" by (simp add: msg_line_def)
  have "reply_lines (msg_line ex_msg2) True = [msg_line ex_msg2]"
    using nl ne by (simp add: reply_lines_def text_lines_partial Split_no_sep)
  note lines = this
  have dec: "DecodeBundle (msg_line ex_msg2) = Inr ex_msg2" using ex_storable(2) by (rule DecodeBundle_msg_line)
  have f: "fetched ex_get ''h'' 7 = {ex_msg2}"
  proof
    show "fetched ex_get ''h'' 7 \<subseteq> {ex_msg2}"
      by (auto simp: fetched_def ex_get_def lines dec ex_storable(6))
    have "ex_get u = Reply (msg_line ex_msg2) True \<and> msg_line ex_msg2 \<in> set (reply_lines (msg_line ex_msg2) True) \<and>
        DecodeBundle (msg_line ex_msg2) = Inr ex_msg2" for u
      by (simp add: ex_get_def lines dec)
    then have "filled 7 ex_msg2 \<in> fetched ex_get ''h'' 7" unfolding fetched_def by blast
    then show "{ex_msg2} \<subseteq> fetched ex_get ''h'' 7" by (simp add: ex_storable(6))
  qed
  have "int (length (bundle_text ([ex_msg] @ ms))) < 2 ^ 63" if "new_only [ex_msg] ms" "set ms \<subseteq> {ex_msg2}" for ms
  proof -
    have "distinct ms" using that(1) by (auto simp: new_only_def distinct_map)
    then have "ms = [] \<or> ms = [ex_msg2]"
      using that(2) by (cases ms; cases "tl ms") auto
    then show ?thesis using ex_length by (auto simp del: bundle_text_simps)
  qed
  then show ?thesis using ex_storable(2) by (auto simp: good_remote_def f in_range_def storable_def simp del: bundle_text_simps)
qed

theorem fetch_only_adds_witness:
  "snd (Get (Fetch ex_get 7 \<lparr>rm_Host = ''h'', rm_Features = {}, rm_Force = False\<rparr> ex_db1 [''ii.test''] 0) ex_id)
     = snd (Get ex_db1 ex_id)"
  using fetch_only_adds [OF _ ex_db_rep(2), of ex_get "\<lparr>rm_Host = ''h'', rm_Features = {}, rm_Force = False\<rparr>" 7 "[''ii.test'']" 0] ex_remote
  by (auto simp: spec_exists_def ex_msg_def)

text \<open>
  The loop that collects ids into requests is the plain iteration over batches: every id is asked
  for once and in order, with at least one and at most eight ids in a request.
\<close>

theorem fetch_in_batches:
  "Net_Store get now n db ids = run_batches get now (rm_Host n) (batches ids) db \<and>
   concat (batches ids) = ids \<and> list_all (\<lambda>b. 0 < length b \<and> length b \<le> 8) (batches ids)"
  using concat_chunks [of ids "length ids"] chunks_size [of _ "length ids" ids]
  by (simp add: Net_Store_def net_store_batches batches_def list_all_iff)

section \<open>Two nodes\<close>

text \<open>
  Fetching an area from a node that runs this program mirrors it. After the fetch every id of the
  area the node shows (the last \<open>limit\<close> of them, if there is a limit) is stored here; what was
  appended are messages the node shows, as it shows them, under ids that were new.
\<close>

theorem fetch_mirrors:
  assumes "db_rep db log" and "db_rep (nd_db node) rlog" and "\<forall>m\<in>set rlog. plain_segment (m_MsgId m)"
    and "in64 now" and "int (length (bundle_text log) + length (bundle_text (map (filled now) rlog))) < 2 ^ 63"
    and "IsEcho e" "plain_segment e" and "in64 limit" "0 \<le> limit" and "rm_Force n \<or> \<not> IsFeature n ''u/e''"
  shows "\<exists>ms. db_rep (Fetch (serve order (rm_Host n) node) now n db [e] limit) (log @ ms) \<and> new_only log ms \<and>
    (\<forall>m\<in>set ms. \<exists>m'. spec_get rlog (m_MsgId m') = Some m' \<and> m = filled now m') \<and>
    set (wanted rlog e (if IsFeature n ''u/e'' then limit else 0)) \<subseteq> m_MsgId ` set (log @ ms)"
proof -
  let ?get = "serve order (rm_Host n) node"
  let ?l = "if IsFeature n ''u/e'' then limit else 0"
  let ?w = "wanted rlog e ?l"
  have good: "good_remote ?get (rm_Host n) now log" by (rule serve_good [OF assms(2,4,5)])
  have l: "in64 ?l" "0 \<le> ?l" using assms(8,9) by (auto simp: in_range_def)
  have "extends ?get (rm_Host n) now log (set (filter (\<lambda>i. \<not> spec_exists log i) ?w)) (Fetch ?get now n db [e] limit)"
    using fetch_area_wanted [OF assms(2) good assms(6,7) l assms(3,1)]
    by (simp add: Fetch_one [OF assms(6)] Fetcher_area [OF assms(9,10)])
  then obtain ms where ms: "db_rep (Fetch ?get now n db [e] limit) (log @ ms)" "new_only log ms"
      "set ms \<subseteq> fetched ?get (rm_Host n) now"
      "set (filter (\<lambda>i. \<not> spec_exists log i) ?w) \<subseteq> m_MsgId ` set (log @ ms)"
    unfolding extends_def by blast
  have "\<forall>m\<in>set ms. \<exists>m'. spec_get rlog (m_MsgId m') = Some m' \<and> m = filled now m'"
    using ms(3) fetched_serve [OF assms(2), of order "rm_Host n" now] by blast
  moreover have "set ?w \<subseteq> m_MsgId ` set (log @ ms)"
    using ms(4) by (auto simp: spec_exists_def)
  ultimately show ?thesis using ms(1,2) by blast
qed

definition ex_remote_node :: Remote where
  "ex_remote_node = \<lparr>rm_Host = ''h'', rm_Features = {''u/e''}, rm_Force = True\<rparr>"

lemma ex_sync: "\<forall>m\<in>set [ex_msg]. plain_segment (m_MsgId m)" "in64 7" "IsEcho ''ii.test''" "plain_segment ''ii.test''"
    "db_rep (nd_db ex_node) [ex_msg]" "wanted [ex_msg] ''ii.test'' 0 = [ex_id]"
    "rm_Force ex_remote_node" "rm_Host ex_remote_node = ''h''"
proof -
  show "wanted [ex_msg] ''ii.test'' 0 = [ex_id]"
    by (simp add: wanted_def log_slice_def log_ids_def log_info_def limited_def first_occurrences_def add_new_def
        newest_def ex_msg_def base_match_def nil_query_def minfo_def signed_off_def blacklisted_def Msg_tag_val_def
        Msg_Tag_def Tags_Get_def Access_def IsPrivate_def msg_off_def nil_tags_def)
qed (use ex_db_rep(2) in \<open>simp_all add: plain_segment_def url_char_def is_digit_def ex_msg_def ex_id_def
      in_range_def IsEcho_def ex_node_def ex_remote_node_def ex_storable(5) del: bundle_text_simps\<close>)

lemma ex_sync_length:
  "int (length (bundle_text []) + length (bundle_text (map (filled 7) [ex_msg]))) < 2 ^ 63"
  "int (length (bundle_text [ex_msg]) + length (bundle_text (map (filled 7) [ex_msg]))) < 2 ^ 63"
proof -
  have "map (filled 7) [ex_msg] = [ex_msg]" "length (bundle_text []) = 0" by (simp_all add: ex_storable(5))
  then show "int (length (bundle_text []) + length (bundle_text (map (filled 7) [ex_msg]))) < 2 ^ 63"
      "int (length (bundle_text [ex_msg]) + length (bundle_text (map (filled 7) [ex_msg]))) < 2 ^ 63"
    using ex_length(1) by (simp_all del: length_bundle_text_Cons bundle_text_simps)
qed

theorem fetch_mirrors_witness:
  "\<exists>log. db_rep (Fetch (serve (\<lambda>ks. ks) ''h'' ex_node) 7 ex_remote_node ex_db [''ii.test''] 0) log \<and> ex_id \<in> m_MsgId ` set log"
proof -
  have "in64 0" by (simp add: in_range_def)
  from fetch_mirrors [OF ex_db_rep(1) ex_sync(5,1,2) ex_sync_length(1) ex_sync(3,4) this order_refl disjI1 [OF ex_sync(7)], of "\<lambda>ks. ks"]
  show ?thesis using ex_sync(6,8) by auto
qed

text \<open>
  Mirroring settles. If every id of the area the node shows is stored already, in whatever version,
  a fetch leaves the log as it is, with and without a look at the newest message first.
\<close>

theorem fetch_settles:
  assumes "db_rep db log" and "db_rep (nd_db node) rlog" and "\<forall>m\<in>set rlog. plain_segment (m_MsgId m)"
    and "in64 now" and "int (length (bundle_text log) + length (bundle_text (map (filled now) rlog))) < 2 ^ 63"
    and "IsEcho e" "plain_segment e" and "in64 limit" "0 \<le> limit"
    and "set (wanted rlog e (if IsFeature n ''u/e'' then limit else 0)) \<subseteq> m_MsgId ` set log"
  shows "db_rep (Fetch (serve order (rm_Host n) node) now n db [e] limit) log"
proof -
  let ?get = "serve order (rm_Host n) node"
  let ?l = "if IsFeature n ''u/e'' then limit else 0"
  have good: "good_remote ?get (rm_Host n) now log" by (rule serve_good [OF assms(2,4,5)])
  have l: "in64 ?l" "0 \<le> ?l" using assms(8,9) by (auto simp: in_range_def)
  have area: "db_rep (fetch_area ?get now n d e ?l) log" if "db_rep d log" for d
    using fetch_area_wanted [OF assms(2) good assms(6,7) l assms(3) that] assms(10) by blast
  obtain d b where s: "sync_needed ?get n e db = (d, b)" by fastforce
  then have "db_rep d log" using sync_needed_rep [OF assms(1)] by blast
  then show ?thesis
    using area [of db] area [of d] assms(1,9) s by (cases b) (auto simp: Fetch_one [OF assms(6)] Fetcher_def)
qed

theorem fetch_settles_witness:
  "db_rep (Fetch (serve (\<lambda>ks. ks) ''h'' ex_node) 7 ex_remote_node ex_db1 [''ii.test''] 0) [ex_msg]"
proof -
  have "in64 0" by (simp add: in_range_def)
  from fetch_settles [OF ex_db_rep(2) ex_sync(5,1,2) ex_sync_length(2) ex_sync(3,4) this order_refl, of ex_remote_node "\<lambda>ks. ks"]
  show ?thesis using ex_sync(6,8) by (simp add: ex_msg_def)
qed

section \<open>The lock file\<close>

text \<open>
  C18: while no attempt to take the lock gives up, a writer inside excludes every other thread of its
  process and every writer of another process. The only threads that can be inside beside it are
  readers of another process in which some thread is still trying to take the lock: they count on the
  depth, which counts attempts.
\<close>

theorem lock_excludes:
  assumes "lock_reach False s" and "lk_pc s p t = Inside Writer"
    and "is_inside (lk_pc s q u)" and "(p, t) \<noteq> (q, u)"
  shows "q \<noteq> p \<and> lk_pc s q u = Inside Reader \<and> (\<exists>v. is_trying (lk_pc s q v))"
  by (rule writer_excludes [OF lock_reach_inv [OF assms(1)] assms(2-4)])

theorem lock_excludes_witness:
  "\<exists>s. lock_reach False s \<and> lk_pc s 1 0 = Inside Writer \<and> lk_pc s 0 1 = Inside Reader \<and>
     (\<exists>v. is_trying (lk_pc s 0 v))"
proof -
  obtain s where s: "lock_reach False s" "lk_depth s = (\<lambda>_. 0)(1 := 1)"
      "lk_pc s = (\<lambda>_ _. Out)(1 := (\<lambda>_. Out)(0 := Inside Writer))"
    using writer_inside [of False 1] by blast
  let ?s1 = "set_pc 0 0 (Trying Reader 16) (set_depth 0 (lk_depth s 0 + 1) s)"
  let ?s2 = "set_pc 0 1 (Inside Reader) (set_depth 0 (lk_depth ?s1 0 + 1) ?s1)"
  have "lock_reach False ?s1"
    by (rule patient_reach [OF s(1)], rule enter_first) (use s in \<open>auto simp: admits_def\<close>)
  then have r: "lock_reach False ?s2"
    by (rule patient_reach, intro enter_again) (use s in \<open>auto simp: admits_def\<close>)
  have w: "lk_pc ?s2 1 0 = Inside Writer" "is_inside (lk_pc ?s2 0 1)" "(1::nat, 0::nat) \<noteq> (0, 1)"
    using s by simp_all
  show ?thesis using lock_excludes [OF r w] r w(1) by blast
qed

text \<open>
  An attempt that gives up loses the lock for everybody. \<^verbatim>\<open>Lock\<close> reports it, no caller looks: the
  operation runs beside the one that holds the lock and removes the lock directory at its end, while
  the holder is still inside.
\<close>

theorem lock_lost:
  "\<exists>s. lock_reach True s \<and> lk_pc s 0 0 = Inside Writer \<and> lk_pc s 1 0 = Inside Writer \<and>
     (\<exists>s'. lock_reach True s' \<and> lk_pc s' 0 0 = Inside Writer \<and> lk_pc s' 1 0 = Out \<and> \<not> lk_dir s')"
proof -
  obtain s where s: "lock_reach True s" "lk_dir s" "lk_depth s = (\<lambda>_. 0)(0 := 1)"
      "lk_pc s = (\<lambda>_ _. Out)(0 := (\<lambda>_. Out)(0 := Inside Writer))"
    using writer_inside [of True 0] by blast
  let ?s1 = "set_pc 1 0 (Trying Writer 16) (set_depth 1 (lk_depth s 1 + 1) s)"
  have "lock_reach True ?s1"
    by (rule patient_reach [OF s(1)], rule enter_first) (use s in \<open>auto simp: admits_def\<close>)
  then have t: "lock_reach True (set_pc 1 0 (Trying Writer 0) ?s1)"
    using s by (intro tries_run_out [where n = 16]) simp_all
  let ?s2 = "set_pc 1 0 (Inside Writer) (set_pc 1 0 (Trying Writer 0) ?s1)"
  have r2: "lock_reach True ?s2" by (rule lock_reach.step [OF t give_up]) simp_all
  let ?s3 = "set_pc 1 0 (Removing Writer) (set_depth 1 (lk_depth ?s2 1 - 1) ?s2)"
  have r3: "lock_reach True ?s3"
    by (rule patient_reach [OF r2], rule leave_last) (use s in simp_all)
  let ?s4 = "set_pc 1 0 Out (?s3\<lparr>lk_dir := False\<rparr>)"
  have r4: "lock_reach True ?s4" by (rule lock_reach.step [OF r3 rmdir]) simp_all
  have "lk_pc ?s2 0 0 = Inside Writer \<and> lk_pc ?s2 1 0 = Inside Writer" using s(4) by simp
  moreover have "lk_pc ?s4 0 0 = Inside Writer \<and> lk_pc ?s4 1 0 = Out \<and> \<not> lk_dir ?s4"
    using s(4) by (simp add: set_pc_def set_depth_def)
  ultimately show ?thesis using r2 r4 by blast
qed

section \<open>The web interface\<close>

definition ex_world :: World where
  "ex_world = \<lparr>w_now = 7, w_format = (\<lambda>_. ''now''), w_compile = no_regexp, w_png = (\<lambda>_. Some ''PNG''),
     w_order = (\<lambda>xs. xs), w_keys = (\<lambda>_. []), w_fuel = 100, w_whois = (\<lambda>_ _. None), w_lower = (\<lambda>s. s)\<rparr>"

definition ex_req :: "string \<Rightarrow> string \<Rightarrow> string option \<Rightarrow> Req" where
  "ex_req method path cookie = \<lparr>r_Method = method, r_Path = path,
     r_Form = Some ((\<lambda>_. [])(''username'' := ''anna'', ''password'' := ''pw'')), r_Cookie = cookie,
     r_Forwarded = [], r_RemoteAddr = ''1.2.3.4:5'', r_Referer = []\<rparr>"

text \<open>
  C19: what a web request can change, whatever it sends and whatever the files hold. Bundles, areas and
  accounts stay as they were, or one message is appended: it carries the address of the account whose
  secret is the cookie, or that account is the administrator, and the request is a form of an account with a name or
  the message is hidden by it; or the file of accounts changes: by the administrator, by a form of
  registration, or by an account that sends its own avatar. If the file was a list of accounts, the new one is
  the list after one step (\<open>account_step\<close>): the administrator's action on the tags of the account it names; a
  new password for the account whose secret the form shows; a new account at the end under a name that was free; or the
  new avatar tag of the account of the cookie. Every other record stays as it is, unless it was waiting for
  removal.
\<close>

theorem web_effect:
  assumes "reload w node = (node1, None)" and "handleWWW w host r node = (node2, ctx, x)"
  defines "u \<equiv> identify (nd_udb node1) (r_Cookie r)" and "args \<equiv> snd (route (r_Path r))"
  shows "nd_edb node2 = nd_edb node1 \<and> db_Name (nd_db node2) = db_Name (nd_db node1) \<and>
    ((db_bundle (nd_db node2) = db_bundle (nd_db node1) \<and> nd_udb node2 = nd_udb node1) \<or>
     (nd_udb node2 = nd_udb node1 \<and>
      (\<exists>m. append_file (db_bundle (nd_db node1)) (snd (Encode (w_now w) m)) = Inr (db_bundle (nd_db node2)) \<and>
        (us_Id u = 1 \<or> m_Addr m = own_addr node1 u) \<and> (r_Method r = ''POST'' \<and> us_Name u \<noteq> [] \<or> blacklisted m))) \<or>
     (nd_db node2 = nd_db node1 \<and>
      (ud_file (nd_udb node2) = ud_file (nd_udb node1) \<or> us_Id u = 1 \<and> args ! 0 = ''points'' \<or>
       r_Method r = ''POST'' \<and> (args ! 0 = ''register'' \<or>
         args ! 0 = ''avatar'' \<and> args ! 1 = us_Name u \<and> us_Name u \<noteq> [])))) \<and>
    (\<forall>us. udb_rep (nd_udb node) us \<longrightarrow>
       ud_file (nd_udb node2) = ud_file (nd_udb node) \<or>
       (\<exists>us'. ud_file (nd_udb node2) = File (users_text us') \<and> account_step r args u us us'))"
proof -
  have e: "effect w r args u node1 (node2, ctx, x)"
    using handleWWW_effect [OF assms(1), of r host] assms(2) by (simp add: u_def args_def)
  note n1 = reload_frame [OF assms(1)]
  have step: "ud_file (nd_udb node2) = ud_file (nd_udb node) \<or>
      (\<exists>us'. ud_file (nd_udb node2) = File (users_text us') \<and> account_step r args u us us')"
    if rep: "udb_rep (nd_udb node) us" for us
  proof -
    have ld: "udb_loaded (nd_udb node1) us" using reloaded_loaded [OF rep, of w] n1 by simp
    have m: "u \<in> set us" if "us_Name u \<noteq> []" using identify_member [OF ld] that unfolding u_def .
    have "ud_file (nd_udb node2) = ud_file (nd_udb node1) \<or>
        may_change w u r args (nd_udb node1) (ud_file (nd_udb node2))"
      using e unfolding effect_def writes_def quiet_def accounts_def fst_conv by (elim disjE) auto
    then show ?thesis using may_change_step [OF ld _ m] conjunct2 [OF n1] by auto
  qed
  have "us_Id u = 1 \<and> args ! 0 = ''points'' \<or> r_Method r = ''POST'' \<and> (args ! 0 = ''register'' \<or>
      args ! 0 = ''avatar'' \<and> args ! 1 = us_Name u \<and> us_Name u \<noteq> [])" if "may_change w u r args udb f" for udb f
    using that unfolding may_change_def by blast
  then show ?thesis
    using e step
    unfolding effect_def writes_def quiet_def accounts_def same_def appended_def may_write_def fst_conv
    by (elim disjE) auto
qed

lemma ex_reload: "reload ex_world ex_node = (ex_node\<lparr>nd_udb := ex_udb1\<rparr>, None)"
  using reload_rep [of ex_node "[ex_user]" ex_world] ex_users(2)
  by (simp add: ex_node_def ex_world_def ex_udb1_def)

theorem web_effect_witness:
  "ud_file (nd_udb (fst (handleWWW ex_world ''h'' (ex_req ''GET'' ''/ii.test'' None) ex_node))) = ud_file ex_udb \<and>
   (let udb = nd_udb (fst (handleWWW ex_world ''h'' (ex_req ''POST'' ''/register'' None) ex_node)) in
    ud_file udb = ud_file ex_udb \<or> (\<exists>us'. ud_file udb = File (users_text ([ex_user] @ us'))))"
proof -
  obtain node2 ctx x where h: "handleWWW ex_world ''h'' (ex_req ''GET'' ''/ii.test'' None) ex_node = (node2, ctx, x)"
    by (metis prod_cases3)
  have "ud_file ex_udb1 = ud_file ex_udb" by (simp add: ex_udb1_def LoadUsers_file)
  moreover have "identify ex_udb1 None = nil_user" by (simp add: identify_def)
  ultimately have get: "ud_file (nd_udb node2) = ud_file ex_udb"
    using web_effect [OF ex_reload h] by (auto simp: ex_req_def nil_user_def)
  obtain node3 ctx3 x3 where h3: "handleWWW ex_world ''h'' (ex_req ''POST'' ''/register'' None) ex_node = (node3, ctx3, x3)"
    by (metis prod_cases3)
  let ?r = "ex_req ''POST'' ''/register'' None" and ?u = "identify (nd_udb (ex_node\<lparr>nd_udb := ex_udb1\<rparr>)) (r_Cookie (ex_req ''POST'' ''/register'' None))"
  have rep: "udb_rep (nd_udb ex_node) [ex_user]" using ex_users(2) by (simp add: ex_node_def)
  have path: "snd (route (r_Path ?r)) = [''register'']" using route_word [of "''register''"] by (simp add: ex_req_def)
  have "ud_file (nd_udb node3) = ud_file (nd_udb ex_node) \<or>
      (\<exists>us'. ud_file (nd_udb node3) = File (users_text us') \<and> account_step ?r (snd (route (r_Path ?r))) ?u [ex_user] us')"
    using web_effect [OF ex_reload h3] rep by blast
  then have "ud_file (nd_udb node3) = ud_file ex_udb \<or> (\<exists>us'. ud_file (nd_udb node3) = File (users_text ([ex_user] @ us')))"
    unfolding path by (auto simp: account_step_def ex_req_def ex_node_def)
  then show ?thesis using get h h3 by (simp add: Let_def)
qed

text \<open>
  C20: a page of messages by recipient, by author, of an area or of all areas shows exactly the messages the log
  has for the account under the query, in the order of their first storing or the other way round, cut to the
  page; every one of them may be read by the account; the log stays as it was.
\<close>

theorem query_page:
  assumes "db_rep (nd_db node) log" and "web_query q"
  shows "\<exists>node' ctx'. www_query w q page False node ctx = (node', ctx', Inr Page) \<and>
    c_Msg ctx' = c_Msg ctx @ list_page log ctx q page \<and> db_rep (nd_db node') log \<and>
    (\<forall>m\<in>set (list_page log ctx q page). may_read (c_User ctx) m \<and> m \<in> set log)"
proof -
  have "may_read (c_User ctx) m \<and> m \<in> set log" if "m \<in> set (list_page log ctx q page)" for m
  proof -
    note t = that
    obtain i where i: "i \<in> set (listed log (c_User ctx) q)" "m = the (spec_get log i)"
      using t by (fastforce simp: list_page_def Let_def case_prod_unfold dest!: in_set_takeD in_set_dropD)
    then show ?thesis using listed_readable [OF assms(2) i(1)] spec_get_mem [of log i] by auto
  qed
  then show ?thesis using www_query_page [OF assms, of w page ctx] by blast
qed

lemma ex_query: "web_query (nil_query\<lparr>q_Echo := ''ii.test''\<rparr>)"
    "listed [ex_msg] nil_user (nil_query\<lparr>q_Echo := ''ii.test''\<rparr>) = [ex_id]"
  by (simp_all add: web_query_def nil_query_def listed_def log_slice_def log_ids_def log_info_def limited_def
      first_occurrences_def add_new_def newest_def ex_msg_def base_match_def minfo_def signed_off_def blacklisted_def
      Msg_tag_val_def Msg_Tag_def Tags_val_def Tags_Get_def nil_tags_def IsPrivate_def Access_def nil_user_def)

theorem query_page_witness:
  "\<exists>node' ctx'. www_query ex_world (nil_query\<lparr>q_Echo := ''ii.test''\<rparr>) 1 False ex_node new_ctx = (node', ctx', Inr Page) \<and>
    c_Msg ctx' = list_page [ex_msg] new_ctx (nil_query\<lparr>q_Echo := ''ii.test''\<rparr>) 1"
proof -
  have "db_rep (nd_db ex_node) [ex_msg]" using ex_db_rep(2) by (simp add: ex_node_def)
  from query_page [OF this ex_query(1), of ex_world 1 new_ctx] show ?thesis by (auto simp: new_ctx_def)
qed

text \<open>
  C21: the pages of such a list, one after the other, are the whole list: no message is shown twice or left out.
\<close>

theorem list_pages:
  assumes "length (listed log (c_User ctx) q) < 2 ^ 62"
  shows "concat (map (\<lambda>p. list_page log ctx q (int p + 1)) [0..<page_count (length (listed log (c_User ctx) q))]) =
    map (\<lambda>i. the (spec_get log i)) (listed log (c_User ctx) q)"
proof -
  let ?ids = "listed log (c_User ctx) q" and ?f = "\<lambda>i. the (spec_get log i)"
  have "list_page log ctx q (int p + 1) = map ?f (page_slice ?ids p)" if "p < page_count (length ?ids)" for p
  proof -
    have "fst (makePager ctx (length ?ids) (int (p + 1))) = int (PAGE_SIZE * p)"
      using makePager_page(1) [of "p + 1" "length ?ids" ctx] that assms by auto
    then show ?thesis by (simp add: list_page_def Let_def page_slice_def case_prod_unfold add.commute del: of_nat_mult)
  qed
  then have "map (\<lambda>p. list_page log ctx q (int p + 1)) [0..<page_count (length ?ids)] =
      map (\<lambda>p. map ?f (page_slice ?ids p)) [0..<page_count (length ?ids)]" by simp
  also have "concat \<dots> = map ?f (concat (map (page_slice ?ids) [0..<page_count (length ?ids)]))"
    by (simp add: map_concat comp_def)
  also have "\<dots> = map ?f ?ids" by (simp only: pages_cover)
  finally show ?thesis .
qed

theorem list_pages_witness:
  "concat (map (\<lambda>p. list_page [ex_msg] new_ctx (nil_query\<lparr>q_Echo := ''ii.test''\<rparr>) (int p + 1)) [0..<1]) =
    [the (spec_get [ex_msg] ex_id)]"
proof -
  have l: "listed [ex_msg] (c_User new_ctx) (nil_query\<lparr>q_Echo := ''ii.test''\<rparr>) = [ex_id]"
    using ex_query(2) by (simp add: new_ctx_def)
  have "page_count (length [ex_id]) = 1" by (simp add: page_count_def PAGE_SIZE_def)
  with list_pages [of "[ex_msg]" new_ctx "nil_query\<lparr>q_Echo := ''ii.test''\<rparr>"] show ?thesis unfolding l by simp
qed

text \<open>
  The row of page numbers under a list holds the first page, the last, and the pages at most ten away,
  in order; each gap between them is one zero.
\<close>

theorem pager_numbers:
  assumes "1 \<le> page" "page \<le> int (page_count n_msgs)" "1 < page_count n_msgs" "n_msgs < 2 ^ 61" and "c_Pager ctx = []"
  shows "let row = c_Pager (snd (makePager ctx n_msgs page)); pages = int (page_count n_msgs) in
    filter (\<lambda>i. i \<noteq> 0) row = filter (\<lambda>i. i = 1 \<or> \<bar>i - page\<bar> \<le> 10 \<or> i = pages) [1..pages] \<and>
    (\<forall>i. Suc i < length row \<longrightarrow> \<not> (row ! i = 0 \<and> row ! Suc i = 0))"
proof -
  let ?n = "page_count n_msgs"
  have n: "?n \<le> n_msgs + 1" by (simp add: page_count_def PAGE_SIZE_def)
  have "int n_msgs < 2 ^ 61" "(2::int) ^ 61 + 1 < 2 ^ 62" using assms(4) by simp_all
  then have b: "int ?n < 2 ^ 62" "page < 2 ^ 62" using n assms(2) by linarith+
  have "c_Pager (snd (makePager ctx n_msgs page)) = foldl (pager_step (int ?n) page) [] [1..int ?n]"
    using makePager_page(2) [of "nat page" n_msgs ctx] assms by auto
  then show ?thesis
    using pager_row [OF assms(1) b(2,1), of "int ?n"]
    by (simp add: single_gaps_def near_def [abs_def] PAGER_RANGE_def Let_def)
qed

theorem pager_numbers_witness:
  "(let row = c_Pager (snd (makePager new_ctx 1000 3)) in
     filter (\<lambda>i. i \<noteq> 0) row = filter (\<lambda>i. i = 1 \<or> \<bar>i - 3\<bar> \<le> 10 \<or> i = int (page_count 1000)) [1..int (page_count 1000)])"
  using pager_numbers [of 3 1000 new_ctx] by (simp add: page_count_def PAGE_SIZE_def new_ctx_def Let_def)
text \<open>
  C22: what the page of a message may contain if its id holds no quote and no angle bracket, and no line that
  names an attached file holds a quote: characters other than angle brackets, the tags of the code without attributes
  of the author, and links and pictures whose attributes hold no quote and no angle bracket. The rest of the text
  is arbitrary. The page exists if no line has an opening brace or starts a picture. The condition on attached files
  is needed: \<open>picture_name_escapes\<close> shows the attribute that a quote in such a name adds.
\<close>

theorem page_shown:
  assumes "attr_ok (m_MsgId m)"
    and "\<forall>l\<in>set (Split NL (msg_clean (m_Text m))). HasPrefix l ''@base64:'' \<longrightarrow> DQ \<notin> set l"
  shows "(\<forall>page. msg_text png (Some m) = Inr page \<longrightarrow> page_safe page) \<and>
    ((\<forall>l\<in>set (Split NL (msg_clean (m_Text m))). tame l) \<longrightarrow> (\<exists>page. msg_text png (Some m) = Inr page \<and> page_safe page))"
proof -
  let ?ls = "Split NL (msg_clean (m_Text m))"
  have eq: "msg_text png (Some m) = trunc_loop png (m_MsgId m) 0 [] ?ls 0 False []"
    by (simp add: msg_text_def msg_trunc_def)
  have safe: "page_safe page" if "msg_text png (Some m) = Inr page" for page
    using trunc_loop_safe [OF assms(1) page_nil assms(2) page_nil] that unfolding eq .
  moreover have "\<exists>page. msg_text png (Some m) = Inr page" if "\<forall>l\<in>set ?ls. tame l"
    unfolding eq using trunc_loop_total that .
  ultimately show ?thesis by blast
qed

definition ex_script :: Msg where
  "ex_script = ex_msg\<lparr>m_Text := ''<b>'' @ [NL] @ ''http://h/x''\<rparr>"

lemma ex_script_lines: "Split NL (msg_clean (m_Text ex_script)) = [''<b>'', ''http://h/x'']"
  using Split_clean [of "[''<b>'', ''http://h/x'']"] by (simp add: clean_lines_def ex_script_def)

theorem page_shown_witness: "\<exists>page. msg_text (\<lambda>_. None) (Some ex_script) = Inr page \<and> page_safe page"
proof -
  have i: "attr_ok (m_MsgId ex_script)" by (simp add: ex_script_def ex_msg_def ex_id_def attr_ok_def)
  have d: "\<forall>l\<in>set (Split NL (msg_clean (m_Text ex_script))). HasPrefix l ''@base64:'' \<longrightarrow> DQ \<notin> set l"
    by (simp add: ex_script_lines)
  have t: "\<forall>l\<in>set (Split NL (msg_clean (m_Text ex_script))). tame l"
    by (simp add: ex_script_lines tame_def starts_def)
  from page_shown [OF i d] t show ?thesis by blast
qed

text \<open>
  C23: a picture written in the form XPM2, with one character a pixel and a palette of colours given by red, green
  and blue, is read back as it was, point by point, and the parser stops after its last line. (Pictures with more
  characters a pixel the code refuses.)
\<close>

theorem picture_read_back:
  assumes "pal_ok pal" and "points \<noteq> []" and "\<forall>r\<in>set points. row_ok w (pal_map pal) r"
    and "in64 (int w)" "in64 (int (length points))" "in64 (4 * int w * int (length points))"
  shows "\<exists>img. ParseXpm (xpm2 w pal points @ ls) = Inr (Some img, length (xpm2 w pal points)) \<and>
    im_w img = int w \<and> im_h img = int (length points) \<and>
    (\<forall>x<w. \<forall>y<length points. \<exists>r g b. map_of pal (points ! y ! x) = Some (r, g, b) \<and>
      im_pix img (int x, int y) = RGBA r g b 255)"
proof -
  let ?blank = "\<lparr>im_w = int w, im_h = int (length points), im_pix = (\<lambda>_. RGBA 0 0 0 0)\<rparr>"
  let ?img = "paint_rows (pal_map pal) 0 points ?blank"
  have "\<exists>r g b. map_of pal (points ! y ! x) = Some (r, g, b) \<and> im_pix ?img (int x, int y) = RGBA r g b 255"
    if "x < w" "y < length points" for x y
  proof -
    note t = that
    have r: "row_ok w (pal_map pal) (points ! y)" using assms(3) t(2) by simp
    then have "points ! y ! x \<in> set (points ! y)" using t(1) by (auto simp: row_ok_def)
    then have "pal_map pal [points ! y ! x] \<noteq> None" using r by (auto simp: row_ok_def)
    then obtain c where c: "map_of pal (points ! y ! x) = Some c" by (auto simp: pal_map_def)
    obtain r g b where d: "c = (r, g, b)" by (cases c)
    have "im_pix ?img (int x, int y) = the (pal_map pal [points ! y ! x])"
      using paint_rows_pix [of 0 points ?blank w "int x" "pal_map pal" "int y"] t assms(3) by (auto simp: row_ok_def)
    then show ?thesis using c d by (simp add: pal_map_def)
  qed
  then show ?thesis using ParseXpm_xpm2 [OF assms, of ls] by (intro exI [of _ ?img]) simp
qed

theorem picture_read_back_witness:
  "\<exists>img. ParseXpm (xpm2 2 [(CHR ''a'', 255, 0, 0), (CHR ''b'', 0, 0, 255)] [''ab'', ''ba''] @ [''rest'']) = Inr (Some img, 6)"
proof -
  have "length (xpm2 2 [(CHR ''a'', 255, 0, 0), (CHR ''b'', 0, 0, 255)] [''ab'', ''ba'']) = 6" by (simp add: xpm2_def)
  moreover have "pal_ok [(CHR ''a'', 255, 0, 0), (CHR ''b'', 0, 0, 255)]" by (simp add: pal_ok_def in_range_def)
  moreover have "\<forall>r\<in>set [''ab'', ''ba'']. row_ok 2 (pal_map [(CHR ''a'', 255, 0, 0), (CHR ''b'', 0, 0, 255)]) r"
    by (simp add: row_ok_def pal_map_def Contains_def)
  ultimately show ?thesis
    using picture_read_back [of "[(CHR ''a'', 255, 0, 0), (CHR ''b'', 0, 0, 255)]" "[''ab'', ''ba'']" 2 "[''rest'']"]
    by (auto simp: in_range_def)
qed

text \<open>
  C24: a file put into a message, in lines of base64 after a line with its name, is returned byte for byte
  by \<^verbatim>\<open>/id/base64\<close>, to anyone; a picture is shown, another file is saved under its name.
\<close>

theorem attachment_returned:
  assumes "db_rep (nd_db node) log" and "udb_rep (nd_udb node) us"
    and "spec_get log mid = Some m" and "IsMsgId mid" "CHR ''/'' \<notin> set mid"
    and "m_Text m = Join [NL] (front @ (''@base64:'' @ name) # cs)"
    and "clean_lines (front @ (''@base64:'' @ name) # cs)" and "\<forall>l\<in>set front. ordinary l"
    and "\<forall>c\<in>set cs. 4 dvd length c" and "concat cs = StdEncode d" and "d \<noteq> []"
    and "r_Path r = CHR ''/'' # mid @ ''/base64''"
  shows "\<exists>node' ctx'. handleWWW w host r node =
    (node', ctx', Inr (Download (if check_image d \<noteq> [] then None else Some (attach_name (''@base64:'' @ name))) d))"
proof -
  let ?node = "node\<lparr>nd_udb := fst (LoadUsers (w_compile w) (nd_udb node))\<rparr>"
  have ld: "reload w node = (?node, None)" using reload_rep [OF assms(2)] by auto
  have e: "CHR ''/'' \<notin> set ''base64''" by simp
  obtain db where g: "Get (nd_db ?node) mid = (db, Some m)"
    using Get_rep [OF assms(1), of mid] assms(3)
    by (cases "Get (nd_db node) mid") simp
  show ?thesis
    using ld route_message(2) [OF assms(4,5) e] assms(12)
      www_base64_file [OF _ assms(6-11), of ?node "ctx\<lparr>c_BasePath := mid\<rparr>" db for ctx] g
    by (simp add: handleWWW_def handle_www_def dispatch_message [OF assms(4)] message_def Let_def)
qed

definition ex_file :: Msg where
  "ex_file = ex_msg\<lparr>m_Text := Join [NL] ([''see''] @ (''@base64:'' @ ''f.txt'') # [''YWJj''])\<rparr>"

lemma ex_base64: "StdEncode ''abc'' = ''YWJj''"
  by code_simp

definition ex_file_node :: Node where
  "ex_file_node = ex_node\<lparr>nd_db := ex_db\<lparr>db_bundle := File (bundle_text [ex_file])\<rparr>\<rparr>"

lemma ex_file_ok: "storable ex_file" "length (bundle_text [ex_file]) < 300"
  by (simp_all add: ex_file_def storable_def bundle_ok_def indexable_def ex_msg_def ex_id_def
      IsMsgId_def line_ok_def IsEcho_def Tags_String_def nil_tags_def Msg_tag_val_def Msg_Tag_def
      Tags_Get_def Tags_val_def in_range_def Contains_def tags_ok_def no_lead_def no_trail_def
      TrimSuffix_def HasSuffix_def msg_line_def StdEncode_def length_b64_enc Msg_String_def itoa_def utoa.simps)

lemma ex_file_rep: "db_rep (nd_db ex_file_node) [ex_file]"
  using ex_file_ok
  by (auto simp: db_rep_def ex_file_node_def ex_db_def holds_text_def mem_rep_def nil_index_def simp del: bundle_text_simps)

theorem attachment_returned_witness:
  "\<exists>node' ctx'. handleWWW ex_world ''h'' (ex_req ''GET'' (CHR ''/'' # ex_id @ ''/base64'') None) ex_file_node =
    (node', ctx', Inr (Download (Some ''f.txt'') ''abc''))"
proof -
  have u: "udb_rep (nd_udb ex_file_node) [ex_user]" using ex_users(2) by (simp add: ex_file_node_def ex_node_def)
  have g: "spec_get [ex_file] ex_id = Some ex_file"
    by (simp add: spec_get_def newest_def ex_file_def ex_msg_def hidden_def blacklisted_def Msg_tag_val_def Msg_Tag_def Tags_val_def Tags_Get_def nil_tags_def)
  have i: "IsMsgId ex_id" "CHR ''/'' \<notin> set ex_id" by (simp_all add: ex_id_def IsMsgId_def)
  have t: "m_Text ex_file = Join [NL] ([''see''] @ (''@base64:'' @ ''f.txt'') # [''YWJj''])" by (simp add: ex_file_def)
  have c: "clean_lines ([''see''] @ (''@base64:'' @ ''f.txt'') # [''YWJj''])"
    by (simp add: clean_lines_def)
  have o: "\<forall>l\<in>set [''see'']. ordinary l" by (simp add: ordinary_def Trim_def TrimLeft_def TrimRight_def)
  have dv: "\<forall>c\<in>set [''YWJj'']. 4 dvd length c" by code_simp
  have k: "check_image ''abc'' = []" by (simp add: check_image_def magics_def)
  have n: "attach_name (''@base64:'' @ ''f.txt'') = ''f.txt''"
    by (simp add: attach_name_def TrimPrefix_def Trim_def TrimLeft_def TrimRight_def)
  show ?thesis
    using attachment_returned [OF ex_file_rep u g i t c o dv, of "''abc''" "ex_req ''GET'' (CHR ''/'' # ex_id @ ''/base64'') None" ex_world "''h''"]
      ex_base64 k n by (simp add: ex_req_def)
qed

text \<open>
  Editing a message again replaces the mark of the last edit: however often a message is edited, it
  carries one mark, and its text is otherwise the one of the first edit.
\<close>

theorem edit_marked_once:
  assumes "CR \<notin> set t" "t = [] \<or> hd t \<noteq> NL" and "\<forall>s\<in>set (stamps @ [s]). CR \<notin> set s \<and> NL \<notin> set s \<and> s \<noteq> []"
  shows "marked_text (foldl marked_text t stamps) s = marked_text t s"
  using assms(3)
proof (induction stamps rule: rev_induct)
  case (snoc s' stamps)
  have "marked_text (foldl marked_text t stamps) s' = marked_text t s'"
  proof -
    have "marked_text (foldl marked_text t stamps) s' = marked_text t s'" if "\<forall>s\<in>set (stamps @ [s']). CR \<notin> set s \<and> NL \<notin> set s \<and> s \<noteq> []"
      using that by (induction stamps arbitrary: s' rule: rev_induct) (auto simp: marked_text_again [OF assms(1,2)])
    then show ?thesis using snoc.prems by simp
  qed
  then show ?case using marked_text_again [OF assms(1,2)] snoc.prems by simp
qed simp

theorem edit_marked_once_witness:
  "marked_text (foldl marked_text ''hi'' [''monday'', ''tuesday'']) ''friday'' = ''hi'' @ [NL] @ ''P.S. Edited: friday''"
proof -
  have "marked_text ''hi'' ''friday'' = ''hi'' @ [NL] @ ''P.S. Edited: friday''"
    using Split_clean [of "[''hi'']"] by (simp add: marked_text_def edit_mark_def Let_def clean_lines_def)
  then show ?thesis using edit_marked_once [of "''hi''" "[''monday'', ''tuesday'']" "''friday''"] by simp
qed

text \<open>
  C25: a login gives out a cookie if and only if the password is the one of the account, and the cookie
  is recognized: the next request with it is served to that account.
\<close>

theorem login_recognized:
  assumes "udb_rep (nd_udb node) us" and "distinct (map us_Secret us)"
    and "u \<in> set us" "us_Name u \<noteq> []" and "r_Method r = ''POST''" "r_Path r = ''/login''" "r_Form r = Some v"
    and "v ''username'' = us_Name u"
  shows "\<exists>node' ctx' x. handleWWW w host r node = (node', ctx', x) \<and>
    (if us_Secret u = MakeSecret (us_Name u @ v ''password'')
     then x = Inr (SetCookie (us_Secret u) ''/'') \<and>
       (\<forall>w' r'. r_Path r' = ''/profile'' \<and> r_Cookie r' = Some (us_Secret u) \<longrightarrow>
         (\<exists>node2 ctx2. handleWWW w' host r' node' = (node2, ctx2, Inr Page) \<and> c_Template ctx2 = ''profile.tpl'' \<and> c_User ctx2 = u))
     else x = Inr Page \<and> c_Error ctx' = Some EAccessDenied)"
proof -
  obtain node' ctx' x where h: "handleWWW w host r node = (node', ctx', x)" "udb_loaded (nd_udb node') us"
    and x: "case find (\<lambda>u. us_Name u = v ''username'') us of
       Some u \<Rightarrow> if us_Secret u = MakeSecret (us_Name u @ v ''password'')
         then x = Inr (SetCookie (us_Secret u) ''/'') else x = Inr Page \<and> c_Error ctx' = Some EAccessDenied
     | None \<Rightarrow> x = Inr Page \<and> c_Error ctx' = Some EAccessDenied"
    using login_answers [OF assms(1,5-7), of w host] by blast
  have "distinct (map us_Name us)" using h(2) by (simp add: udb_loaded_def users_ok_def)
  then have f: "find (\<lambda>u. us_Name u = v ''username'') us = Some u"
    using assms(3,8) by (induction us) (auto simp: image_iff)
  have p: "\<exists>node2 ctx2. handleWWW w' host r' node' = (node2, ctx2, Inr Page) \<and> c_Template ctx2 = ''profile.tpl'' \<and> c_User ctx2 = u"
    if "r_Path r' = ''/profile''" "r_Cookie r' = Some (us_Secret u)" for w' r'
  proof -
    note t = that
    have ld: "reload w' node' = (node'\<lparr>nd_udb := fst (LoadUsers (w_compile w') (nd_udb node'))\<rparr>, None)"
        "udb_loaded (fst (LoadUsers (w_compile w') (nd_udb node'))) us"
      using reload_rep [OF udb_loaded_rep [OF h(2)], of w'] by auto
    have "route ''/profile'' = ([], [''profile''])" by (rule route_word) simp
    then show ?thesis
      using ld(1) t identify_loaded [OF ld(2) assms(2,3)] assms(4)
      by (simp add: handleWWW_def handle_www_def dispatch_def www_profile_def Let_def render_def split: option.split)
  qed
  show ?thesis
    using h(1) x p by (cases "us_Secret u = MakeSecret (us_Name u @ v ''password'')") (simp_all add: f)
qed

definition ex_login :: User where "ex_login = ex_user\<lparr>us_Secret := MakeSecret (''anna'' @ ''pw'')\<rparr>"

definition ex_login_node :: Node where
  "ex_login_node = ex_node\<lparr>nd_udb := OpenUsers (File (users_text [ex_login])) None\<rparr>"

lemma ex_login_rep: "udb_rep (nd_udb ex_login_node) [ex_login]"
proof -
  have "users_ok [ex_login]"
    using MakeSecret_field [of "''anna'' @ ''pw''"]
    by (simp add: users_ok_def user_ok_def ex_login_def ex_user_def field_ok_def in_range_def Tags_String_def nil_tags_def tags_ok_def)
  then show ?thesis
    using users_text_pos [of "[ex_login]"] by (simp add: udb_rep_def ex_login_node_def OpenUsers_def holds_text_def)
qed

theorem login_recognized_witness:
  "\<exists>node' ctx'. handleWWW ex_world ''h'' (ex_req ''POST'' ''/login'' None) ex_login_node =
    (node', ctx', Inr (SetCookie (MakeSecret ''annapw'') ''/''))"
  using login_recognized [OF ex_login_rep, of ex_login "ex_req ''POST'' ''/login'' None"
      "(\<lambda>_. [])(''username'' := ''anna'', ''password'' := ''pw'')" ex_world "''h''"]
  by (simp add: ex_req_def ex_login_def ex_user_def) blast

text \<open>
  A picture an account sends for itself becomes its avatar: it is kept in the file of accounts and the
  next request for the avatar, of anyone, is answered with this picture.
\<close>

theorem avatar_shown:
  assumes "udb_rep (nd_udb node) us" and "distinct (map us_Secret us)"
    and "u \<in> set us" "us_Name u \<noteq> []" "CHR ''/'' \<notin> set (us_Name u)" "\<not> removed u"
    and "r_Method r = ''POST''" "r_Path r = ''/avatar/'' @ us_Name u" "r_Cookie r = Some (us_Secret u)" "r_Form r = Some v"
    and "v ''avatar'' \<noteq> []" "length (v ''avatar'') \<le> 2048" "parse_ava (v ''avatar'') = Inr (Some img)"
  shows "\<exists>node' ctx'. handleWWW w host r node = (node', ctx', Inr (Redirect ''/profile'')) \<and>
    (\<forall>w' r' b. r_Method r' = ''GET'' \<and> r_Path r' = ''/avatar/'' @ us_Name u \<and> w_png w' img = Some b \<longrightarrow>
      (\<exists>node2 ctx2. handleWWW w' host r' node' = (node2, ctx2, Inr (Image b))))"
proof -
  obtain node' ctx' where h: "handleWWW w host r node = (node', ctx', Inr (Redirect ''/profile''))"
      "udb_rep (nd_udb node') (edited us (with_avatar (v ''avatar'') u))"
    using avatar_set [OF assms(1-10) refl assms(11-13), of w host] by blast
  have "\<exists>node2 ctx2. handleWWW w' host r' node' = (node2, ctx2, Inr (Image b))"
    if "r_Method r' = ''GET''" "r_Path r' = ''/avatar/'' @ us_Name u" "w_png w' img = Some b" for w' r' b
    using that by (intro avatar_get [OF h(2) with_avatar_edited [OF assms(3,6)] assms(5) _ _ assms(11,13)]) simp_all
  then show ?thesis using h(1) by blast
qed

definition ex_ava :: string where
  "ex_ava = Join [NL] [''! XPM2'', ''1 1 1 1'', ''a c #ff0000'', ''a'']"

lemma ex_ava_parsed: "\<exists>img. parse_ava ex_ava = Inr (Some img)"
proof -
  let ?pal = "[(CHR ''a'', 255::nat, 0::nat, 0::nat)]"
  have x: "xpm2 1 ?pal [''a''] = [''! XPM2'', ''1 1 1 1'', ''a c #ff0000'', ''a'']"
    by (simp add: xpm2_def colour_line_def hex2_def hex_digit_def itoa_def utoa.simps) code_simp
  have "Split NL (msg_clean ex_ava) = xpm2 1 ?pal [''a'']"
    unfolding x ex_ava_def by (rule Split_clean) (simp add: clean_lines_def)
  moreover have "\<exists>img. ParseXpm (xpm2 1 ?pal [''a''] @ []) = Inr (Some img, length (xpm2 1 ?pal [''a'']))"
    using ParseXpm_xpm2 [of ?pal "[''a'']" 1 "[]"]
    by (simp add: pal_ok_def row_ok_def pal_map_def Contains_def in_range_def)
  ultimately show ?thesis by (auto simp: parse_ava_def)
qed

theorem avatar_shown_witness:
  "\<exists>node' ctx'. handleWWW ex_world ''h'' ((ex_req ''POST'' ''/avatar/anna'' (Some ''0123456789''))
      \<lparr>r_Form := Some ((\<lambda>_. [])(''avatar'' := ex_ava))\<rparr>) ex_node = (node', ctx', Inr (Redirect ''/profile''))"
proof -
  obtain img where i: "parse_ava ex_ava = Inr (Some img)" using ex_ava_parsed by blast
  have l: "ex_ava \<noteq> []" "length ex_ava \<le> 2048" by (simp_all add: ex_ava_def Join_Cons)
  have u: "udb_rep (nd_udb ex_node) [ex_user]" using ex_users(2) by (simp add: ex_node_def)
  have n: "\<not> removed ex_user" by (simp add: removed_def ex_user_def nil_tags_def Tags_val_def Tags_Get_def)
  show ?thesis
    using avatar_shown [OF u _ _ _ _ n, of "(ex_req ''POST'' ''/avatar/anna'' (Some ''0123456789''))
        \<lparr>r_Form := Some ((\<lambda>_. [])(''avatar'' := ex_ava))\<rparr>" "(\<lambda>_. [])(''avatar'' := ex_ava)" img ex_world "''h''"] i l
    by (simp add: ex_user_def ex_req_def) blast
qed

section \<open>Where the web interface gives way\<close>

text \<open>
  C26: the field \<^verbatim>\<open>repto\<close> of the form is put into a tag as it is. A newline in it splits the record of the index:
  the message is stored, and from then on no message is read and none is stored.
\<close>

theorem newline_stops_node:
  assumes "db_rep (nd_db node) log"
    and "m_MsgId m = []" "m_Echo m \<noteq> []" "\<forall>s\<in>{m_Echo m, m_To m, us_Name u}. NL \<notin> set s \<and> CHR '':'' \<notin> set s"
    and "repto = a @ NL # b" "\<forall>s\<in>{a, b}. NL \<notin> set s \<and> CHR ''/'' \<notin> set s" "CHR '':'' \<notin> set a"
      "length (Split (CHR '':'') b) < 6"
  shows "\<exists>db' m'. Store now (nd_db node) (sign node u repto m) = (db', m', None) \<and>
    (\<forall>ks. let db = foldl (\<lambda>db k. fst (Get db k)) db' ks in
      (\<forall>k. snd (Get db k) = None) \<and> (\<forall>now m. snd (snd (Store now db m)) = Some (EIndexLine 2)))"
proof -
  let ?m = "sign node u repto m"
  have r: "Msg_tag_val ?m ''repto'' = a @ NL # b" using sign_repto [of repto node u m] assms(5,6) by auto
  have f: "m_MsgId ?m = []" "m_Echo ?m \<noteq> []"
      "\<forall>s\<in>{m_Echo ?m, m_To ?m, m_From ?m}. NL \<notin> set s \<and> CHR '':'' \<notin> set s"
    using assms(2-4) by (simp_all add: sign_def Let_def)
  obtain db' m' where s: "Store now (nd_db node) ?m = (db', m', None)" "stuck_at (EIndexLine 2) db'"
    using newline_repto_stuck [OF assms(1) f(1,2) r _ _ assms(7,8) f(3), of now] assms(6) by auto
  show ?thesis using s(1) Get_stuck [OF reads_stuck [OF s(2)]] Store_stuck [OF reads_stuck [OF s(2)]]
    by (auto simp: Let_def)
qed

theorem newline_stops_node_witness:
  "\<exists>db' m'. Store 7 ex_db1 (sign ex_node ex_user [CHR ''x'', NL, CHR ''y''] (ex_msg\<lparr>m_MsgId := []\<rparr>)) = (db', m', None) \<and>
    snd (Get db' ex_id) = None"
  using newline_stops_node [of ex_node "[ex_msg]" "ex_msg\<lparr>m_MsgId := []\<rparr>" ex_user "[CHR ''x'', NL, CHR ''y'']" "''x''" "''y''" 7] ex_db_rep(2)
  by (auto simp: ex_node_def ex_msg_def ex_user_def dest: spec [of _ "[]"])

text \<open>
  The form for an edit shows a message of a private area to anyone who knows its id; the page of the
  message itself denies the access.
\<close>

theorem private_readable:
  assumes "db_rep (nd_db node) log" "udb_rep (nd_udb node) us"
    and "spec_get log mid = Some m" "IsMsgId mid" "CHR ''/'' \<notin> set mid" "IsPrivate (m_Echo m)"
    and "r_Method r = ''GET''" "r_Cookie r = None"
  shows "(\<exists>node' ctx'. handleWWW w host (r\<lparr>r_Path := CHR ''/'' # mid\<rparr>) node = (node', ctx', Inr Page) \<and>
      c_Error ctx' = Some EAccessDenied \<and> c_Msg ctx' = []) \<and>
    (\<exists>node' ctx'. handleWWW w host (r\<lparr>r_Path := CHR ''/'' # mid @ ''/edit''\<rparr>) node = (node', ctx', Inr Page) \<and>
      c_Error ctx' = None \<and> c_Msg ctx' = [m\<lparr>m_Text := marked_text (m_Text m) (w_format w (w_now w))\<rparr>])"
  using private_through_edit [OF assms, of w host] by blast

definition ex_secret :: Msg where "ex_secret = ex_msg\<lparr>m_Echo := ''.pm.anna''\<rparr>"

definition ex_secret_node :: Node where
  "ex_secret_node = ex_node\<lparr>nd_db := ex_db\<lparr>db_bundle := File (bundle_text [ex_secret])\<rparr>\<rparr>"

lemma ex_secret_rep: "db_rep (nd_db ex_secret_node) [ex_secret]"
proof -
  have "storable ex_secret" "length (bundle_text [ex_secret]) < 300"
    by (simp_all add: ex_secret_def storable_def bundle_ok_def indexable_def ex_msg_def ex_id_def
      IsMsgId_def line_ok_def IsEcho_def Tags_String_def nil_tags_def Msg_tag_val_def Msg_Tag_def
      Tags_Get_def Tags_val_def in_range_def Contains_def tags_ok_def no_lead_def no_trail_def
      TrimSuffix_def HasSuffix_def msg_line_def StdEncode_def length_b64_enc Msg_String_def itoa_def utoa.simps)
  then show ?thesis
    by (auto simp: db_rep_def ex_secret_node_def ex_db_def holds_text_def mem_rep_def nil_index_def simp del: bundle_text_simps)
qed

theorem private_readable_witness:
  "\<exists>node' ctx'. handleWWW ex_world ''h'' (ex_req ''GET'' (CHR ''/'' # ex_id @ ''/edit'') None) ex_secret_node =
    (node', ctx', Inr Page) \<and> c_Msg ctx' \<noteq> []"
proof -
  have u: "udb_rep (nd_udb ex_secret_node) [ex_user]" using ex_users(2) by (simp add: ex_secret_node_def ex_node_def)
  have g: "spec_get [ex_secret] ex_id = Some ex_secret"
    by (simp add: spec_get_def newest_def ex_secret_def ex_msg_def hidden_def blacklisted_def Msg_tag_val_def Msg_Tag_def Tags_val_def
        Tags_Get_def nil_tags_def)
  have i: "IsMsgId ex_id" "CHR ''/'' \<notin> set ex_id" by (simp_all add: ex_id_def IsMsgId_def)
  have p: "IsPrivate (m_Echo ex_secret)" by (simp add: ex_secret_def IsPrivate_def)
  show ?thesis
    using private_readable [OF ex_secret_rep u g i p, of "ex_req ''GET'' (CHR ''/'' # ex_id @ ''/edit'') None" ex_world "''h''"]
    by (auto simp: ex_req_def)
qed

lemma no_prefix1: "c \<notin> set s \<Longrightarrow> \<not> HasPrefix s [c]"
  by (cases s) auto

text \<open>
  The name of an attached picture is put between quotes and its own quotes are left as they are: it can
  add attributes to the tag.
\<close>

theorem picture_name_escapes:
  assumes "m_Text m = ''@base64:'' @ name" and "name = a @ [DQ] @ b @ ''.png''" and "a \<noteq> []" "hd a \<noteq> SP"
    and "\<forall>c\<in>set name. c \<noteq> CHR ''&'' \<and> c \<noteq> CHR ''<'' \<and> c \<noteq> CHR ''>'' \<and> c \<noteq> NL \<and> c \<noteq> CR"
  shows "\<exists>front rear. msg_text png (Some m) = Inr (front @ ''<img class='' @ [DQ] @ ''img'' @ [DQ] @
    '' alt='' @ [DQ] @ a @ [DQ] @ b @ ''.png'' @ [DQ] @ rear)"
proof -
  have l: "Split NL (msg_clean (m_Text m)) = [''@base64:'' @ name]"
    using Split_clean [of "[''@base64:'' @ name]"] assms(1,2,5) by (auto simp: clean_lines_def)
  have t: "Trim name '' '' = name"
    using assms(2-4) by (cases a) (auto simp: Trim_def TrimLeft_id TrimRight_id)
  then have n: "attach_name (''@base64:'' @ name) = name" using assms(2) by (simp add: attach_name_def TrimPrefix_def)
  have q: "\<not> HasPrefix (dropWhile P name) ''>''" for P
  proof -
    have "CHR ''>'' \<notin> set (dropWhile P name)" using set_dropWhileD [of "CHR ''>''" P name] assms(5) by blast
    then show ?thesis by (rule no_prefix1)
  qed
  have "line_html png (''@base64:'' @ name) [] = Inr (Attached name)"
    using n q by (simp add: line_html_def starts_def is_quote_def)
  then have "msg_text png (Some m) = Inr (attach_html (m_MsgId m) name)"
    using l Trim_at [of "''base64:'' @ name"] by (simp add: msg_text_def msg_trunc_def)
  moreover have "attach_html (m_MsgId m) name = attach_link (m_MsgId m) name @ ''<img class='' @ [DQ] @ ''img'' @ [DQ] @
      '' alt='' @ [DQ] @ name @ [DQ] @ '' src='' @ [DQ] @ ''/'' @ m_MsgId m @ ''/base64'' @ [DQ] @ ''>'' @ [NL]"
    using assms(2,5) by (auto simp: attach_html_def str_esc_same HasSuffix_iff)
  ultimately show ?thesis using assms(2) by simp blast
qed

theorem picture_name_escapes_witness:
  "\<exists>front rear. msg_text (\<lambda>_. None) (Some (ex_msg\<lparr>m_Text := ''@base64:x'' @ [DQ] @ '' onerror=y .png''\<rparr>)) =
    Inr (front @ ''<img class='' @ [DQ] @ ''img'' @ [DQ] @ '' alt='' @ [DQ] @ ''x'' @ [DQ] @ '' onerror=y .png'' @ [DQ] @ rear)"
  using picture_name_escapes [of "ex_msg\<lparr>m_Text := ''@base64:x'' @ [DQ] @ '' onerror=y .png''\<rparr>" "''x'' @ [DQ] @ '' onerror=y .png''"
      "''x''" "'' onerror=y ''" "\<lambda>_. None"] by simp
section \<open>The command line tool\<close>

definition ex_env :: Env where
  "ex_env = \<lparr>e_now = 7, e_format = (\<lambda>_. ''date''), e_compile = (\<lambda>p. Some (\<lambda>s. HasPrefix s p)),
     e_get = (\<lambda>_. NoReply), e_post = (\<lambda>_ _. NoReply), e_read = (\<lambda>_. None), e_stdin = [], e_create = (\<lambda>_. True),
     e_fuel = 9\<rparr>"

definition ex_opts :: Opts where
  "ex_opts = \<lparr>o_db = ''db'', o_lim = 0, o_verbose = False, o_bundle = False, o_invert = False, o_force = False,
     o_topics = False, o_from = [], o_to = [], o_count = 0, o_skip = 0\<rparr>"

definition ex_disk :: "Msg list \<Rightarrow> Disk" where
  "ex_disk log = \<lparr>dk_dir = True, dk_bundle = File (bundle_text log), dk_index = NoFile, dk_points = NoFile,
     dk_new = NoFile, dk_ops = []\<rparr>"

lemma ex_disk_rep:
  assumes "\<forall>m\<in>set log. storable m" "int (length (bundle_text log)) < 2 ^ 63"
  shows "disk_rep (ex_disk log) log"
  using assms
  by (auto simp: disk_rep_def open_db_def OpenDB_def ex_disk_def db_rep_def holds_text_def mem_rep_def nil_index_def
      simp del: bundle_text_simps)

lemma ex_disk1: "disk_rep (ex_disk [ex_msg]) [ex_msg]" "disk_rep (ex_disk [ex_msg, ex_msg2]) [ex_msg, ex_msg2]"
  using ex_storable(1,2) ex_length by (intro ex_disk_rep; simp del: bundle_text_simps)+

text \<open>
  C27: only \<^verbatim>\<open>blacklist\<close>, \<^verbatim>\<open>fetch\<close> and \<^verbatim>\<open>store\<close> change the base. After any other command, with whatever
  arguments and options, the files still represent the same log, and every message reads as before; the
  file of accounts is changed by \<^verbatim>\<open>useradd\<close> only, the copy beside the base by \<^verbatim>\<open>clean\<close> only, other files by
  \<^verbatim>\<open>gemini\<close> only.
\<close>

theorem tool_writers:
  assumes "disk_rep d log" and "args \<noteq> []"
  shows "(hd args \<notin> {''blacklist'', ''fetch'', ''store''} \<longrightarrow>
      disk_rep (fst (tool env tpl opts args d)) log \<and>
      (\<forall>db db' k. open_db d = Some db \<and> open_db (fst (tool env tpl opts args d)) = Some db' \<longrightarrow> snd (Get db' k) = snd (Get db k))) \<and>
    (dk_points (fst (tool env tpl opts args d)) \<noteq> dk_points d \<longrightarrow> hd args = ''useradd'') \<and>
    (dk_new (fst (tool env tpl opts args d)) \<noteq> dk_new d \<longrightarrow> hd args = ''clean'') \<and>
    (dk_ops (fst (tool env tpl opts args d)) \<noteq> dk_ops d \<longrightarrow> hd args = ''gemini'')"
proof -
  have read: "snd (Get db k) = spec_get log k" if "open_db d' = Some db" "disk_rep d' log" for d' db k
    using that Get_rep [of db log k] by (auto simp: disk_rep_def)
  have "disk_rep (fst (tool env tpl opts args d)) log" if "hd args \<notin> {''blacklist'', ''fetch'', ''store''}"
    using tool_reads [OF assms(1)] that by (simp add: writers_def)
  then show ?thesis using read assms(1) tool_files [OF assms(2), of env tpl opts d] by metis
qed

theorem tool_writers_witness:
  "disk_rep (fst (tool ex_env (\<lambda>_. None) ex_opts [''get'', ex_id] (ex_disk [ex_msg]))) [ex_msg]"
  using tool_writers [OF ex_disk1(1), of "[''get'', ex_id]" ex_env "\<lambda>_. None" ex_opts] by simp

text \<open>
  C28: the import of a bundle. A line that does not decode is passed over. The messages of the others are taken
  in order up to the first whose id is known but hidden, and an id that is new is stored; what was stored reads
  as before. The import ends with an error exactly if there is such a message, and then no line after it is
  looked at; otherwise it ends well, and all ids are known. It ends well in particular if no message
  delivered is hidden, neither before nor by its own mark.
\<close>

theorem import_outcome:
  assumes "disk_rep d log" and "GetFile env path = Some s" and "fits (e_now env) (text_lines s) log"
  defines "run \<equiv> cmd_store env [''store'', path] d" and "all \<equiv> delivered (text_lines s)"
    and "after \<equiv> imported (e_now env) log"
  shows "(\<exists>ds rest ms. all = ds @ rest \<and> after ds = log @ ms \<and> disk_rep (fst run) (log @ ms) \<and> new_only log ms \<and>
      (\<forall>xs m ys. ds = xs @ m # ys \<longrightarrow> \<not> known_hidden (after xs) (m_MsgId m)) \<and>
      (case rest of
         [] \<Rightarrow> snd (snd run) = Exit 0 \<and> (\<forall>m\<in>set all. spec_exists (log @ ms) (m_MsgId m))
       | m # _ \<Rightarrow> snd (snd run) = Exit 1 \<and> known_hidden (log @ ms) (m_MsgId m))) \<and>
    ((\<forall>m\<in>set all. \<not> known_hidden log (m_MsgId m) \<and> \<not> blacklisted m) \<longrightarrow> snd (snd run) = Exit 0)"
proof -
  let ?ls = "text_lines s" and ?now = "e_now env"
  let ?i = "import_log ?now ?ls log"
  have eq: "run = on_db d (\<lambda>db. store_lines ?now ?ls db)" using assms(2) by (simp add: run_def cmd_store_def)
  have db: "files_rep (fst (store_lines ?now ?ls db)) (fst ?i)"
      "snd (snd (store_lines ?now ?ls db)) = (if snd ?i then Exit 1 else Exit 0)" if "db_rep db log" for db
    using store_lines_rep [OF that assms(3)] files_repI by auto
  have disk: "disk_rep (fst run) (fst ?i)" unfolding eq by (rule on_db_rep [OF assms(1) db(1)])
  obtain db0 where o: "open_db d = Some db0" "db_rep db0 log" using assms(1) by (rule disk_repE)
  have ends: "snd (snd run) = (if snd ?i then Exit 1 else Exit 0)"
    unfolding eq using o db(2) [OF o(2)] by (simp add: on_db_def case_prod_beta)
  obtain ds rest where p: "all = ds @ rest" "fst ?i = after ds" "snd ?i = (rest \<noteq> [])" "parts ?now log ds rest"
    using import_log_parts [of ?ls ?now log] unfolding all_def after_def by blast
  have ids: "\<forall>m\<in>set (ds @ rest). m_MsgId m \<noteq> []" using delivered_id unfolding p(1) [symmetric] all_def by blast
  obtain ms where ms: "fst ?i = log @ ms" "new_only log ms"
    using import_log_new [of ?now ?ls log] assms(3) by blast
  have "\<forall>m\<in>set ds. spec_exists (after ds) (m_MsgId m)" using imported_known ids unfolding after_def by auto
  then have "\<exists>ds rest ms. all = ds @ rest \<and> after ds = log @ ms \<and> disk_rep (fst run) (log @ ms) \<and> new_only log ms \<and>
      (\<forall>xs m ys. ds = xs @ m # ys \<longrightarrow> \<not> known_hidden (after xs) (m_MsgId m)) \<and>
      (case rest of
         [] \<Rightarrow> snd (snd run) = Exit 0 \<and> (\<forall>m\<in>set all. spec_exists (log @ ms) (m_MsgId m))
       | m # _ \<Rightarrow> snd (snd run) = Exit 1 \<and> known_hidden (log @ ms) (m_MsgId m))"
    using p disk ends ms
    by (intro exI [of _ ds] exI [of _ rest] exI [of _ ms]) (auto simp: parts_def after_def split: list.split)
  moreover have "snd (snd run) = Exit 0" if "\<forall>m\<in>set all. \<not> known_hidden log (m_MsgId m) \<and> \<not> blacklisted m"
    using parts_all [OF p(4) ids] that ends p(1,3) by simp
  ultimately show ?thesis by blast
qed

lemma ex_fits: "fits 7 [msg_line ex_msg2] [ex_msg]"
proof -
  have dec: "DecodeBundle (msg_line ex_msg2) = Inr ex_msg2" using ex_storable(2) by (rule DecodeBundle_msg_line)
  have "indexable (filled 7 ex_msg2)" using ex_storable(2,6) by (simp add: storable_def)
  then show ?thesis using ex_length(2) ex_storable(6) by (simp add: fits_def dec in_range_def del: bundle_text_simps)
qed

definition ex_import :: Env where
  "ex_import = ex_env\<lparr>e_read := (\<lambda>_. Some (msg_line ex_msg2 @ [NL]))\<rparr>"

theorem import_outcome_witness:
  "snd (snd (cmd_store ex_import [''store'', ''f''] (ex_disk [ex_msg]))) = Exit 0 \<and>
   (\<exists>ms. disk_rep (fst (cmd_store ex_import [''store'', ''f''] (ex_disk [ex_msg]))) ([ex_msg] @ ms) \<and> new_only [ex_msg] ms)"
proof -
  have nl: "NL \<notin> set (msg_line ex_msg2)" by (rule msg_line_no_NL [OF ex_storable(2)])
  have g: "GetFile ex_import ''f'' = Some (msg_line ex_msg2 @ [NL])" by (simp add: GetFile_def ex_import_def)
  have l: "text_lines (msg_line ex_msg2 @ [NL]) = [msg_line ex_msg2]" using text_lines_Cons [OF nl, of "[]"] by simp
  have dec: "DecodeBundle (msg_line ex_msg2) = Inr ex_msg2" using ex_storable(2) by (rule DecodeBundle_msg_line)
  have f: "fits (e_now ex_import) (text_lines (msg_line ex_msg2 @ [NL])) [ex_msg]"
    using ex_fits l by (simp add: ex_import_def ex_env_def)
  have "\<not> blacklisted ex_msg2" "\<not> known_hidden [ex_msg] (m_MsgId ex_msg2)"
    by (simp_all add: blacklisted_def Msg_tag_val_def Msg_Tag_def Tags_val_def Tags_Get_def ex_msg2_def ex_msg_def nil_tags_def
      known_hidden_def spec_get_def spec_exists_def newest_def hidden_def)
  then show ?thesis
    using import_outcome [OF ex_disk1(1) g f] dec unfolding l by auto
qed

lemma subseq_distinct: "distinct ys \<Longrightarrow> subseq xs ys \<Longrightarrow> distinct xs"
  by (auto simp: subseq_conv_nths)

text \<open>
  C29: \<^verbatim>\<open>search\<close> prints exactly the shown messages of the area asked for whose text matches, in the order in
  which they were stored, each once; hidden ones are not printed.
\<close>

theorem search_prints:
  assumes "disk_rep d log" and "e_compile env pat = Some re"
  shows "\<exists>ms. snd (cmd_search env opts [''search'', pat, echo] d) =
      (concat (map (\<lambda>m. Line (m_MsgId m) # (if o_verbose opts then [Line (Msg_String m)] else [])) ms), Exit 0) \<and>
    (\<forall>m. m \<in> set ms \<longleftrightarrow> spec_get log (m_MsgId m) = Some m \<and> (echo = [] \<or> m_Echo m = echo) \<and> re (Msg_String m)) \<and>
    subseq (map m_MsgId ms) (first_occurrences (map m_MsgId log)) \<and> distinct (map m_MsgId ms)"
proof -
  let ?ids = "first_occurrences (map m_MsgId log)"
  let ?ms = "matching log echo re"
  have out: "snd (cmd_search env opts [''search'', pat, echo] d) =
      (concat (map (\<lambda>m. Line (m_MsgId m) # (if o_verbose opts then [Line (Msg_String m)] else [])) ?ms), Exit 0)"
    using cmd_search_rep [OF assms, of opts "''search''" "[echo]"] by (simp add: search_lines_def [abs_def])
  have sub: "subseq (map m_MsgId ?ms) ?ids"
    unfolding matching_def by (rule subseq_order.trans [OF subseq_map [OF subseq_filter_left] found_ids])
  then have "distinct (map m_MsgId ?ms)" by (rule subseq_distinct [rotated]) simp
  moreover have "m \<in> set ?ms \<longleftrightarrow> spec_get log (m_MsgId m) = Some m \<and> (echo = [] \<or> m_Echo m = echo) \<and> re (Msg_String m)" for m
    using found_all [of m log] by (auto simp: matching_def)
  ultimately show ?thesis using out sub by blast
qed

text \<open>
  C30: \<^verbatim>\<open>sort\<close> prints the messages of the ids on its input, those that are shown, in the order of their dates
  (the newest first when inverted); messages of one date stay in the order of the input.
\<close>

theorem sort_prints:
  assumes "disk_rep d log" and "\<not> o_verbose opts"
  shows "\<exists>ms. snd (cmd_sort env opts d) = (map (\<lambda>m. Line (m_MsgId m)) ms, Exit 0) \<and>
    mset ms = mset (List.map_filter (spec_get log) (scan_lines (e_stdin env))) \<and>
    sorted_wrt (\<lambda>m m'. if o_invert opts then m_Date m \<ge> m_Date m' else m_Date m \<le> m_Date m') ms \<and>
    (\<forall>t. filter (\<lambda>m. m_Date m = t) ms =
      filter (\<lambda>m. m_Date m = t) (List.map_filter (spec_get log) (scan_lines (e_stdin env))))"
proof -
  let ?f = "found log (scan_lines (e_stdin env))"
  let ?k = "\<lambda>m. if o_invert opts then - m_Date m else m_Date m"
  have stable: "filter (\<lambda>m. m_Date m = t) (sort_key ?k ?f) = filter (\<lambda>m. m_Date m = t) ?f" for t
  proof -
    have eq: "(\<lambda>m. m_Date m = t) = (\<lambda>m. ?k m = (if o_invert opts then - t else t))" by auto
    show ?thesis unfolding eq by (rule sort_key_stable)
  qed
  have "sorted_wrt (\<lambda>m m'. ?k m \<le> ?k m') (sort_key ?k ?f)"
    using sorted_sort_key [of ?k ?f] by (simp add: sorted_map)
  then have "sorted_wrt (\<lambda>m m'. if o_invert opts then m_Date m \<ge> m_Date m' else m_Date m \<le> m_Date m') (sort_key ?k ?f)"
    by (rule sorted_wrt_mono_rel [rotated]) (auto split: if_splits)
  then show ?thesis
    using cmd_sort_rep [OF assms(1), of env opts] assms(2) stable
    by (intro exI [of _ "sort_key ?k ?f"]) (simp add: sorted_msgs_def found_def)
qed

text \<open>\<^verbatim>\<open>select\<close> prints the slice of the log; with \<^verbatim>\<open>-v\<close> the messages, with \<^verbatim>\<open>-b\<close> their lines of the bundle.\<close>

theorem select_prints:
  assumes "disk_rep d log" "\<not> o_invert opts" "o_count opts = 0" "o_skip opts = 0"
  shows "snd (cmd_select opts (''select'' # e # rest) d) =
    (map (\<lambda>k. Line (if o_verbose opts then print_msg (spec_get log k)
                else if o_bundle opts then (case newest log k of None \<Rightarrow> [] | Some (i, m) \<Rightarrow> msg_line m)
                else k))
       (log_slice log (select_query opts (''select'' # e # rest))), Exit 0)"
  using cmd_select_rep [OF assms, of "''select''" e rest] by (simp add: select_line_def cong: map_cong)

text \<open>
  C31: cleaning a base. The command ends well and writes beside the base the newest line of every id, in the
  order in which the ids were stored. Put in place of the base, without the index, it is a base in which
  every message reads as before, except that the first message is shown again if it was blacklisted: its
  line is now the first of the file.
\<close>

theorem clean_keeps:
  assumes "disk_rep d log" and "dk_bundle d = File t" "dk_new d = NoFile" and "\<not> distinct (map m_MsgId log)"
  shows "\<exists>new said. cmd_clean opts d = (d\<lparr>dk_new := new\<rparr>, said, Exit 0) \<and>
    (\<exists>log'. disk_rep (d\<lparr>dk_bundle := new, dk_index := NoFile\<rparr>) log' \<and> map m_MsgId log' = first_occurrences (map m_MsgId log)) \<and>
    (\<forall>db db' k. open_db d = Some db \<and> open_db (d\<lparr>dk_bundle := new, dk_index := NoFile\<rparr>) = Some db' \<longrightarrow>
      snd (Get db' k) = (if k = m_MsgId (hd log) then map_option snd (newest log k) else snd (Get db k)))"
proof -
  obtain db where o: "open_db d = Some db" "db_rep db log" using assms(1) by (rule disk_repE)
  then have dir: "dk_dir d" and b: "db_bundle db = File t" using assms(2) by (auto simp: open_db_def OpenDB_def split: if_splits)
  let ?new = "File (bundle_text (cleaned log))" and ?d = "d\<lparr>dk_bundle := File (bundle_text (cleaned log)), dk_index := NoFile\<rparr>"
  obtain said where c: "clean (o_db opts) (db_bundle db) (db_bundle db) NoFile = (?new, said, Exit 0)"
    using clean_base(1) [OF o(2) b assms(4)] by blast
  then have run: "cmd_clean opts d = (d\<lparr>dk_new := ?new\<rparr>, said, Exit 0)"
    using assms(2,3) b by (simp add: cmd_clean_def)
  have op: "open_db ?d = Some \<lparr>db_bundle = ?new, db_index = NoFile, db_Idx = nil_index, db_Name = ''node''\<rparr>"
    using dir by (simp add: open_db_def OpenDB_def)
  have rep: "db_rep \<lparr>db_bundle = ?new, db_index = NoFile, db_Idx = nil_index, db_Name = ''node''\<rparr> (cleaned log)"
    by (rule clean_base(2) [OF o(2) b assms(4)])
  have "disk_rep ?d (cleaned log)" using op rep by (simp add: disk_rep_def)
  moreover have "log \<noteq> []" using assms(4) by auto
  ultimately show ?thesis
    using run o op cleaned_ids [of log] spec_get_cleaned [of log] Get_rep [OF rep] Get_rep [OF o(2)]
    by (intro exI [of _ ?new] exI [of _ said]) auto
qed

text \<open>
  C32: cleaning a base that changes. The two passes read the file one after the other; when the first one
  found a repeated id, the command ends well if and only if the second one found the same ids equally often,
  in whatever order.
\<close>

theorem clean_detects:
  assumes "new \<noteq> Denied" and "\<not> distinct (row_ids (text_lines t1))"
  shows "snd (snd (clean path (File t1) (File t2) new)) = Exit 0 \<longleftrightarrow>
    mset (row_ids (text_lines t2)) = mset (row_ids (text_lines t1))"
  using clean_files [OF assms(1), of t1 path t2] assms(2) by (auto split: if_splits)

text \<open>
  C33: where the export writes. Every file \<^verbatim>\<open>gemini\<close> creates or writes for messages of the base lies below the
  directory it was given, whatever ids the messages have and whatever name an author gave a file: no part
  of the path leads up, unless the name is the parent itself, which is no file.
\<close>

theorem export_below:
  assumes "disk_rep d log" and "x \<in> set (drop (length (dk_ops d)) (dk_ops (fst (cmd_gemini env opts [''gemini'', dir] d))))"
  shows "\<exists>q. op_path x = TrimSuffix dir ''/'' @ ''/'' @ q \<and> (''..'' \<in> set (Split (CHR ''/'') q) \<longrightarrow> q = ''..'')"
proof -
  let ?ms = "found log (scan_lines (e_stdin env))" and ?dir = "TrimSuffix dir ''/''"
  obtain db where "cmd_gemini env opts [''gemini'', dir] d =
      (case gemini_files env (o_verbose opts) ?dir (map Some ?ms) of
         (ops, a) \<Rightarrow> ((put_db d db)\<lparr>dk_ops := dk_ops d @ ops\<rparr>, a))"
    using cmd_gemini_rep [OF assms(1), of env opts "''gemini''" dir "[]"] by blast
  then have "x \<in> set (fst (gemini_files env (o_verbose opts) ?dir (map Some ?ms)))"
    using assms(2) by (simp add: case_prod_beta)
  moreover have "\<forall>m\<in>set ?ms. IsMsgId (m_MsgId m)"
  proof
    fix m assume "m \<in> set ?ms"
    then obtain i where "spec_get log i = Some m" by (auto simp: set_found)
    then have "m \<in> set log" using spec_get_mem by blast
    then have "storable m" using assms(1) by (auto simp: disk_rep_def db_rep_def)
    then show "IsMsgId (m_MsgId m)" using storable_id by blast
  qed
  ultimately have "below ?dir (op_path x)" by (rule gemini_files_below [rotated])
  then show ?thesis by (simp add: below_def)
qed

text \<open>
  C34: the export of a message with a file. After lines that open nothing, the line that names the file and
  the lines of its base64 text, the file is written with exactly the bytes encoded, under its name with
  slashes made harmless, and the page links to it.
\<close>

theorem exported_file:
  assumes "\<forall>l\<in>set front. gem_plain l \<and> NL \<notin> set l" and "CR \<notin> set name" "NL \<notin> set name"
    and "concat cs = StdEncode data" and "m_Text m = Join [NL] (front @ (''@base64:'' @ name) # cs)"
    and "e_create env (dir @ ''/'' @ file_name (''@base64:'' @ name))"
  shows "\<exists>out. gemini env f m dir =
    [Write f out, Create (dir @ ''/'' @ file_name (''@base64:'' @ name)),
     Write (dir @ ''/'' @ file_name (''@base64:'' @ name)) data, Write f (file_link (file_name (''@base64:'' @ name)))]"
proof -
  have "\<forall>l\<in>set cs. CR \<notin> set l \<and> NL \<notin> set l"
  proof
    fix l assume "l \<in> set cs"
    then have "set l \<subseteq> set (concat cs)" by auto
    then show "CR \<notin> set l \<and> NL \<notin> set l" using StdEncode_clean_line(2,3) [of data] unfolding assms(4) by blast
  qed
  from gemini_file [OF assms(1-3) this assms(5), of env f dir] show ?thesis
    using assms(4,6) by (simp add: StdDecode_StdEncode Let_def)
qed

text \<open>
  C35: the mark of an edit loses the file. The web interface appends a line to the text of a message that is
  edited; the export takes it for a part of the file, cannot decode it and writes the page alone, without
  the file and without a word about it.
\<close>

theorem edited_file_lost:
  assumes "clean_lines (front @ (''@base64:'' @ name) # cs)" and "\<forall>l\<in>set front. gem_plain l"
    and "\<not> HasPrefix (last ((''@base64:'' @ name) # cs)) edit_mark" and "CR \<notin> set stamp" "NL \<notin> set stamp"
    and "m_Text m = marked_text (Join [NL] (front @ (''@base64:'' @ name) # cs)) stamp"
  shows "\<exists>out. gemini env f m dir = [Write f out]"
proof -
  let ?ls = "front @ (''@base64:'' @ name) # cs" and ?mark = "edit_mark @ stamp"
  have ls: "\<forall>l\<in>set ?ls. CR \<notin> set l \<and> NL \<notin> set l" using assms(1) by (simp add: clean_lines_def)
  have "last ?ls = last ((''@base64:'' @ name) # cs)" by simp
  then have "marked_text (Join [NL] ?ls) stamp = Join [NL] ?ls @ [NL] @ ?mark"
    using Split_clean [OF assms(1)] assms(3) by (simp add: marked_text_def Let_def)
  also have "\<dots> = Join [NL] (?ls @ [?mark])" using Join_snoc [of ?ls "[NL]" ?mark] by simp
  finally have tx: "m_Text m = Join [NL] (front @ (''@base64:'' @ name) # (cs @ [?mark]))" using assms(6) by simp
  have mark: "CR \<notin> set ?mark" "NL \<notin> set ?mark" using assms(4,5) by (simp_all add: edit_mark_def)
  have "StdDecode (concat (cs @ [?mark])) = None"
    by (rule StdDecode_foreign [of "CHR '':''"]) (simp_all add: edit_mark_def b64_std_def)
  moreover have "\<forall>l\<in>set front. gem_plain l \<and> NL \<notin> set l" "CR \<notin> set name" "NL \<notin> set name"
      "\<forall>l\<in>set (cs @ [?mark]). CR \<notin> set l \<and> NL \<notin> set l"
    using assms(2) ls mark by auto
  ultimately show ?thesis using gemini_file [OF _ _ _ _ tx, of env f dir] by simp
qed

text \<open>The links of a page of plain lines are numbered in their order and listed at its end.\<close>

theorem export_links:
  assumes "\<forall>l\<in>set (Split NL (m_Text m)). gem_plain l"
  shows "\<exists>body. gemini env f m dir = [Write f (body @ concat (map (\<lambda>l. l @ [NL])
    (link_lines (concat (map urls (Split NL (m_Text m)))))))]"
proof -
  let ?p = "new_page (gemini_head env m)"
  have o: "pg_open ?p" "pg_links ?p = link_lines []" by (simp_all add: pg_open_def new_page_def link_lines_def)
  have "pg_links (gemini_page env m) = link_lines (concat (map urls (Split NL (m_Text m))))"
    using gemini_links [OF assms o] by (simp add: gemini_page_def)
  moreover have "\<not> pg_b64 (gemini_page env m)"
    using gemini_front [OF assms o(1)] by (simp add: gemini_page_def pg_open_def)
  ultimately show ?thesis by (simp add: gemini_def Let_def)
qed
lemma root_walk_Suc: "root_walk n db echo p t = Some r \<Longrightarrow> root_walk (Suc n) db echo p t = Some r"
proof (induction n arbitrary: p t)
  case (Suc n)
  show ?case
  proof (cases p)
    case (Some q)
    show ?thesis using Suc.prems Suc.IH unfolding Some root_walk.simps(3) by (simp split: if_splits del: root_walk.simps)
  qed (use Suc.prems in simp)
qed simp

lemma root_walk_mono: "root_walk n db echo p t = Some r \<Longrightarrow> n \<le> n' \<Longrightarrow> root_walk n' db echo p t = Some r"
  by (rotate_tac, induction n' rule: dec_induct) (auto intro: root_walk_Suc simp del: root_walk.simps)

text \<open>
  The walk of \<^verbatim>\<open>get -t\<close> ends where every reply is younger than what it answers, after at most as many
  steps as messages are older; on two messages that answer each other no number of steps is enough.
\<close>

theorem get_walk_ends:
  assumes "\<forall>k p q. LookupFast db k False = Some p \<and> LookupFast db (mi_Repto p) False = Some q \<and> mi_Repto p \<noteq> mi_Id p \<longrightarrow>
      mi_Num q < mi_Num p"
    and "LookupFast db k False = Some p"
  shows "\<exists>t. root_walk (mi_Num p + 2) db echo (Some p) topic = Some t"
  using assms(2)
proof (induction "mi_Num p" arbitrary: k p topic rule: less_induct)
  case less
  have step: "\<exists>t. root_walk (Suc (mi_Num p)) db echo (LookupFast db (mi_Repto p) False) t0 = Some t" if "mi_Repto p \<noteq> mi_Id p" for t0
  proof (cases "LookupFast db (mi_Repto p) False")
    case (Some q)
    then have lt: "mi_Num q < mi_Num p" using assms(1) less.prems that by blast
    obtain t where "root_walk (mi_Num q + 2) db echo (Some q) t0 = Some t" using less.hyps [OF lt Some] by blast
    then show ?thesis using root_walk_mono [of "mi_Num q + 2" db echo "Some q" t0 t "Suc (mi_Num p)"] lt Some by auto
  qed simp
  show ?case using step by (cases "mi_Repto p = mi_Id p") auto
qed

theorem get_walk_stuck:
  assumes "LookupFast db a False = Some p" "LookupFast db b False = Some q"
    and "mi_Id p = a" "mi_Repto p = b" "mi_Id q = b" "mi_Repto q = a" "a \<noteq> b"
  shows "root_walk n db echo (Some p) topic = None"
proof -
  have "root_walk n db echo (Some p) t = None \<and> root_walk n db echo (Some q) t = None" for t
    using assms by (induction n arbitrary: t) auto
  then show ?thesis by blast
qed

section \<open>Concrete runs of the tool\<close>

definition ex_stdin :: "string \<Rightarrow> Env" where
  "ex_stdin s = ex_env\<lparr>e_stdin := s\<rparr>"

lemma ex_scan: "scan_lines (ex_id @ [NL] @ ex_id2) = [ex_id, ex_id2]" "scan_lines ex_id = [ex_id]"
  by (simp_all add: ex_id_def ex_id2_def scan_lines_def Let_def TrimSuffix_def HasSuffix_def)

lemma ex_get: "spec_get [ex_msg] ex_id = Some ex_msg" "spec_get [ex_msg, ex_msg2] ex_id = Some ex_msg"
  "spec_get [ex_msg, ex_msg2] ex_id2 = Some ex_msg2" "spec_get [ex_msg] k \<noteq> None \<Longrightarrow> k = ex_id"
  by (auto simp: spec_get_def newest_def ex_msg_def ex_msg2_def ex_id_def ex_id2_def hidden_def blacklisted_def
      Msg_tag_val_def Msg_Tag_def Tags_val_def Tags_Get_def nil_tags_def split: if_splits)

theorem search_prints_witness:
  "snd (cmd_search ex_env ex_opts [''search'', [], []] (ex_disk [ex_msg])) = ([Line ex_id], Exit 0)"
proof -
  have c: "e_compile ex_env [] = Some (\<lambda>s. HasPrefix s [])" by (simp add: ex_env_def)
  obtain ms where out: "snd (cmd_search ex_env ex_opts [''search'', [], []] (ex_disk [ex_msg])) =
      (concat (map (\<lambda>m. Line (m_MsgId m) # (if o_verbose ex_opts then [Line (Msg_String m)] else [])) ms), Exit 0)"
    and ms: "\<forall>m. m \<in> set ms \<longleftrightarrow> spec_get [ex_msg] (m_MsgId m) = Some m" and d: "distinct (map m_MsgId ms)"
    using search_prints [OF ex_disk1(1) c, of ex_opts "[]"] by auto
  have "m = ex_msg" if "m \<in> set ms" for m using ms that ex_get(1) ex_get(4) [of "m_MsgId m"] by auto
  moreover have "ex_msg \<in> set ms" using ms ex_get(1) by (simp add: ex_msg_def)
  ultimately have "set ms = {ex_msg}" by blast
  moreover have "distinct ms" using d by (simp add: distinct_map)
  ultimately have "ms = [ex_msg]" by (cases ms; cases "tl ms") auto
  then show ?thesis using out by (simp add: ex_opts_def ex_msg_def)
qed

theorem sort_prints_witness:
  "\<exists>ms. snd (cmd_sort (ex_stdin (ex_id @ [NL] @ ex_id2)) ex_opts (ex_disk [ex_msg, ex_msg2])) =
    (map (\<lambda>m. Line (m_MsgId m)) ms, Exit 0) \<and> mset ms = {#ex_msg, ex_msg2#}"
proof -
  have "List.map_filter (spec_get [ex_msg, ex_msg2]) (scan_lines (e_stdin (ex_stdin (ex_id @ [NL] @ ex_id2)))) = [ex_msg, ex_msg2]"
    using ex_scan(1) ex_get(2,3) by (simp add: ex_stdin_def map_filter_def)
  then show ?thesis
    using sort_prints [OF ex_disk1(2), of ex_opts "ex_stdin (ex_id @ [NL] @ ex_id2)"] by (auto simp: ex_opts_def)
qed

lemma ex_length3: "length (bundle_text [ex_msg, ex_msg2, ex_msg]) < 300"
  using ex_length by (simp add: length_bundle_lines del: bundle_text_simps)

lemma ex_disk3: "disk_rep (ex_disk [ex_msg, ex_msg2, ex_msg]) [ex_msg, ex_msg2, ex_msg]"
  using ex_storable(1,2) ex_length3 by (intro ex_disk_rep; simp del: bundle_text_simps)

theorem clean_keeps_witness:
  "\<exists>new said (log' :: Msg list). cmd_clean ex_opts (ex_disk [ex_msg, ex_msg2, ex_msg]) =
    ((ex_disk [ex_msg, ex_msg2, ex_msg])\<lparr>dk_new := new\<rparr>, said, Exit 0) \<and> map m_MsgId log' = [ex_id, ex_id2]"
proof -
  let ?l = "[ex_msg, ex_msg2, ex_msg]"
  have ids: "first_occurrences (map m_MsgId ?l) = [ex_id, ex_id2]"
    by (simp add: first_occurrences_def add_new_def ex_msg_def ex_msg2_def ex_id_def ex_id2_def)
  have b: "dk_bundle (ex_disk ?l) = File (bundle_text ?l)" "dk_new (ex_disk ?l) = NoFile" by (simp_all add: ex_disk_def)
  have "\<not> distinct (map m_MsgId ?l)" by simp
  from clean_keeps [OF ex_disk3 b this, of ex_opts] show ?thesis unfolding ids by (elim exE conjE) (intro exI conjI)
qed

theorem clean_detects_witness:
  "snd (snd (clean ''db'' (File (bundle_text [ex_msg, ex_msg2, ex_msg])) (File (bundle_text [ex_msg, ex_msg2])) NoFile)) \<noteq> Exit 0"
proof -
  have r: "row_ids (text_lines (bundle_text log)) = map m_MsgId log" if "\<forall>m\<in>set log. storable m" for log
    using text_lines_bundle [OF that] rows_log [OF that] by simp
  have r3: "row_ids (text_lines (bundle_text [ex_msg, ex_msg2, ex_msg])) = [ex_id, ex_id2, ex_id]"
    and r2: "row_ids (text_lines (bundle_text [ex_msg, ex_msg2])) = [ex_id, ex_id2]"
    using r [of "[ex_msg, ex_msg2, ex_msg]"] r [of "[ex_msg, ex_msg2]"] ex_storable
    by (simp_all add: ex_msg_def ex_msg2_def del: bundle_text_simps)
  show ?thesis
    using clean_detects [of NoFile "bundle_text [ex_msg, ex_msg2, ex_msg]" "''db''" "bundle_text [ex_msg, ex_msg2]"]
    by (simp add: r3 r2 del: bundle_text_simps)
qed

lemma ex_export:
  "Create (''out/'' @ ex_id @ ''.gmi'') \<in> set (drop (length (dk_ops (ex_disk [ex_msg])))
    (dk_ops (fst (cmd_gemini (ex_stdin ex_id) ex_opts [''gemini'', ''out/''] (ex_disk [ex_msg])))))"
proof -
  obtain db where "cmd_gemini (ex_stdin ex_id) ex_opts [''gemini'', ''out/''] (ex_disk [ex_msg]) =
      (case gemini_files (ex_stdin ex_id) (o_verbose ex_opts) (TrimSuffix ''out/'' ''/'')
         (map Some (found [ex_msg] (scan_lines (e_stdin (ex_stdin ex_id))))) of
       (ops, a) \<Rightarrow> ((put_db (ex_disk [ex_msg]) db)\<lparr>dk_ops := dk_ops (ex_disk [ex_msg]) @ ops\<rparr>, a))"
    using cmd_gemini_rep [OF ex_disk1(1)] by blast
  moreover have "found [ex_msg] (scan_lines (e_stdin (ex_stdin ex_id))) = [ex_msg]"
    using ex_scan(2) ex_get(1) by (simp add: ex_stdin_def)
  moreover have "TrimSuffix ''out/'' ''/'' = ''out''" by (simp add: TrimSuffix_def HasSuffix_def)
  ultimately show ?thesis by (simp add: case_prod_beta Let_def ex_stdin_def ex_env_def ex_msg_def)
qed

theorem export_below_witness:
  "\<exists>q. ''out/'' @ ex_id @ ''.gmi'' = TrimSuffix ''out/'' ''/'' @ ''/'' @ q \<and> (''..'' \<in> set (Split (CHR ''/'') q) \<longrightarrow> q = ''..'')"
  using export_below [OF ex_disk1(1) ex_export] by simp

definition ex_attached :: "string \<Rightarrow> Msg" where
  "ex_attached t = ex_msg\<lparr>m_Text := t\<rparr>"

lemma ex_attach: "StdEncode ''abc'' = ''YWJj''" "file_name (''@base64:'' @ ''../f.txt'') = ''.._f.txt''"
  by (code_simp) (simp add: file_name_def TrimPrefix_def Trim_def TrimLeft_def TrimRight_def Replace_def)

theorem exported_file_witness:
  "\<exists>out. gemini ex_env ''p'' (ex_attached (Join [NL] ([''see''] @ (''@base64:'' @ ''../f.txt'') # [''YW'', ''Jj'']))) ''out'' =
    [Write ''p'' out, Create ''out/.._f.txt'', Write ''out/.._f.txt'' ''abc'', Write ''p'' (file_link ''.._f.txt'')]"
  using exported_file [of "[''see'']" "''../f.txt''" "[''YW'', ''Jj'']" "''abc''"
      "ex_attached (Join [NL] ([''see''] @ (''@base64:'' @ ''../f.txt'') # [''YW'', ''Jj'']))" ex_env "''out''" "''p''"]
  unfolding ex_attach by (simp add: gem_plain_def ex_attached_def ex_env_def)

theorem edited_file_lost_witness:
  "\<exists>out. gemini ex_env ''p'' (ex_attached (marked_text (Join [NL] ([''see''] @ (''@base64:'' @ ''f.txt'') # [''YWJj''])) ''now'')) ''out'' =
    [Write ''p'' out]"
  using edited_file_lost [of "[''see'']" "''f.txt''" "[''YWJj'']" "''now''"
      "ex_attached (marked_text (Join [NL] ([''see''] @ (''@base64:'' @ ''f.txt'') # [''YWJj''])) ''now'')" ex_env "''p''" "''out''"]
  by (simp add: gem_plain_def ex_attached_def clean_lines_def edit_mark_def)

section \<open>The goroutines of a fetch\<close>

text \<open>
  C36: the pool of fetchers. However the goroutines are scheduled, after any number of steps at most as many
  fetchers run as connections are allowed (one, if none is allowed), the loop is never stuck, and the
  number of steps is bounded, so the fetch returns; then it has started one fetcher for each area of the
  list with a valid name, in order, and all of them have done their work.
\<close>

theorem fetch_pool:
  assumes "pool_run mx n (pool_start areas) s"
  shows "n \<le> 6 * length areas + 2 \<and>
    length (filter (\<lambda>w. snd w \<noteq> Ended) (pl_workers s)) \<le> max 1 (nat mx) \<and>
    (pl_boss s = Returned \<or> (\<exists>s'. pool_step mx s s')) \<and>
    (pl_boss s = Returned \<longrightarrow>
      map fst (pl_workers s) = filter IsEcho areas \<and> (\<forall>w\<in>set (pl_workers s). snd w \<noteq> Working))"
proof -
  have "pool_reach mx areas s" by (rule pool_run_reach [OF assms pool_reach.start])
  then have inv: "pool_inv mx areas s" by (rule pool_reach_inv)
  have "n \<le> 6 * length areas + 2"
    using pool_run_bound [OF assms] by (simp add: work_left_def pool_start_def)
  then show ?thesis
    using inv pool_progress [OF inv] by (auto simp: pool_inv_def alive_def room_def)
qed

theorem fetch_pool_witness:
  "\<exists>s'. pool_step 1 (start_worker 1 ''ii.test'' [] (pool_start [''ii.test''])) s'"
proof -
  have "pool_step 1 (pool_start [''ii.test'']) (start_worker 1 ''ii.test'' [] (pool_start [''ii.test'']))"
    by (rule pool_step.begin_one) (simp_all add: pool_start_def IsEcho_def Let_def)
  from fetch_pool [OF pool_run.more [OF this pool_run.none]] show ?thesis
    by (simp add: start_worker_def pool_start_def)
qed

section \<open>The node as a server\<close>

text \<open>
  C37: whatever requests a node answered, and whatever the files hold, areas and name of the node are as they
  were, and the bundles are the old text and one line for each of some of the requests, in their order. The line is
  the encoding of a message that request was granted in the state it met: a post that shows the secret of an account carries the name
  and address of that account; a message written through the web carries the address of the account of the cookie, unless
  that is the administrator's.
\<close>

theorem server_traceback:
  assumes "serves host node evs node'"
  shows "nd_edb node' = nd_edb node \<and> db_Name (nd_db node') = db_Name (nd_db node) \<and>
    (\<exists>es. file_text (db_bundle (nd_db node')) =
        file_text (db_bundle (nd_db node)) @ concat (map (\<lambda>(i, m). snd (Encode (w_now (fst (evs ! i))) m) @ [NL]) es) \<and>
      sorted_wrt (<) (map fst es) \<and>
      (\<forall>(i, m)\<in>set es. i < length evs \<and>
         (\<exists>node1. serves host node (take i evs) node1 \<and> granted (fst (evs ! i)) (snd (evs ! i)) node1 m)))"
  using serves_entries [OF assms] by (auto simp: justified_def entries_text_def)

text \<open>The message of the sample line, the node's copy of it, and the request that posts it.\<close>

definition ex_sent :: Msg where
  "ex_sent = \<lparr>m_MsgId = [], m_Tags = \<lparr>tg_Hash = Some [''ii'' \<mapsto> ''ok''], tg_List = [''ii'']\<rparr>, m_Echo = ''ii.test'', m_Date = 9,
     m_From = [], m_Addr = [], m_To = ''All'', m_Subj = ''subj'', m_Text = ''text''\<rparr>"

definition ex_copy :: Msg where "ex_copy = filled 9 (point_msg ex_node ex_user ex_sent)"

definition ex_world9 :: World where
  "ex_world9 = \<lparr>w_now = 9, w_format = (\<lambda>_. ''now''), w_compile = no_regexp, w_png = (\<lambda>_. None),
     w_order = (\<lambda>xs. xs), w_keys = (\<lambda>_. []), w_fuel = 100, w_whois = (\<lambda>_ _. None), w_lower = (\<lambda>s. s)\<rparr>"

definition ex_form :: Req where
  "ex_form = form_req ''/u/point'' [(''pauth'', us_Secret ex_user), (''tmsg'', StdEncode ex_point_line)]"

lemma ex_sent_decoded: "DecodeMsgline 9 ex_point_line False = Inr ex_sent" "length (StdEncode ex_point_line) \<le> 65536"
proof -
  show "DecodeMsgline 9 ex_point_line False = Inr ex_sent" unfolding ex_sent_def
    by (simp add: ex_point_line_def DecodeMsgline_def msgline_data_def Let_def TrimSpace_def
      space_runes_def IsEcho_def Contains_def IsEmptySubject_def Msg_tag_val_def
      Tags_val_def Tags_Get_def NewTags_def MakeTags_def Trim_def TrimLeft_def TrimRight_def body_text_def TrimSuffix_def HasSuffix_def)
qed (simp add: StdEncode_def length_b64_enc ex_point_line_def)

lemma ex_copy_id: "m_MsgId ex_copy = MsgId (Msg_String ex_copy)" "length (Msg_String ex_copy) < 100"
  by (simp_all add: ex_copy_def filled_def stamped_def Let_def point_msg_def ex_sent_def Msg_String_def ex_node_def
      ex_db1_def ex_db_def ex_user_def Tags_String_def TrimSuffix_def HasSuffix_def itoa_def utoa.simps)

lemma ex_copy_storable: "storable ex_copy"
proof -
  have "bundle_ok (point_msg ex_node ex_user ex_sent)"
    by (simp add: bundle_ok_def point_msg_def ex_sent_def ex_node_def ex_db1_def ex_db_def ex_user_def tags_ok_def nil_tags_def
        no_lead_def no_trail_def TrimSuffix_def HasSuffix_def digit_def char_of_def line_ok_def Tags_String_def Msg_Tag_def
        Tags_Get_def IsEcho_def Contains_def itoa_def utoa.simps)
      (simp add: in_range_def)
  then have "bundle_ok ex_copy" unfolding ex_copy_def by (rule bundle_ok_filled) (simp add: in_range_def)
  moreover have "indexable ex_copy"
    unfolding indexable_def ex_copy_id(1) using MsgId_clean
    by (simp add: ex_copy_def filled_def stamped_def Let_def point_msg_def ex_sent_def ex_node_def ex_db1_def ex_db_def
        ex_user_def Msg_tag_val_def Tags_val_def Tags_Get_def nil_tags_def)
  ultimately show ?thesis using ex_copy_id(1) by (simp add: storable_def)
qed

lemma ex_copy_length: "int (length (bundle_text ([ex_msg] @ [ex_copy]))) < 2 ^ 63"
proof -
  have "length (msg_line ex_copy) = 21 + length (StdEncode (Msg_String ex_copy))"
    by (simp add: msg_line_def ex_copy_id(1))
  also have "length (StdEncode (Msg_String ex_copy)) < 200"
    using ex_copy_id(2) by (simp add: StdEncode_def length_b64_enc)
  finally have "length (msg_line ex_copy) < 221" by simp
  then show ?thesis using ex_length(1) by (simp del: bundle_text_simps add: length_bundle_sum)
qed

lemma ex_sent_reply: "point_reply [ex_msg] ex_node ex_user ex_sent = None"
  by (simp add: point_reply_def may_post_def EDB_Access_def ex_node_def nil_edb_def ex_user_def ex_sent_def
      Tags_val_def Tags_Get_def nil_tags_def Msg_tag_val_def)

lemma ex_node_rep: "db_rep (nd_db ex_node) [ex_msg]" "udb_rep (nd_udb ex_node) [ex_user]"
  by (simp_all add: ex_node_def ex_db_rep ex_users)

lemma ex_form_served: "\<exists>node1. serve_req ex_world9 ''h'' ex_form ex_node = (node1, Posted (Some None))"
proof -
  have "DecodeMsgline (w_now ex_world9) (StdEncode ex_point_line) True = Inr ex_sent"
    using ex_sent_decoded by (simp add: msgline_std ex_world9_def)
  moreover have "ex_copy = filled (w_now ex_world9) (point_msg ex_node ex_user ex_sent)"
    by (simp add: ex_copy_def ex_world9_def)
  ultimately show ?thesis
    using accepted_then_served [OF ex_node_rep _ _ _ ex_sent_reply _ ex_copy_storable ex_copy_length, of ex_world9 _ "''h''"]
    unfolding ex_form_def by fastforce
qed

theorem server_traceback_witness:
  "\<exists>node1 es. serves ''h'' ex_node [(ex_world9, ex_form)] node1 \<and>
    file_text (db_bundle (nd_db node1)) =
      bundle_text [ex_msg] @ concat (map (\<lambda>(i, m). snd (Encode (w_now (fst ([(ex_world9, ex_form)] ! i))) m) @ [NL]) es)"
proof -
  obtain node1 where "serve_req ex_world9 ''h'' ex_form ex_node = (node1, Posted (Some None))"
    using ex_form_served by blast
  from serves.one [OF serves.none this] have s: "serves ''h'' ex_node [(ex_world9, ex_form)] node1" by simp
  moreover have "file_text (db_bundle (nd_db ex_node)) = bundle_text [ex_msg]"
    by (simp add: ex_node_def ex_db1_def file_text_def)
  ultimately show ?thesis using server_traceback [OF s] by auto
qed

text \<open>
  C38: a message a client sends with \<^verbatim>\<open>Post\<close> to a node that accepts it is reported as sent and is stored
  behind what was there; from then on \<^verbatim>\<open>/u/m/\<close> with its id gives it in its encoded form to anyone who asks, if its
  area is not private and it is not hidden, and gives nothing otherwise.
\<close>

theorem sent_then_served:
  assumes "db_rep (nd_db node) log" and "udb_rep (nd_udb node) us" and "distinct (map us_Secret us)" "u \<in> set us"
    and "length (StdEncode msg) \<le> 65536" and "DecodeMsgline (w_now w) msg False = Inr m"
    and "point_reply log node u m = None"
    and fm: "fm = filled (w_now w) (point_msg node u m)" "storable fm" "int (length (bundle_text (log @ [fm]))) < 2 ^ 63"
  shows "Post (deliver err_text w site (rm_Host n) node) n (us_Secret u) msg = None \<and>
    (\<exists>node1 x. serve_req w site (form_req ''/u/point'' [(''pauth'', us_Secret u), (''tmsg'', StdEncode msg)]) node = (node1, x) \<and>
      db_rep (nd_db node1) (log @ [fm]) \<and>
      (\<forall>w' r. r_Method r \<noteq> ''CONNECT'' \<and> r_Path r = um_path (m_MsgId fm) \<longrightarrow>
         snd (serve_req w' site r node1) =
           Text (if hidden (length log) fm \<or> IsPrivate (m_Echo fm) then [] else msg_line fm @ [NL])))"
proof -
  have dec: "DecodeMsgline (w_now w) (StdEncode msg) True = Inr m" using assms(5,6) by (simp add: msgline_std)
  note a = accepted_then_served [OF assms(1-4) dec assms(7) fm, of site]
  have "TrimPrefix (rm_Host n @ ''/u/point'') (rm_Host n) = ''/u/point''" by (rule TrimPrefix_append)
  then show ?thesis
    using a by (auto simp: Post_def post_result_def deliver_def answer_text_def)
qed

theorem sent_then_served_witness:
  "Post (deliver (\<lambda>_. ''no'') ex_world9 ''h'' ''n'' ex_node) \<lparr>rm_Host = ''n'', rm_Features = {}, rm_Force = False\<rparr>
     ''0123456789'' ex_point_line = None"
proof -
  have "DecodeMsgline (w_now ex_world9) ex_point_line False = Inr ex_sent" using ex_sent_decoded by (simp add: ex_world9_def)
  moreover have "ex_copy = filled (w_now ex_world9) (point_msg ex_node ex_user ex_sent)"
    by (simp add: ex_copy_def ex_world9_def)
  ultimately show ?thesis
    using sent_then_served [OF ex_node_rep _ _ ex_sent_decoded(2) _ ex_sent_reply _ ex_copy_storable ex_copy_length,
      of ex_world9 "\<lambda>_. ''no''" "''h''" "\<lparr>rm_Host = ''n'', rm_Features = {}, rm_Force = False\<rparr>"]
    by (simp add: ex_user_def)
qed

text \<open>
  C39: the client sees of a node what \<^verbatim>\<open>II_Sync\<close> says: every answer there is the answer of the whole server, whose
  multiplexer cleans paths, redirects and chooses the handler, to a GET request of that URL.
\<close>

theorem served_answers:
  assumes "fetches host url r" and "serve (w_order w) host node url = Reply body ok"
  shows "ok \<and> snd (serve_req w site r node) = Text body"
  by (rule serve_served [OF assms])

theorem served_answers_witness:
  "snd (serve_req ex_world9 ''h'' ((ex_form\<lparr>r_Method := ''GET'', r_Path := ''/x/features''\<rparr>)) ex_node) = Text handle_features"
proof -
  have "fetches ''n'' ''n/x/features'' (ex_form\<lparr>r_Method := ''GET'', r_Path := ''/x/features''\<rparr>)"
    by (simp add: fetches_def)
  moreover have "serve (w_order ex_world9) ''n'' ex_node ''n/x/features'' = Reply handle_features True"
    by (simp add: serve_def Let_def)
  ultimately show ?thesis using served_answers by blast
qed

section \<open>Fetchers side by side\<close>

text \<open>
  C40: a fetch of several areas from a node that runs this program, its goroutines interleaved in any way
  between the operations on the database: no run is longer than the operations its goroutines can do, and when none
  can go on, what was appended are messages the node shows, under ids that were new, none of them twice, and of each
  area the newest id the node shows is stored here. If the fetch is forced, or the node does not answer to parts of
  an area, all ids the fetch asks for are stored: the last \<open>limit\<close> of the area, or all of them. By default they need
  not be: a fetcher that finds the newest id known does not ask for the others.
\<close>

theorem race_mirrors:
  assumes "db_rep db log" and "db_rep (nd_db node) rlog" and "\<forall>m\<in>set rlog. plain_segment (m_MsgId m)"
    and "in64 now" and "int (length (bundle_text log) + length (bundle_text (map (filled now) rlog))) < 2 ^ 63"
    and "\<forall>e\<in>set es. IsEcho e \<longrightarrow> plain_segment e" and "in64 limit" "0 \<le> limit"
    and run: "races now (fetch_tasks (serve order (rm_Host n) node) n es limit, db) k (ts, db')"
  shows "k \<le> work (fetch_tasks (serve order (rm_Host n) node) n es limit) \<and>
    ((\<exists>s. race_step now (ts, db') s) \<or>
     (\<exists>ms. db_rep db' (log @ ms) \<and> new_only log ms \<and>
        (\<forall>m\<in>set ms. \<exists>m'. spec_get rlog (m_MsgId m') = Some m' \<and> m = filled now m') \<and>
        (\<forall>e\<in>set es. IsEcho e \<longrightarrow>
           set (wanted rlog e 1) \<subseteq> m_MsgId ` set (log @ ms) \<and>
           (rm_Force n \<or> \<not> IsFeature n ''u/e'' \<longrightarrow>
              set (wanted rlog e (if IsFeature n ''u/e'' then limit else 0)) \<subseteq> m_MsgId ` set (log @ ms)))))"
proof -
  let ?get = "serve order (rm_Host n) node" and ?W = "asked n rlog limit"
  have good: "good_remote ?get (rm_Host n) now log" by (rule serve_good [OF assms(2,4,5)])
  have "ensures (fetch_task ?get n e limit) (?W e)" if "e \<in> set es" "IsEcho e" for e
    using ensures_fetch [OF assms(2,3) that(2) _ assms(7,8)] assms(6) that by blast
  then have "race_inv ?get (rm_Host n) now log (map ?W (filter IsEcho es)) (fetch_tasks ?get n es limit, db)"
    by (intro race_inv_start assms(1))
  from race_inv_run [OF run good this]
  have inv: "race_inv ?get (rm_Host n) now log (map ?W (filter IsEcho es)) (ts, db')" .
  have main: "\<exists>ms. db_rep db' (log @ ms) \<and> new_only log ms \<and>
      (\<forall>m\<in>set ms. \<exists>m'. spec_get rlog (m_MsgId m') = Some m' \<and> m = filled now m') \<and>
      (\<forall>e\<in>set es. IsEcho e \<longrightarrow> ?W e \<subseteq> m_MsgId ` set (log @ ms))" if "\<not> (\<exists>s. race_step now (ts, db') s)"
  proof -
    have "\<forall>t\<in>set ts. t = Done" using race_progress [of ts now db'] that by blast
    from race_inv_done [OF inv this] obtain ms where ms: "db_rep db' (log @ ms)" "new_only log ms"
        "set ms \<subseteq> fetched ?get (rm_Host n) now" "\<Union> (set (map ?W (filter IsEcho es))) \<subseteq> m_MsgId ` set (log @ ms)"
      unfolding extends_def by blast
    have "\<forall>m\<in>set ms. \<exists>m'. spec_get rlog (m_MsgId m') = Some m' \<and> m = filled now m'"
      using ms(3) fetched_serve [OF assms(2), of order "rm_Host n" now] by blast
    moreover have "?W e \<subseteq> m_MsgId ` set (log @ ms)" if "e \<in> set es" "IsEcho e" for e
    proof -
      have "?W e \<in> set (map ?W (filter IsEcho es))" using that by simp
      from order_trans [OF Union_upper [OF this] ms(4)] show ?thesis .
    qed
    ultimately show ?thesis using ms(1,2) by blast
  qed
  have bound: "k \<le> work (fetch_tasks ?get n es limit)" using races_bounded [OF run] by simp
  have split: "?W e \<subseteq> A \<longleftrightarrow> set (wanted rlog e 1) \<subseteq> A \<and> (rm_Force n \<or> \<not> IsFeature n ''u/e'' \<longrightarrow>
      set (wanted rlog e (if IsFeature n ''u/e'' then limit else 0)) \<subseteq> A)" for e A
    unfolding asked_def by auto
  show ?thesis using bound main unfolding split by blast
qed

theorem race_mirrors_witness:
  "\<exists>log. db_rep (Fetcher (serve (\<lambda>ks. ks) ''h'' ex_node) 7 ex_remote_node ex_db ''ii.test'' 0) log \<and>
     ex_id \<in> m_MsgId ` set log"
proof -
  let ?ts = "fetch_tasks (serve (\<lambda>ks. ks) ''h'' ex_node) ex_remote_node [''ii.test''] 0"
  let ?db = "Fetcher (serve (\<lambda>ks. ks) ''h'' ex_node) 7 ex_remote_node ex_db ''ii.test'' 0"
  have ts: "?ts = [fetch_task (serve (\<lambda>ks. ks) ''h'' ex_node) ex_remote_node ''ii.test'' 0]"
    using ex_sync(3) by (simp add: fetch_tasks_def)
  then obtain k where "races 7 (?ts, ex_db) k (?ts[0 := Done], ?db)"
    using races_one [of 0 ?ts "hd ?ts" 7 ex_db] run_fetch by auto
  then have run: "races 7 (fetch_tasks (serve (\<lambda>ks. ks) (rm_Host ex_remote_node) ex_node) ex_remote_node [''ii.test''] 0, ex_db) k ([Done], ?db)"
    unfolding ex_sync(8) by (simp add: ts)
  have stuck: "\<not> race_step 7 ([Done], ?db) s" for s
    by (cases s) (auto elim!: race_stepE)
  have "in64 0" "\<forall>e\<in>set [''ii.test'']. IsEcho e \<longrightarrow> plain_segment e" using ex_sync(4) by (simp_all add: in_range_def)
  from race_mirrors [OF ex_db_rep(1) ex_sync(5,1,2) ex_sync_length(1) this(2,1) order_refl run] stuck ex_sync(7)
  obtain ms where "db_rep ?db ([] @ ms)"
      "\<forall>e\<in>set [''ii.test'']. IsEcho e \<longrightarrow> set (wanted [ex_msg] e (if IsFeature ex_remote_node ''u/e'' then 0 else 0)) \<subseteq> m_MsgId ` set ([] @ ms)"
    by blast
  then show ?thesis using ex_sync(3,6) by auto
qed

end
